(* ===== verification/Prelude.thy ===== *)
theory Prelude
  imports Main "HOL-Library.Word"
begin

text \<open>
  Prelude: the vocabulary every component of the memory simulator shares.

  C code that can go wrong at run time is modelled by functions into \<open>'a res\<close>, the
  sum of a \<open>fault\<close> and a result.  A fault is a failed \<open>assert\<close>, a null or wild
  pointer dereference, an out-of-bounds array access, an undefined shift, or a loop
  that never returns.  \<open>bindR\<close> sequences such steps.  The machine integers are
  words of their C width.  \<open>slice\<close> and \<open>splice\<close> read and overwrite a range of a
  byte array.
\<close>

section \<open>Machine integers\<close>

type_synonym byte = "8 word"
type_synonym u32 = "32 word"
type_synonym u64 = "64 word"

section \<open>Run-time faults and results\<close>

datatype fault =
    AssertFail      \<comment> \<open>\<open>assert\<close> with a false condition: the process aborts\<close>
  | NullDeref       \<comment> \<open>a NULL pointer is dereferenced\<close>
  | BadPointer      \<comment> \<open>a pointer to no live object of the type is dereferenced or freed\<close>
  | OutOfBounds     \<comment> \<open>an array is accessed outside its bounds\<close>
  | BadShift        \<comment> \<open>a shift by at least the width of the operand\<close>
  | DivByZero       \<comment> \<open>a division or remainder by zero\<close>
  | Uninitialized   \<comment> \<open>a memory cell is read that was never written\<close>
  | Diverges        \<comment> \<open>a loop that does not return\<close>

type_synonym 'a res = "fault + 'a"

definition bindR :: "'a res \<Rightarrow> ('a \<Rightarrow> 'b res) \<Rightarrow> 'b res" where
  "bindR m f = (case m of Inl e \<Rightarrow> Inl e | Inr x \<Rightarrow> f x)"

lemma bindR_simps [simp]:
  "bindR (Inl e) f = Inl e"
  "bindR (Inr x) f = f x"
  by (simp_all add: bindR_def)

lemma bindR_eq_Inr [simp]:
  "bindR m f = Inr y \<longleftrightarrow> (\<exists>x. m = Inr x \<and> f x = Inr y)"
  by (cases m) auto

lemma bindR_assoc: "bindR (bindR m f) g = bindR m (\<lambda>x. bindR (f x) g)"
  by (cases m) auto

lemma bindR_cong [cong]:
  "m = m' \<Longrightarrow> (\<And>x. m' = Inr x \<Longrightarrow> f x = g x) \<Longrightarrow> bindR m f = bindR m' g"
  by (cases m') auto

definition assertR :: "bool \<Rightarrow> unit res" where
  "assertR b = (if b then Inr () else Inl AssertFail)"

lemma assertR_simps [simp]:
  "assertR True = Inr ()"
  "assertR False = Inl AssertFail"
  "assertR b = Inr u \<longleftrightarrow> b"
  by (simp_all add: assertR_def)

section \<open>Ranges of a byte array\<close>

definition slice :: "'a list \<Rightarrow> nat \<Rightarrow> nat \<Rightarrow> 'a list" where
  "slice xs a n = take n (drop a xs)"

definition splice_at :: "'a list \<Rightarrow> nat \<Rightarrow> 'a list \<Rightarrow> 'a list" where
  "splice_at xs a ys = take a xs @ ys @ drop (a + length ys) xs"

lemma length_slice [simp]: "length (slice xs a n) = min n (length xs - a)"
  by (simp add: slice_def)

lemma length_splice_at [simp]:
  "a + length ys \<le> length xs \<Longrightarrow> length (splice_at xs a ys) = length xs"
  by (simp add: splice_at_def)

lemma nth_slice [simp]: "i < n \<Longrightarrow> a + i < length xs \<Longrightarrow> slice xs a n ! i = xs ! (a + i)"
  by (simp add: slice_def)

lemma nth_splice_at:
  assumes "a \<le> length xs" and "i < max (length xs) (a + length ys)"
  shows "splice_at xs a ys ! i =
    (if i < a then xs ! i else if i < a + length ys then ys ! (i - a) else xs ! i)"
proof (cases "i < a + length ys")
  case True
  then have "i < a \<or> i - a < length ys" by arith
  with True assms show ?thesis by (auto simp: splice_at_def nth_append min_def)
next
  case False
  then have "\<not> i - a < length ys" "i - a - length ys = i - (a + length ys)" by arith+
  moreover from False assms(2) have "i < length xs" "length xs \<noteq> a" by auto
  ultimately show ?thesis using False assms(1) by (simp add: splice_at_def nth_append min_def)
qed

lemma slice_splice_same [simp]:
  "a \<le> length xs \<Longrightarrow> slice (splice_at xs a ys) a (length ys) = ys"
  by (simp add: slice_def splice_at_def)

lemma slice_splice_disjoint:
  assumes "a + length ys \<le> length xs" and "b + n \<le> a \<or> a + length ys \<le> b"
  shows "slice (splice_at xs a ys) b n = slice xs b n"
proof (rule nth_equalityI)
  show "length (slice (splice_at xs a ys) b n) = length (slice xs b n)"
    using assms(1) by simp
next
  fix i assume "i < length (slice (splice_at xs a ys) b n)"
  then have i: "i < n" "b + i < length xs" using assms(1) by auto
  then show "slice (splice_at xs a ys) b n ! i = slice xs b n ! i"
    using assms by (auto simp: nth_splice_at)
qed

lemma slice_replicate: "a + n \<le> m \<Longrightarrow> slice (replicate m x) a n = replicate n x"
  by (simp add: slice_def min_def)

lemma slice_list_update_disjoint:
  "i < b \<or> b + n \<le> i \<Longrightarrow> slice (xs[i := v]) b n = slice xs b n"
  by (auto simp: slice_def drop_update_swap take_update_cancel)

lemma slice_list_update_inside:
  "b \<le> i \<Longrightarrow> i < b + n \<Longrightarrow> slice (xs[i := v]) b n = (slice xs b n)[i - b := v]"
  by (auto simp: slice_def drop_update_swap take_update_swap)

text \<open>Blocks of a fixed size at multiples of the size do not overlap.\<close>

lemma blocks_disjoint:
  fixes i j k :: nat
  assumes "i \<noteq> j"
  shows "k * i + k \<le> k * j \<or> k * j + k \<le> k * i"
proof -
  from assms have "Suc i \<le> j \<or> Suc j \<le> i" by arith
  then have "k * Suc i \<le> k * j \<or> k * Suc j \<le> k * i" using mult_le_mono2 by blast
  then show ?thesis by (simp add: algebra_simps)
qed

section \<open>Words\<close>

lemma unat_of_nat_u64 [simp]: "n < 2 ^ 64 \<Longrightarrow> unat (of_nat n :: u64) = n"
  by (simp add: unat_of_nat take_bit_nat_eq_self)

lemma of_nat_eq_u64:
  "m < 2 ^ 64 \<Longrightarrow> n < 2 ^ 64 \<Longrightarrow> (of_nat m :: u64) = of_nat n \<longleftrightarrow> m = n"
  by (metis unat_of_nat_u64)

lemma sint_small: "uint (s :: u64) < 2 ^ 63 \<Longrightarrow> sint s = uint s"
proof -
  assume "uint s < 2 ^ 63"
  moreover have "- (2 ^ 63) \<le> uint s" by (rule order_trans [OF _ uint_ge_0]) simp
  ultimately show ?thesis by (simp add: sint_uint signed_take_bit_int_eq_self)
qed

end
