(* ===== verification/Kmalloc.thy ===== *)
theory Kmalloc
  imports Prelude
begin

text \<open>
  \<open>csc369_kmalloc.c\<close>: the allocation wrapper that counts calls and bytes, refuses to
  hand out more than 2 GB over the run, and remembers the size of every block to detect a
  double free.  A pointer is its numeric value; NULL is \<open>None\<close>.  The hash table
  \<open>malloc_map\<close> is used through insertion and lookup only and is modelled by a finite map
  from pointers to stored sizes.  A map always has room: the assertion on the return code of
  \<open>kh_put\<close>, which fails when the table itself finds no memory, is in theory \<open>KmallocHash\<close>.  The C library's \<open>malloc\<close> is a parameter: \<open>libc k n\<close>
  is what its \<open>n\<close>-th call returns; its documented behaviour, used as a hypothesis
  \<open>libc_ok\<close>, is that a call that succeeds returns a block of its own.
\<close>

unbundle bit_operations_syntax

type_synonym addr = nat
type_synonym ptr = "addr option"

section \<open>State\<close>

record kmalloc =
  num_mallocs :: int
  num_frees :: int
  bytes_malloced :: int
  bytes_freed :: int
  malloc_map :: "addr \<rightharpoonup> u64"
  libc :: "nat \<Rightarrow> ptr"
  libc_calls :: nat

definition CSC369_KMALLOC_GB :: u64 where
  "CSC369_KMALLOC_GB = 1024 * 1024 * 1024"

definition CSC369_KMALLOC_MAX :: u64 where
  "CSC369_KMALLOC_MAX = 2 * CSC369_KMALLOC_GB"

definition FREED :: u64 where
  "FREED = 0x8000000000000000"

section \<open>Operations\<close>

text \<open>The \<open>n\<close>-th call of the C library's \<open>malloc\<close>.\<close>

definition libc_malloc :: "kmalloc \<Rightarrow> ptr \<times> kmalloc" where
  "libc_malloc k = (libc k (libc_calls k), k\<lparr>libc_calls := Suc (libc_calls k)\<rparr>)"

definition CSC369_malloc :: "u64 \<Rightarrow> kmalloc \<Rightarrow> ptr \<times> kmalloc" where
  "CSC369_malloc sz k =
     (if CSC369_KMALLOC_MAX \<le> sz then (None, k)
      else if CSC369_KMALLOC_MAX < of_int (bytes_malloced k) + sz then (None, k)
      else case libc_malloc k of
             (None, k) \<Rightarrow> (None, k)
           | (Some m, k) \<Rightarrow>
               (Some m, k\<lparr>num_mallocs := num_mallocs k + 1,
                          bytes_malloced := bytes_malloced k + sint sz,
                          malloc_map := (malloc_map k)(m \<mapsto> sz)\<rparr>))"

text \<open>
  Freeing an unknown pointer or freeing twice is passed on to \<open>free\<close>, which is undefined
  behaviour (the code expects it to abort): \<open>BadPointer\<close>.
\<close>

definition CSC369_free :: "ptr \<Rightarrow> kmalloc \<Rightarrow> kmalloc res" where
  "CSC369_free p k =
     (case p of
        None \<Rightarrow> Inr k
      | Some a \<Rightarrow>
          (case malloc_map k a of
             None \<Rightarrow> Inl BadPointer
           | Some sz \<Rightarrow>
               if sz AND FREED \<noteq> 0 then Inl BadPointer
               else
                 bindR (assertR (sz \<noteq> 0)) (\<lambda>_.
                 bindR (assertR (sz < 2 ^ 63 - 1)) (\<lambda>_.
                 bindR (assertR (0 < num_mallocs k - num_frees k)) (\<lambda>_.
                 bindR (assertR (sint sz \<le> bytes_malloced k - bytes_freed k)) (\<lambda>_.
                 Inr (k\<lparr>num_frees := num_frees k + 1,
                        bytes_freed := bytes_freed k + sint sz,
                        malloc_map := (malloc_map k)(a \<mapsto> (sz OR FREED))\<rparr>)))))))"

definition CSC369_MallocInit :: "(nat \<Rightarrow> ptr) \<Rightarrow> kmalloc" where
  "CSC369_MallocInit lib =
     \<lparr>num_mallocs = 0, num_frees = 0, bytes_malloced = 0, bytes_freed = 0,
      malloc_map = Map.empty, libc = lib, libc_calls = 0\<rparr>"

definition CSC369_MallocCurrentBytes :: "kmalloc \<Rightarrow> int res" where
  "CSC369_MallocCurrentBytes k =
     bindR (assertR (bytes_freed k \<le> bytes_malloced k)) (\<lambda>_.
     Inr (bytes_malloced k - bytes_freed k))"

definition CSC369_MallocCurrentCount :: "kmalloc \<Rightarrow> int res" where
  "CSC369_MallocCurrentCount k =
     bindR (assertR (num_frees k \<le> num_mallocs k)) (\<lambda>_.
     Inr (num_mallocs k - num_frees k))"

definition CSC369_MallocCount :: "kmalloc \<Rightarrow> int" where
  "CSC369_MallocCount k = num_mallocs k"

definition CSC369_MallocBytes :: "kmalloc \<Rightarrow> int" where
  "CSC369_MallocBytes k = bytes_malloced k"

definition CSC369_MallocIsLeakFree :: "int \<Rightarrow> int \<Rightarrow> kmalloc \<Rightarrow> bool res" where
  "CSC369_MallocIsLeakFree num_mallocs_tol num_bytes_tol k =
     bindR (CSC369_MallocCurrentBytes k) (\<lambda>b.
       if num_bytes_tol < b then Inr False
       else bindR (CSC369_MallocCurrentCount k) (\<lambda>c. Inr (\<not> num_mallocs_tol < c)))"

section \<open>Invariant and abstract view\<close>

text \<open>The documented behaviour of \<open>malloc\<close> when memory does not run out.\<close>

definition libc_ok :: "(nat \<Rightarrow> ptr) \<Rightarrow> bool" where
  "libc_ok lib \<longleftrightarrow> (\<forall>n. lib n \<noteq> None) \<and> inj lib"

text \<open>The blocks handed out so far.\<close>

definition handed_out :: "kmalloc \<Rightarrow> addr set" where
  "handed_out k = {a. \<exists>n < libc_calls k. libc k n = Some a}"

text \<open>
  The blocks in use with their sizes; the accounting invariant ties the counters to them.
\<close>

definition live :: "kmalloc \<Rightarrow> addr \<rightharpoonup> u64" where
  "live k a = (case malloc_map k a of
      None \<Rightarrow> None | Some s \<Rightarrow> if s AND FREED \<noteq> 0 then None else Some s)"

definition kmalloc_wf :: "kmalloc \<Rightarrow> bool" where
  "kmalloc_wf k \<longleftrightarrow> finite (dom (live k)) \<and>
     num_mallocs k - num_frees k = int (card (dom (live k))) \<and>
     bytes_malloced k - bytes_freed k = (\<Sum>a \<in> dom (live k). sint (the (live k a))) \<and>
     0 \<le> bytes_malloced k \<and> bytes_malloced k \<le> 2 ^ 31 \<and> 0 \<le> num_frees k \<and> 0 \<le> bytes_freed k \<and>
     (\<forall>a s. live k a = Some s \<longrightarrow> s < CSC369_KMALLOC_MAX)"

lemma KMALLOC_MAX_eq: "CSC369_KMALLOC_MAX = 2 ^ 31"
  by (simp add: CSC369_KMALLOC_MAX_def CSC369_KMALLOC_GB_def)

lemma handed_out_finite: "finite (handed_out k)"
proof -
  have "handed_out k \<subseteq> the ` libc k ` {..< libc_calls k}"
    by (force simp: handed_out_def image_iff)
  then show ?thesis by (rule finite_subset) simp
qed

text \<open>A call within the quota returns a new block and accounts for it.\<close>

lemma quota_ok:
  assumes "0 \<le> b" "b + uint s \<le> 2 ^ 31" "s < CSC369_KMALLOC_MAX"
  shows "\<not> CSC369_KMALLOC_MAX < of_int b + s"
proof -
  have "uint (of_int b + s :: u64) = (b + uint s) mod 2 ^ 64"
    by (simp add: uint_word_ariths uint_word_of_int mod_simps)
  also have "\<dots> = b + uint s" using assms(1,2) by (intro mod_pos_pos_trivial) auto
  finally show ?thesis using assms(2) by (simp add: KMALLOC_MAX_eq word_less_alt)
qed

lemma malloc_succeeds:
  assumes "libc_ok (libc k)" "0 \<le> bytes_malloced k"
    and "bytes_malloced k + uint s \<le> 2 ^ 31" "s < CSC369_KMALLOC_MAX"
  obtains a where "CSC369_malloc s k =
      (Some a, k\<lparr>num_mallocs := num_mallocs k + 1, bytes_malloced := bytes_malloced k + uint s,
                 malloc_map := (malloc_map k)(a \<mapsto> s), libc_calls := Suc (libc_calls k)\<rparr>)"
    and "libc k (libc_calls k) = Some a" and "a \<notin> handed_out k"
proof -
  obtain a where a: "libc k (libc_calls k) = Some a"
    using assms(1) by (auto simp: libc_ok_def)
  have "a \<notin> handed_out k"
    using assms(1) a by (auto simp: handed_out_def libc_ok_def dest: injD)
      (metis a inj_eq nat_less_le)
  moreover have "sint s = uint s"
    using assms(4) by (intro sint_small) (simp add: KMALLOC_MAX_eq word_less_alt)
  ultimately show thesis
    using that [of a] a assms(4) quota_ok [OF assms(2-4)]
    by (simp add: CSC369_malloc_def libc_malloc_def)
qed

section \<open>The accounting invariant\<close>

lemma small_not_freed: "s < CSC369_KMALLOC_MAX \<Longrightarrow> s AND FREED = 0"
proof -
  assume "s < CSC369_KMALLOC_MAX"
  then have "unat s < 2 ^ 63" by (simp add: KMALLOC_MAX_eq word_less_nat_alt)
  then have "unat s div 2 ^ 63 = 0" by (rule div_less)
  then have "\<not> bit (unat s) 63" by (simp add: bit_iff_odd)
  then have "\<not> bit s 63" by (simp add: bit_unsigned_iff)
  moreover have "FREED = 2 ^ 63" by (simp add: FREED_def)
  ultimately show ?thesis using and_exp_eq_0_iff_not_bit [of s 63] by (simp only: simp_thms)
qed

lemma freed_or: "(s OR FREED) AND FREED \<noteq> 0"
proof -
  have "FREED \<noteq> 0" by (simp add: FREED_def)
  moreover have "(s OR FREED) AND FREED = FREED" by (rule bit_eqI) (auto simp: bit_simps)
  ultimately show ?thesis by simp
qed

lemma sint_size: "s < CSC369_KMALLOC_MAX \<Longrightarrow> sint s = uint s \<and> 0 \<le> sint s \<and> s < 2 ^ 63 - 1"
proof -
  assume s: "s < CSC369_KMALLOC_MAX"
  then have "uint s < 2 ^ 31" by (simp add: KMALLOC_MAX_eq word_less_alt)
  moreover have "sint s = uint s" using calculation by (intro sint_small) simp
  ultimately show ?thesis by (simp add: word_less_alt)
qed

text \<open>
  The \<open>kmalloc_wf\<close> invariant: every call of \<open>CSC369_malloc\<close> keeps it, whatever the size and
  whether or not it succeeds, as long as the C library does not return a block in use.
\<close>

lemma malloc_wf:
  assumes wf: "kmalloc_wf k" and fresh: "\<And>a. libc k (libc_calls k) = Some a \<Longrightarrow> live k a = None"
  shows "kmalloc_wf (snd (CSC369_malloc s k))"
    "fst (CSC369_malloc s k) = Some a \<Longrightarrow> live (snd (CSC369_malloc s k)) = (live k)(a \<mapsto> s)"
    "fst (CSC369_malloc s k) = None \<Longrightarrow> live (snd (CSC369_malloc s k)) = live k"
proof -
  note w = wf [unfolded kmalloc_wf_def]
  have "kmalloc_wf (snd (CSC369_malloc s k)) \<and>
    (\<forall>a. fst (CSC369_malloc s k) = Some a \<longrightarrow> live (snd (CSC369_malloc s k)) = (live k)(a \<mapsto> s)) \<and>
    (fst (CSC369_malloc s k) = None \<longrightarrow> live (snd (CSC369_malloc s k)) = live k)"
  proof (cases "CSC369_KMALLOC_MAX \<le> s \<or> CSC369_KMALLOC_MAX < of_int (bytes_malloced k) + s")
    case True
    then show ?thesis using wf by (auto simp: CSC369_malloc_def)
  next
    case False
    then have s: "s < CSC369_KMALLOC_MAX" by (simp add: not_le)
    note ss = sint_size [OF s]
    have total: "bytes_malloced k + sint s \<le> 2 ^ 31"
    proof -
      have "uint (of_int (bytes_malloced k) + s :: u64) = (bytes_malloced k + uint s) mod 2 ^ 64"
        by (simp add: uint_word_ariths uint_word_of_int mod_simps)
      also have "\<dots> = bytes_malloced k + uint s"
        using w ss s by (intro mod_pos_pos_trivial) (auto simp: KMALLOC_MAX_eq word_less_alt)
      finally show ?thesis using False ss by (auto simp: KMALLOC_MAX_eq word_less_alt not_less)
    qed
    show ?thesis
    proof (cases "libc k (libc_calls k)")
      case None
      have "live (k\<lparr>libc_calls := Suc (libc_calls k)\<rparr>) = live k" by (simp add: live_def fun_eq_iff)
      then show ?thesis using False None wf by (simp add: CSC369_malloc_def libc_malloc_def kmalloc_wf_def)
    next
      case (Some a)
      let ?k = "k\<lparr>libc_calls := Suc (libc_calls k), num_mallocs := num_mallocs k + 1,
        bytes_malloced := bytes_malloced k + sint s, malloc_map := (malloc_map k)(a \<mapsto> s)\<rparr>"
      have m: "CSC369_malloc s k = (Some a, ?k)"
        using False Some by (simp add: CSC369_malloc_def libc_malloc_def)
      have l: "live ?k = (live k)(a \<mapsto> s)"
        using small_not_freed [OF s] by (auto simp: live_def fun_eq_iff)
      have na: "a \<notin> dom (live k)" using fresh [OF Some] by auto
      have sum: "(\<Sum>x \<in> dom (live k). sint (the (((live k)(a \<mapsto> s)) x))) = (\<Sum>x \<in> dom (live k). sint (the (live k x)))"
        using na by (intro sum.cong) auto
      have "kmalloc_wf ?k"
        unfolding kmalloc_wf_def l using w na s ss total sum by auto
      then show ?thesis using m l by simp
    qed
  qed
  then show "kmalloc_wf (snd (CSC369_malloc s k))"
    "fst (CSC369_malloc s k) = Some a \<Longrightarrow> live (snd (CSC369_malloc s k)) = (live k)(a \<mapsto> s)"
    "fst (CSC369_malloc s k) = None \<Longrightarrow> live (snd (CSC369_malloc s k)) = live k"
    by blast+
qed

text \<open>Freeing a block in use of a positive size succeeds and removes exactly that block.\<close>

lemma free_ok:
  assumes wf: "kmalloc_wf k" and a: "live k a = Some s" "s \<noteq> 0"
  obtains k' where "CSC369_free (Some a) k = Inr k'" "kmalloc_wf k'" "live k' = (live k)(a := None)"
    "libc k' = libc k" "libc_calls k' = libc_calls k" "bytes_malloced k' = bytes_malloced k"
proof -
  note w = wf [unfolded kmalloc_wf_def]
  have s: "s < CSC369_KMALLOC_MAX" using w a(1) by blast
  note ss = sint_size [OF s]
  have m: "malloc_map k a = Some s" "s AND FREED = 0"
    using a(1) by (auto simp: live_def split: option.splits if_splits)
  have fin: "finite (dom (live k))" and ad: "a \<in> dom (live k)" using w a(1) by auto
  have split: "(\<Sum>x \<in> dom (live k). sint (the (live k x))) = sint s + (\<Sum>x \<in> dom (live k) - {a}. sint (the (live k x)))"
    using sum.remove [OF fin ad, of "\<lambda>x. sint (the (live k x))"] a(1) by simp
  have "0 \<le> (\<Sum>x \<in> dom (live k) - {a}. sint (the (live k x)))"
    using w sint_size by (intro sum_nonneg) fastforce
  then have le: "sint s \<le> bytes_malloced k - bytes_freed k" using w split by linarith
  have c: "card (dom (live k)) = Suc (card (dom (live k) - {a}))" using card_Suc_Diff1 [OF fin ad] by simp
  then have pos: "0 < num_mallocs k - num_frees k" using w by linarith
  let ?k = "k\<lparr>num_frees := num_frees k + 1, bytes_freed := bytes_freed k + sint s,
    malloc_map := (malloc_map k)(a \<mapsto> (s OR FREED))\<rparr>"
  have f: "CSC369_free (Some a) k = Inr ?k"
    unfolding CSC369_free_def
    by (simp only: option.case m pos le a(2) ss [THEN conjunct2, THEN conjunct2] assertR_simps bindR_simps
        not_False_eq_True not_True_eq_False if_False refl)
  have l: "live ?k = (live k)(a := None)" using freed_or by (auto simp: live_def fun_eq_iff)
  have sum: "(\<Sum>x \<in> dom (live k) - {a}. sint (the (((live k)(a := None)) x))) =
      (\<Sum>x \<in> dom (live k) - {a}. sint (the (live k x)))"
    by (intro sum.cong) auto
  have "kmalloc_wf ?k"
    unfolding kmalloc_wf_def l using w c split sum ss by (auto simp: dom_minus)
  with f l show thesis using that by simp
qed

text \<open>A pointer that is not a block in use is refused by the C library.\<close>

lemma free_bad: "live k a = None \<Longrightarrow> CSC369_free (Some a) k = Inl BadPointer"
  by (auto simp: live_def CSC369_free_def split: option.splits if_splits)

text \<open>
  A block of size zero, which the C library hands out, cannot be freed: the check that the stored
  size is positive aborts.
\<close>

lemma free_empty_block: "live k a = Some 0 \<Longrightarrow> CSC369_free (Some a) k = Inl AssertFail"
  by (auto simp: live_def CSC369_free_def split: option.splits if_splits)

lemma leak_free_iff:
  assumes wf: "kmalloc_wf k"
  shows "CSC369_MallocIsLeakFree 0 0 k = Inr (live k = Map.empty)"
proof -
  note w = wf [unfolded kmalloc_wf_def]
  have nn: "0 \<le> sint (the (live k a))" if "a \<in> dom (live k)" for a
    using w sint_size that by fastforce
  then have sum: "0 \<le> (\<Sum>a \<in> dom (live k). sint (the (live k a)))" by (rule sum_nonneg)
  have "(live k = Map.empty) \<longleftrightarrow> card (dom (live k)) = 0" using w by (simp add: card_eq_0_iff)
  moreover have "CSC369_MallocCurrentBytes k = Inr (\<Sum>a \<in> dom (live k). sint (the (live k a)))"
    using w sum by (simp add: CSC369_MallocCurrentBytes_def)
  moreover have "CSC369_MallocCurrentCount k = Inr (int (card (dom (live k))))"
    using w by (simp add: CSC369_MallocCurrentCount_def)
  ultimately show ?thesis using sum w by (auto simp: CSC369_MallocIsLeakFree_def)
qed

section \<open>Properties\<close>

text \<open>
  C30: an allocation of any size keeps the accounts: on success exactly the new block is added
  with its size, on failure nothing changes, and the total stays within two gigabytes.
\<close>

theorem malloc_keeps_accounts:
  assumes "kmalloc_wf k" and "\<forall>a. libc k (libc_calls k) = Some a \<longrightarrow> live k a = None"
  shows "case CSC369_malloc s k of (p, k') \<Rightarrow> kmalloc_wf k' \<and> bytes_malloced k' \<le> 2 ^ 31 \<and>
    live k' = (case p of None \<Rightarrow> live k | Some a \<Rightarrow> (live k)(a \<mapsto> s))"
proof -
  have fresh: "\<And>a. libc k (libc_calls k) = Some a \<Longrightarrow> live k a = None" using assms(2) by blast
  note m = malloc_wf [OF assms(1) fresh, of s]
  obtain p k' where r: "CSC369_malloc s k = (p, k')" by (cases "CSC369_malloc s k")
  have wf: "kmalloc_wf k'" using m(1) r by simp
  then have "bytes_malloced k' \<le> 2 ^ 31" unfolding kmalloc_wf_def by blast
  with m(2,3) r wf show ?thesis by (cases p) auto
qed

definition first_block :: kmalloc where
  "first_block = (CSC369_MallocInit (\<lambda>n. Some n))\<lparr>num_mallocs := 1, bytes_malloced := 32,
     malloc_map := [0 \<mapsto> 32], libc_calls := 1\<rparr>"

lemma first_block_live: "live first_block = [0 \<mapsto> 32]"
  by (auto simp: live_def first_block_def CSC369_MallocInit_def FREED_def fun_eq_iff)

lemma first_block_wf: "kmalloc_wf first_block"
  unfolding kmalloc_wf_def first_block_live
  by (simp add: first_block_def CSC369_MallocInit_def KMALLOC_MAX_eq)

theorem malloc_keeps_accounts_witness:
  "case CSC369_malloc 100 first_block of (p, k') \<Rightarrow> kmalloc_wf k' \<and> bytes_malloced k' \<le> 2 ^ 31 \<and>
     live k' = (case p of None \<Rightarrow> live first_block | Some a \<Rightarrow> (live first_block)(a \<mapsto> 100))"
proof (rule malloc_keeps_accounts [OF first_block_wf])
  show "\<forall>a. libc first_block (libc_calls first_block) = Some a \<longrightarrow> live first_block a = None"
    unfolding first_block_live by (simp add: first_block_def CSC369_MallocInit_def)
qed

text \<open>
  C31: freeing a block in use removes exactly that block and keeps the accounts; a second free of
  it is refused.
\<close>

theorem free_once:
  assumes "kmalloc_wf k" "live k a = Some s" "s \<noteq> 0"
  shows "\<exists>k'. CSC369_free (Some a) k = Inr k' \<and> kmalloc_wf k' \<and> live k' = (live k)(a := None) \<and>
    CSC369_free (Some a) k' = Inl BadPointer"
proof -
  obtain k' where k': "CSC369_free (Some a) k = Inr k'" "kmalloc_wf k'" "live k' = (live k)(a := None)"
    using free_ok [OF assms] by blast
  then have "CSC369_free (Some a) k' = Inl BadPointer" by (intro free_bad) simp
  with k' show ?thesis by blast
qed

theorem free_once_witness:
  "\<exists>k'. CSC369_free (Some 0) first_block = Inr k' \<and> kmalloc_wf k' \<and> live k' = Map.empty"
proof -
  have "([0 \<mapsto> 32])(0 := None) = (Map.empty :: addr \<rightharpoonup> u64)" by auto
  then show ?thesis using free_once [OF first_block_wf, of 0 32] unfolding first_block_live by auto
qed

text \<open>
  With zero tolerance the leak check answers true exactly when every block handed out was
  freed.
\<close>

lemma leak_check_exact:
  "kmalloc_wf k \<Longrightarrow> CSC369_MallocIsLeakFree 0 0 k = Inr (live k = Map.empty)"
  by (rule leak_free_iff)

lemma leak_check_exact_sample: "CSC369_MallocIsLeakFree 0 0 first_block = Inr False"
proof -
  have "live first_block 0 \<noteq> None" by (simp add: first_block_live)
  then have "live first_block \<noteq> Map.empty" by auto
  then show ?thesis using leak_check_exact [OF first_block_wf] by simp
qed

text \<open>
  The quota counts all bytes ever requested: a request that would exceed two gigabytes in
  total is refused even after everything was freed.
\<close>

lemma malloc_quota_cumulative:
  assumes "0 \<le> bytes_malloced k" "bytes_malloced k \<le> 2 ^ 31" "2 ^ 31 < bytes_malloced k + uint s"
  shows "CSC369_malloc s k = (None, k)"
proof (cases "CSC369_KMALLOC_MAX \<le> s")
  case True
  then show ?thesis by (simp add: CSC369_malloc_def)
next
  case False
  then have "uint s < 2 ^ 31" by (simp add: KMALLOC_MAX_eq word_less_alt not_le)
  have "uint (of_int (bytes_malloced k) + s :: u64) = (bytes_malloced k + uint s) mod 2 ^ 64"
    by (simp add: uint_word_ariths uint_word_of_int mod_simps)
  also have "\<dots> = bytes_malloced k + uint s"
    using assms \<open>uint s < 2 ^ 31\<close> by (intro mod_pos_pos_trivial) auto
  finally have "CSC369_KMALLOC_MAX < of_int (bytes_malloced k) + s"
    using assms(3) by (simp add: KMALLOC_MAX_eq word_less_alt)
  then show ?thesis by (simp add: CSC369_malloc_def)
qed

lemma malloc_quota_cumulative_sample:
  "CSC369_malloc 1 ((CSC369_MallocInit (\<lambda>n. Some n))\<lparr>bytes_malloced := 2 ^ 31, bytes_freed := 2 ^ 31\<rparr>) =
     (None, (CSC369_MallocInit (\<lambda>n. Some n))\<lparr>bytes_malloced := 2 ^ 31, bytes_freed := 2 ^ 31\<rparr>)"
  by (rule malloc_quota_cumulative) (simp_all add: CSC369_MallocInit_def)

end
