(* ===== verification/Khash.thy ===== *)
theory Khash
  imports Prelude
begin

text \<open>
  \<open>khash.h\<close>: the hash table with open addressing and quadratic probing that the tracking
  allocator instantiates as a map from 64-bit keys.  Two bits per bucket, packed sixteen to a
  word in \<open>flags\<close>, say that the bucket is empty or deleted.  An array is a list; an
  array that was never allocated is the empty list, and a cell that was allocated but never
  written is \<open>None\<close>: reading it is a fault.  The type of the keys, that of the values and the
  hash function are parameters, as in the macro.
\<close>

unbundle bit_operations_syntax

section \<open>State\<close>

record ('k, 'v) khash =
  n_buckets :: u32
  kh_size :: u32
  n_occupied :: u32
  upper_bound :: u32
  flags :: "u32 list"
  keys :: "'k option list"
  vals :: "'v option list"

section \<open>Flags\<close>

definition flag_word :: "u32 \<Rightarrow> nat" where
  "flag_word i = unat (drop_bit 4 i)"

definition flag_shift :: "u32 \<Rightarrow> nat" where
  "flag_shift i = unat (push_bit 1 (i AND 0xf))"

definition ac_flag :: "u32 list \<Rightarrow> u32 \<Rightarrow> u32 res" where
  "ac_flag flag i =
     (if flag_word i < length flag
      then Inr (drop_bit (flag_shift i) (flag ! flag_word i))
      else Inl OutOfBounds)"

definition ac_isempty :: "u32 list \<Rightarrow> u32 \<Rightarrow> bool res" where
  "ac_isempty flag i = bindR (ac_flag flag i) (\<lambda>f. Inr (f AND 2 \<noteq> 0))"

definition ac_isdel :: "u32 list \<Rightarrow> u32 \<Rightarrow> bool res" where
  "ac_isdel flag i = bindR (ac_flag flag i) (\<lambda>f. Inr (f AND 1 \<noteq> 0))"

definition ac_iseither :: "u32 list \<Rightarrow> u32 \<Rightarrow> bool res" where
  "ac_iseither flag i = bindR (ac_flag flag i) (\<lambda>f. Inr (f AND 3 \<noteq> 0))"

definition ac_change :: "(u32 \<Rightarrow> u32) \<Rightarrow> u32 list \<Rightarrow> u32 \<Rightarrow> u32 list res" where
  "ac_change f flag i =
     (if flag_word i < length flag
      then Inr (flag[flag_word i := f (flag ! flag_word i)])
      else Inl OutOfBounds)"

definition ac_set_isdel_false :: "u32 list \<Rightarrow> u32 \<Rightarrow> u32 list res" where
  "ac_set_isdel_false flag i =
     ac_change (\<lambda>f. f AND NOT (push_bit (flag_shift i) 1)) flag i"

definition ac_set_isempty_false :: "u32 list \<Rightarrow> u32 \<Rightarrow> u32 list res" where
  "ac_set_isempty_false flag i =
     ac_change (\<lambda>f. f AND NOT (push_bit (flag_shift i) 2)) flag i"

definition ac_set_isboth_false :: "u32 list \<Rightarrow> u32 \<Rightarrow> u32 list res" where
  "ac_set_isboth_false flag i =
     ac_change (\<lambda>f. f AND NOT (push_bit (flag_shift i) 3)) flag i"

definition ac_set_isdel_true :: "u32 list \<Rightarrow> u32 \<Rightarrow> u32 list res" where
  "ac_set_isdel_true flag i =
     ac_change (\<lambda>f. f OR push_bit (flag_shift i) 1) flag i"

definition ac_fsize :: "u32 \<Rightarrow> u32" where
  "ac_fsize m = (if m < 16 then 1 else drop_bit 4 m)"

text \<open>\<open>memset(flags, 0xaa, ac_fsize(n) * sizeof(khint32_t))\<close>\<close>

definition empty_flags :: "u32 \<Rightarrow> u32 list" where
  "empty_flags n = replicate (unat (ac_fsize n)) 0xaaaaaaaa"

section \<open>Arrays of keys and values\<close>

definition cell :: "'a option list \<Rightarrow> u32 \<Rightarrow> 'a res" where
  "cell xs i =
     (if unat i < length xs then (case xs ! unat i of None \<Rightarrow> Inl Uninitialized | Some x \<Rightarrow> Inr x)
      else Inl OutOfBounds)"

text \<open>A value is only copied by the table, so the copy of a cell never written is no fault.\<close>

definition copy_cell :: "'a option list \<Rightarrow> u32 \<Rightarrow> 'a option res" where
  "copy_cell xs i = (if unat i < length xs then Inr (xs ! unat i) else Inl OutOfBounds)"

definition set_cell :: "'a option list \<Rightarrow> u32 \<Rightarrow> 'a option \<Rightarrow> 'a option list res" where
  "set_cell xs i x = (if unat i < length xs then Inr (xs[unat i := x]) else Inl OutOfBounds)"

text \<open>A successful \<open>realloc\<close>: the cells that both sizes have keep their contents.\<close>

definition krealloc :: "'a option list \<Rightarrow> u32 \<Rightarrow> 'a option list" where
  "krealloc xs n = take (unat n) xs @ replicate (unat n - length xs) None"

section \<open>Sizes\<close>

definition kroundup32 :: "u32 \<Rightarrow> u32" where
  "kroundup32 x =
     (let x = x - 1;
          x = x OR drop_bit 1 x;
          x = x OR drop_bit 2 x;
          x = x OR drop_bit 4 x;
          x = x OR drop_bit 8 x;
          x = x OR drop_bit 16 x
      in x + 1)"

text \<open>
  \<open>(khint_t)(n * __ac_HASH_UPPER + 0.5)\<close> for the capacities the table can have, the powers of
  two: the product of a power of two and the double nearest to 0.77 is exact, and the rounded
  sum is far enough from an integer to be cut to the same number as the rational one.
\<close>

definition ac_hash_upper :: "u32 \<Rightarrow> u32" where
  "ac_hash_upper n = of_nat ((unat n * 77 + 50) div 100)"

section \<open>Creation, destruction and clearing\<close>

text \<open>\<open>calloc\<close> succeeds.\<close>

definition kh_init :: "('k, 'v) khash" where
  "kh_init = \<lparr>n_buckets = 0, kh_size = 0, n_occupied = 0, upper_bound = 0, flags = [], keys = [], vals = []\<rparr>"

definition kh_clear :: "('k, 'v) khash \<Rightarrow> ('k, 'v) khash" where
  "kh_clear h =
     (if flags h \<noteq> []
      then h\<lparr>flags := empty_flags (n_buckets h), kh_size := 0, n_occupied := 0\<rparr>
      else h)"

section \<open>Search\<close>

text \<open>The condition of the probing loops of \<open>kh_get\<close> and \<open>kh_put\<close>.\<close>

definition probe_on :: "('k, 'v) khash \<Rightarrow> 'k \<Rightarrow> u32 \<Rightarrow> bool res" where
  "probe_on h key i =
     bindR (ac_isempty (flags h) i) (\<lambda>e.
     if e then Inr False
     else bindR (ac_isdel (flags h) i) (\<lambda>d.
          if d then Inr True else bindR (cell (keys h) i) (\<lambda>k. Inr (k \<noteq> key))))"

text \<open>The loop of \<open>kh_get\<close>; \<open>None\<close> inside is the return of \<open>n_buckets\<close> from the loop.\<close>

partial_function (option) kh_get_loop ::
  "('k, 'v) khash \<Rightarrow> 'k \<Rightarrow> u32 \<Rightarrow> u32 \<Rightarrow> u32 \<Rightarrow> u32 \<Rightarrow> u32 option res option" where
  "kh_get_loop h key msk start i step =
     (case probe_on h key i of
        Inl e \<Rightarrow> Some (Inl e)
      | Inr on \<Rightarrow>
          if on then
            (let step = step + 1; i = (i + step) AND msk
             in if i = start then Some (Inr None) else kh_get_loop h key msk start i step)
          else Some (Inr (Some i)))"

definition run_loop :: "'a res option \<Rightarrow> 'a res" where
  "run_loop r = (case r of None \<Rightarrow> Inl Diverges | Some r \<Rightarrow> r)"

definition kh_get :: "('k \<Rightarrow> u32) \<Rightarrow> ('k, 'v) khash \<Rightarrow> 'k \<Rightarrow> u32 res" where
  "kh_get hash h key =
     (if n_buckets h \<noteq> 0 then
        let msk = n_buckets h - 1; k = hash key; i = k AND msk in
        bindR (run_loop (kh_get_loop h key msk i i 0)) (\<lambda>r.
        case r of
          None \<Rightarrow> Inr (n_buckets h)
        | Some i \<Rightarrow> bindR (ac_iseither (flags h) i) (\<lambda>e. Inr (if e then n_buckets h else i)))
      else Inr 0)"

section \<open>Resizing\<close>

text \<open>The calls of the C library in \<open>kh_resize\<close>; an argument says which of them succeed.\<close>

datatype kh_alloc = Flags_Malloc | Keys_Grow | Vals_Grow | Keys_Shrink | Vals_Shrink

partial_function (option) rehash_probe :: "u32 list \<Rightarrow> u32 \<Rightarrow> u32 \<Rightarrow> u32 \<Rightarrow> u32 res option" where
  "rehash_probe new_flags new_mask i step =
     (case ac_isempty new_flags i of
        Inl e \<Rightarrow> Some (Inl e)
      | Inr e \<Rightarrow>
          if \<not> e then rehash_probe new_flags new_mask ((i + (step + 1)) AND new_mask) (step + 1)
          else Some (Inr i))"

text \<open>
  One turn of the kick-out loop: the key goes to the first bucket that is empty in the new
  table.  \<open>Inr\<close> inside: an element of the old table was there, it is the next one in hand.
\<close>

definition kick_step ::
  "('k \<Rightarrow> u32) \<Rightarrow> u32 \<Rightarrow> 'k \<Rightarrow> 'v option \<Rightarrow> u32 list \<Rightarrow> ('k, 'v) khash \<Rightarrow>
     ((u32 list \<times> ('k, 'v) khash) + ('k \<times> 'v option \<times> u32 list \<times> ('k, 'v) khash)) res" where
  "kick_step hash new_mask key val new_flags h =
     bindR (run_loop (rehash_probe new_flags new_mask (hash key AND new_mask) 0)) (\<lambda>i.
     bindR (ac_set_isempty_false new_flags i) (\<lambda>new_flags.
     bindR (if i < n_buckets h then bindR (ac_iseither (flags h) i) (\<lambda>e. Inr (\<not> e)) else Inr False) (\<lambda>kick.
     if kick then
       bindR (cell (keys h) i) (\<lambda>tmp_key.
       bindR (set_cell (keys h) i (Some key)) (\<lambda>ks.
       bindR (copy_cell (vals h) i) (\<lambda>tmp_val.
       bindR (set_cell (vals h) i val) (\<lambda>vs.
       bindR (ac_set_isdel_true (flags h) i) (\<lambda>fl.
       Inr (Inr (tmp_key, tmp_val, new_flags, h\<lparr>flags := fl, keys := ks, vals := vs\<rparr>)))))))
     else
       bindR (set_cell (keys h) i (Some key)) (\<lambda>ks.
       bindR (set_cell (vals h) i val) (\<lambda>vs.
       Inr (Inl (new_flags, h\<lparr>keys := ks, vals := vs\<rparr>)))))))"

partial_function (option) kick_loop ::
  "('k \<Rightarrow> u32) \<Rightarrow> u32 \<Rightarrow> 'k \<Rightarrow> 'v option \<Rightarrow> u32 list \<Rightarrow> ('k, 'v) khash \<Rightarrow>
     (u32 list \<times> ('k, 'v) khash) res option" where
  "kick_loop hash new_mask key val new_flags h =
     (case kick_step hash new_mask key val new_flags h of
        Inl e \<Rightarrow> Some (Inl e)
      | Inr r \<Rightarrow>
          (case r of
             Inl s \<Rightarrow> Some (Inr s)
           | Inr n \<Rightarrow> (case n of (key, val, new_flags, h) \<Rightarrow> kick_loop hash new_mask key val new_flags h)))"

text \<open>The body of the rehashing loop and the loop over the buckets of the old table.\<close>

definition rehash_bucket ::
  "('k \<Rightarrow> u32) \<Rightarrow> u32 \<Rightarrow> u32 \<Rightarrow> u32 list \<times> ('k, 'v) khash \<Rightarrow> (u32 list \<times> ('k, 'v) khash) res" where
  "rehash_bucket hash new_n_buckets j = (\<lambda>(new_flags, h).
     bindR (ac_iseither (flags h) j) (\<lambda>e.
     if e then Inr (new_flags, h)
     else
       bindR (cell (keys h) j) (\<lambda>key.
       bindR (copy_cell (vals h) j) (\<lambda>val.
       bindR (ac_set_isdel_true (flags h) j) (\<lambda>fl.
       run_loop (kick_loop hash (new_n_buckets - 1) key val new_flags (h\<lparr>flags := fl\<rparr>)))))))"

function rehash_from ::
  "('k \<Rightarrow> u32) \<Rightarrow> u32 \<Rightarrow> nat \<Rightarrow> nat \<Rightarrow> u32 list \<times> ('k, 'v) khash \<Rightarrow> (u32 list \<times> ('k, 'v) khash) res" where
  "rehash_from hash new_n_buckets n j s =
     (if j < n then bindR (rehash_bucket hash new_n_buckets (of_nat j) s) (rehash_from hash new_n_buckets n (Suc j))
      else Inr s)"
  by pat_completeness auto
termination by (relation "measure (\<lambda>(hash, new_n_buckets, n, j, s). n - j)") auto

declare rehash_from.simps [simp del]

text \<open>
  The last part of \<open>kh_resize\<close>.  A failure to shrink an array is not checked: the pointer is
  NULL then.
\<close>

definition kh_rehash ::
  "('k \<Rightarrow> u32) \<Rightarrow> (kh_alloc \<Rightarrow> bool) \<Rightarrow> u32 list \<Rightarrow> u32 \<Rightarrow> ('k, 'v) khash \<Rightarrow> ('k, 'v) khash res" where
  "kh_rehash hash ok new_flags new_n_buckets h =
     bindR (rehash_from hash new_n_buckets (unat (n_buckets h)) 0 (new_flags, h)) (\<lambda>(new_flags, h).
     let h = (if new_n_buckets < n_buckets h
              then h\<lparr>keys := (if ok Keys_Shrink then krealloc (keys h) new_n_buckets else []),
                     vals := (if ok Vals_Shrink then krealloc (vals h) new_n_buckets else [])\<rparr>
              else h)
     in Inr (h\<lparr>flags := new_flags, n_buckets := new_n_buckets, n_occupied := kh_size h,
               upper_bound := ac_hash_upper new_n_buckets\<rparr>))"

text \<open>The flag is the return value: \<open>False\<close> for \<open>-1\<close>.\<close>

definition kh_resize ::
  "('k \<Rightarrow> u32) \<Rightarrow> (kh_alloc \<Rightarrow> bool) \<Rightarrow> ('k, 'v) khash \<Rightarrow> u32 \<Rightarrow> (bool \<times> ('k, 'v) khash) res" where
  "kh_resize hash ok h new_n_buckets =
     (let new_n_buckets = kroundup32 new_n_buckets;
          new_n_buckets = (if new_n_buckets < 4 then 4 else new_n_buckets)
      in if ac_hash_upper new_n_buckets \<le> kh_size h then Inr (True, h)
         else if \<not> ok Flags_Malloc then Inr (False, h)
         else
           let new_flags = empty_flags new_n_buckets in
           if n_buckets h < new_n_buckets then
             if \<not> ok Keys_Grow then Inr (False, h)
             else
               let h = h\<lparr>keys := krealloc (keys h) new_n_buckets\<rparr> in
               if \<not> ok Vals_Grow then Inr (False, h)
               else
                 bindR (kh_rehash hash ok new_flags new_n_buckets
                   (h\<lparr>vals := krealloc (vals h) new_n_buckets\<rparr>)) (\<lambda>h. Inr (True, h))
           else bindR (kh_rehash hash ok new_flags new_n_buckets h) (\<lambda>h. Inr (True, h)))"

section \<open>Insertion and deletion\<close>

text \<open>
  The loop of \<open>kh_put\<close>: the bucket it stops at, the last deleted bucket it passed (or
  \<open>n_buckets\<close>), and whether it came back to the first one.
\<close>

partial_function (option) kh_put_loop ::
  "('k, 'v) khash \<Rightarrow> 'k \<Rightarrow> u32 \<Rightarrow> u32 \<Rightarrow> u32 \<Rightarrow> u32 \<Rightarrow> u32 \<Rightarrow> (u32 \<times> u32 \<times> bool) res option" where
  "kh_put_loop h key msk start site i step =
     (case probe_on h key i of
        Inl e \<Rightarrow> Some (Inl e)
      | Inr on \<Rightarrow>
          if on then
            (case ac_isdel (flags h) i of
               Inl e \<Rightarrow> Some (Inl e)
             | Inr d \<Rightarrow>
                 (let site = (if d then i else site); step = step + 1; i = (i + step) AND msk
                  in if i = start then Some (Inr (i, site, True))
                     else kh_put_loop h key msk start site i step))
          else Some (Inr (i, site, False)))"

definition kh_put_bucket :: "('k \<Rightarrow> u32) \<Rightarrow> ('k, 'v) khash \<Rightarrow> 'k \<Rightarrow> u32 res" where
  "kh_put_bucket hash h key =
     (let msk = n_buckets h - 1; site = n_buckets h; k = hash key; i = k AND msk in
      bindR (ac_isempty (flags h) i) (\<lambda>e.
      if e then Inr i
      else
        bindR (run_loop (kh_put_loop h key msk i site i 0)) (\<lambda>(i, site, back).
        let x = (if back then site else n_buckets h) in
        if x = n_buckets h then
          bindR (ac_isempty (flags h) i) (\<lambda>e. Inr (if e \<and> site \<noteq> n_buckets h then site else i))
        else Inr x)))"

text \<open>
  \<open>kh_put\<close> returns the bucket and stores the return code in \<open>ret\<close>; \<open>kh_put_here\<close> is the part
  after the test whether the table must grow.
\<close>

definition kh_put_here :: "('k \<Rightarrow> u32) \<Rightarrow> ('k, 'v) khash \<Rightarrow> 'k \<Rightarrow> (u32 \<times> int \<times> ('k, 'v) khash) res" where
  "kh_put_here hash h key =
     bindR (kh_put_bucket hash h key) (\<lambda>x.
     bindR (ac_isempty (flags h) x) (\<lambda>e.
     bindR (ac_isdel (flags h) x) (\<lambda>d.
     if e then
       bindR (set_cell (keys h) x (Some key)) (\<lambda>ks.
       bindR (ac_set_isboth_false (flags h) x) (\<lambda>fl.
       Inr (x, 1, h\<lparr>keys := ks, flags := fl, kh_size := kh_size h + 1, n_occupied := n_occupied h + 1\<rparr>)))
     else if d then
       bindR (set_cell (keys h) x (Some key)) (\<lambda>ks.
       bindR (ac_set_isboth_false (flags h) x) (\<lambda>fl.
       Inr (x, 2, h\<lparr>keys := ks, flags := fl, kh_size := kh_size h + 1\<rparr>)))
     else Inr (x, 0, h))))"

definition kh_put ::
  "('k \<Rightarrow> u32) \<Rightarrow> (kh_alloc \<Rightarrow> bool) \<Rightarrow> ('k, 'v) khash \<Rightarrow> 'k \<Rightarrow> (u32 \<times> int \<times> ('k, 'v) khash) res" where
  "kh_put hash ok h key =
     bindR (if upper_bound h \<le> n_occupied h then
              if push_bit 1 (kh_size h) < n_buckets h then kh_resize hash ok h (n_buckets h - 1)
              else kh_resize hash ok h (n_buckets h + 1)
            else Inr (True, h)) (\<lambda>(done, h).
     if \<not> done then Inr (n_buckets h, -1, h) else kh_put_here hash h key)"

definition kh_del :: "('k, 'v) khash \<Rightarrow> u32 \<Rightarrow> ('k, 'v) khash res" where
  "kh_del h x =
     (if x \<noteq> n_buckets h then
        bindR (ac_iseither (flags h) x) (\<lambda>e.
        if \<not> e then bindR (ac_set_isdel_true (flags h) x) (\<lambda>fl. Inr (h\<lparr>flags := fl, kh_size := kh_size h - 1\<rparr>))
        else Inr h)
      else Inr h)"

text \<open>The reading and the assignment of \<open>kh_value(h, x)\<close>; \<open>kh_end(h)\<close>.\<close>

definition kh_value :: "('k, 'v) khash \<Rightarrow> u32 \<Rightarrow> 'v res" where
  "kh_value h x = cell (vals h) x"

definition kh_set_value :: "('k, 'v) khash \<Rightarrow> u32 \<Rightarrow> 'v \<Rightarrow> ('k, 'v) khash res" where
  "kh_set_value h x v = bindR (set_cell (vals h) x (Some v)) (\<lambda>vs. Inr (h\<lparr>vals := vs\<rparr>))"

definition kh_end :: "('k, 'v) khash \<Rightarrow> u32" where
  "kh_end h = n_buckets h"

section \<open>Hash functions\<close>

definition kh_int_hash_func :: "u32 \<Rightarrow> u32" where
  "kh_int_hash_func key = key"

definition kh_int64_hash_func :: "u64 \<Rightarrow> u32" where
  "kh_int64_hash_func key = ucast ((drop_bit 33 key XOR key) XOR push_bit 11 key)"

end
