(* ===== verification/KhashInv.thy ===== *)
theory KhashInv
  imports Khash
begin

text \<open>
  The invariant of the hash table and what its probing loops find.
\<close>

section \<open>The flags of a bucket\<close>

definition is_empty_at :: "u32 list \<Rightarrow> nat \<Rightarrow> bool" where
  "is_empty_at fl i \<longleftrightarrow> bit (fl ! (i div 16)) (2 * (i mod 16) + 1)"

definition is_del_at :: "u32 list \<Rightarrow> nat \<Rightarrow> bool" where
  "is_del_at fl i \<longleftrightarrow> bit (fl ! (i div 16)) (2 * (i mod 16))"

lemma flag_word_eq: "flag_word i = unat i div 16"
  unfolding flag_word_def drop_bit_eq_div by (simp add: unat_div)

lemma flag_shift_eq: "flag_shift i = 2 * (unat i mod 16)"
proof -
  have "(i AND 15) = take_bit 4 i" using take_bit_eq_mask [of 4 i] by (simp add: mask_eq_exp_minus_1)
  then have e: "unat (i AND 15) = unat i mod 16"
    by (simp only: unsigned_take_bit_eq) (simp add: take_bit_eq_mod)
  have "unat (push_bit 1 (i AND 15)) = unat ((i AND 15) * 2)" by (simp only: push_bit_eq_mult power_one_right)
  also have "\<dots> = unat (i AND 15) * 2 mod 2 ^ 32" by (simp only: unat_word_ariths len_of_numeral_defs) simp
  also have "\<dots> = unat (i AND 15) * 2" by (rule mod_less) (simp add: e)
  finally show ?thesis unfolding flag_shift_def e by simp
qed

lemmas flag_index = flag_word_eq flag_shift_eq

lemma and_two: "(w :: u32) AND 2 \<noteq> 0 \<longleftrightarrow> bit w 1"
  using and_exp_eq_0_iff_not_bit [of w 1] by simp

lemma and_one: "(w :: u32) AND 1 \<noteq> 0 \<longleftrightarrow> bit w 0"
  using and_exp_eq_0_iff_not_bit [of w 0] by simp

lemma bit_three: "bit (3 :: u32) n \<longleftrightarrow> n = 0 \<or> n = 1"
proof -
  have "bit (3 :: u32) n = bit (mask 2 :: u32) n" by (simp add: mask_eq_exp_minus_1)
  also have "\<dots> \<longleftrightarrow> n < 2" by (simp only: bit_mask_iff) auto
  finally show ?thesis by auto
qed

lemma bit_two: "bit (2 :: u32) n \<longleftrightarrow> n = 1"
  using bit_exp_iff [of 1 n, where 'a = u32] by auto

lemma and_three: "(w :: u32) AND 3 \<noteq> 0 \<longleftrightarrow> bit w 0 \<or> bit w 1"
proof -
  have "w AND 3 = 0 \<longleftrightarrow> (\<forall>n < 32. \<not> (bit w n \<and> (n = 0 \<or> n = 1)))"
    unfolding bit_eq_iff bit_and_iff bit_three possible_bit_word by simp
  also have "\<dots> \<longleftrightarrow> \<not> (bit w 0 \<or> bit w 1)" by (auto dest: spec [of _ 0] spec [of _ 1] intro: gr0I)
  finally show ?thesis by blast
qed

lemma ac_reads:
  assumes "unat i < 16 * length fl"
  shows "ac_isempty fl i = Inr (is_empty_at fl (unat i))" "ac_isdel fl i = Inr (is_del_at fl (unat i))"
    "ac_iseither fl i = Inr (is_empty_at fl (unat i) \<or> is_del_at fl (unat i))"
proof -
  have "unat i div 16 < length fl" using assms by (simp add: less_mult_imp_div_less mult.commute)
  then have f: "ac_flag fl i = Inr (drop_bit (2 * (unat i mod 16)) (fl ! (unat i div 16)))"
    by (simp add: ac_flag_def flag_index)
  show "ac_isempty fl i = Inr (is_empty_at fl (unat i))"
    by (simp add: ac_isempty_def f and_two is_empty_at_def bit_drop_bit_eq add.commute)
  show "ac_isdel fl i = Inr (is_del_at fl (unat i))"
    by (simp add: ac_isdel_def f and_one [simplified] is_del_at_def bit_drop_bit_eq)
  show "ac_iseither fl i = Inr (is_empty_at fl (unat i) \<or> is_del_at fl (unat i))"
    by (simp add: ac_iseither_def f and_three is_empty_at_def is_del_at_def bit_drop_bit_eq add.commute disj_commute)
qed

text \<open>What a change of one word does to the flags.\<close>

lemma ac_change_at:
  assumes "unat i < 16 * length fl"
  obtains fl' where "ac_change f fl i = Inr fl'" "length fl' = length fl"
    "\<forall>j. fl' ! (j div 16) = (if j div 16 = unat i div 16 then f (fl ! (j div 16)) else fl ! (j div 16))"
proof -
  have "unat i div 16 < length fl" using assms by (simp add: less_mult_imp_div_less mult.commute)
  then show thesis
    using that [of "fl[unat i div 16 := f (fl ! (unat i div 16))]"]
    by (simp add: ac_change_def flag_index nth_list_update)
qed

lemma same_bucket: "j = i \<longleftrightarrow> j div 16 = i div 16 \<and> j mod 16 = (i mod 16 :: nat)"
  by (metis div_mult_mod_eq)

text \<open>The two bits of a bucket after the mask of a bucket was cleared or set in its word.\<close>

lemma bit_cleared:
  "n < 32 \<Longrightarrow> bit (w AND NOT (push_bit m c) :: u32) n \<longleftrightarrow> bit w n \<and> \<not> (m \<le> n \<and> bit c (n - m))"
  by (simp only: bit_and_iff bit_not_iff bit_push_bit_iff possible_bit_word) auto

lemma bit_set:
  "n < 32 \<Longrightarrow> bit (w OR push_bit m c :: u32) n \<longleftrightarrow> bit w n \<or> m \<le> n \<and> bit c (n - m)"
  by (simp only: bit_or_iff bit_push_bit_iff possible_bit_word) auto

lemma bucket_bits:
  fixes i j :: nat
  shows "2 * (j mod 16) < 32" "2 * (j mod 16) + 1 < 32"
    "2 * (i mod 16) \<le> 2 * (j mod 16) \<and> 2 * (j mod 16) - 2 * (i mod 16) = 0 \<longleftrightarrow> j mod 16 = i mod 16"
    "2 * (i mod 16) \<le> 2 * (j mod 16) + 1 \<and> 2 * (j mod 16) + 1 - 2 * (i mod 16) = 1 \<longleftrightarrow> j mod 16 = i mod 16"
    "2 * (i mod 16) \<le> 2 * (j mod 16) \<and> 2 * (j mod 16) - 2 * (i mod 16) = 1 \<longleftrightarrow> False"
    "2 * (i mod 16) \<le> 2 * (j mod 16) + 1 \<and> 2 * (j mod 16) + 1 - 2 * (i mod 16) = 0 \<longleftrightarrow> False"
proof -
  define a b where "a = i mod 16" and "b = j mod 16"
  have "b < 16" by (simp add: b_def)
  then show "2 * (j mod 16) < 32" "2 * (j mod 16) + 1 < 32" by (simp_all add: b_def)
  show "2 * (i mod 16) \<le> 2 * (j mod 16) \<and> 2 * (j mod 16) - 2 * (i mod 16) = 0 \<longleftrightarrow> j mod 16 = i mod 16"
    "2 * (i mod 16) \<le> 2 * (j mod 16) + 1 \<and> 2 * (j mod 16) + 1 - 2 * (i mod 16) = 1 \<longleftrightarrow> j mod 16 = i mod 16"
    "2 * (i mod 16) \<le> 2 * (j mod 16) \<and> 2 * (j mod 16) - 2 * (i mod 16) = 1 \<longleftrightarrow> False"
    "2 * (i mod 16) \<le> 2 * (j mod 16) + 1 \<and> 2 * (j mod 16) + 1 - 2 * (i mod 16) = 0 \<longleftrightarrow> False"
    unfolding a_def [symmetric] b_def [symmetric] by presburger+
qed

lemma bit_one: "bit (1 :: u32) n \<longleftrightarrow> n = 0"
  by (simp add: bit_1_iff)

lemmas flag_bits = bit_cleared [OF bucket_bits(1)] bit_cleared [OF bucket_bits(2)]
  bit_set [OF bucket_bits(1)] bit_set [OF bucket_bits(2)] bit_one bit_two bit_three
  conj_disj_distribL bucket_bits(3-)

lemma ac_set_isempty_false_at:
  assumes "unat i < 16 * length fl"
  obtains fl' where "ac_set_isempty_false fl i = Inr fl'" "length fl' = length fl"
    "\<forall>j. is_empty_at fl' j \<longleftrightarrow> is_empty_at fl j \<and> j \<noteq> unat i" "\<forall>j. is_del_at fl' j = is_del_at fl j"
proof -
  obtain fl' where c: "ac_set_isempty_false fl i = Inr fl'" "length fl' = length fl"
    "\<forall>j. fl' ! (j div 16) = (if j div 16 = unat i div 16
       then fl ! (j div 16) AND NOT (push_bit (2 * (unat i mod 16)) 2) else fl ! (j div 16))"
    unfolding ac_set_isempty_false_def flag_index by (rule ac_change_at [OF assms])
  have "is_empty_at fl' j \<longleftrightarrow> is_empty_at fl j \<and> j \<noteq> unat i" for j
    unfolding is_empty_at_def c(3) [rule_format] same_bucket [of j "unat i"]
    by (cases "j div 16 = unat i div 16") (simp_all only: flag_bits if_True if_False simp_thms)
  moreover have "is_del_at fl' j = is_del_at fl j" for j
    unfolding is_del_at_def c(3) [rule_format]
    by (cases "j div 16 = unat i div 16") (simp_all only: flag_bits if_True if_False simp_thms)
  ultimately show thesis using that c(1,2) by blast
qed

lemma ac_set_isboth_false_at:
  assumes "unat i < 16 * length fl"
  obtains fl' where "ac_set_isboth_false fl i = Inr fl'" "length fl' = length fl"
    "\<forall>j. is_empty_at fl' j \<longleftrightarrow> is_empty_at fl j \<and> j \<noteq> unat i" "\<forall>j. is_del_at fl' j \<longleftrightarrow> is_del_at fl j \<and> j \<noteq> unat i"
proof -
  obtain fl' where c: "ac_set_isboth_false fl i = Inr fl'" "length fl' = length fl"
    "\<forall>j. fl' ! (j div 16) = (if j div 16 = unat i div 16
       then fl ! (j div 16) AND NOT (push_bit (2 * (unat i mod 16)) 3) else fl ! (j div 16))"
    unfolding ac_set_isboth_false_def flag_index by (rule ac_change_at [OF assms])
  have "is_empty_at fl' j \<longleftrightarrow> is_empty_at fl j \<and> j \<noteq> unat i" for j
    unfolding is_empty_at_def c(3) [rule_format] same_bucket [of j "unat i"]
    by (cases "j div 16 = unat i div 16") (simp_all only: flag_bits if_True if_False simp_thms)
  moreover have "is_del_at fl' j \<longleftrightarrow> is_del_at fl j \<and> j \<noteq> unat i" for j
    unfolding is_del_at_def c(3) [rule_format] same_bucket [of j "unat i"]
    by (cases "j div 16 = unat i div 16") (simp_all only: flag_bits if_True if_False simp_thms)
  ultimately show thesis using that c(1,2) by blast
qed

lemma ac_set_isdel_true_at:
  assumes "unat i < 16 * length fl"
  obtains fl' where "ac_set_isdel_true fl i = Inr fl'" "length fl' = length fl"
    "\<forall>j. is_empty_at fl' j = is_empty_at fl j" "\<forall>j. is_del_at fl' j \<longleftrightarrow> is_del_at fl j \<or> j = unat i"
proof -
  obtain fl' where c: "ac_set_isdel_true fl i = Inr fl'" "length fl' = length fl"
    "\<forall>j. fl' ! (j div 16) = (if j div 16 = unat i div 16
       then fl ! (j div 16) OR push_bit (2 * (unat i mod 16)) 1 else fl ! (j div 16))"
    unfolding ac_set_isdel_true_def flag_index by (rule ac_change_at [OF assms])
  have "is_empty_at fl' j = is_empty_at fl j" for j
    unfolding is_empty_at_def c(3) [rule_format]
    by (cases "j div 16 = unat i div 16") (simp_all only: flag_bits if_True if_False simp_thms)
  moreover have "is_del_at fl' j \<longleftrightarrow> is_del_at fl j \<or> j = unat i" for j
    unfolding is_del_at_def c(3) [rule_format] same_bucket [of j "unat i"]
    by (cases "j div 16 = unat i div 16") (simp_all only: flag_bits if_True if_False simp_thms)
  ultimately show thesis using that c(1,2) by blast
qed

end
