(* ===== verification/KhashProbe.thy ===== *)
theory KhashProbe
  imports KhashInv
begin

text \<open>
  Quadratic probing: the \<open>s\<close>-th bucket a probe looks at is \<open>s * (s + 1) / 2\<close> beyond the first
  one.  In a table whose capacity is a power of two the first \<open>n\<close> of them are all the buckets,
  and the probe first comes back to where it began at step \<open>2 * n - 1\<close>.
\<close>

section \<open>The sequence of buckets\<close>

definition probe_at :: "nat \<Rightarrow> nat \<Rightarrow> nat \<Rightarrow> nat" where
  "probe_at n k s = (k + s * (s + 1) div 2) mod n"

lemma two_tri: "2 * (s * (s + 1) div 2) = s * (s + 1 :: nat)"
  by simp

lemma probe_at_0: "probe_at n k 0 = k mod n"
  by (simp add: probe_at_def)

lemma probe_at_Suc: "probe_at n k (Suc s) = (probe_at n k s + Suc s) mod n"
proof -
  have "Suc s * (Suc s + 1) div 2 = s * (s + 1) div 2 + Suc s" by simp
  then show ?thesis unfolding probe_at_def by (simp only: mod_add_left_eq add.assoc)
qed

lemma probe_at_lt: "0 < n \<Longrightarrow> probe_at n k s < n"
  by (simp add: probe_at_def)

lemma probe_dvd:
  assumes "probe_at (2 ^ b) k s = probe_at (2 ^ b) k t" "t \<le> s"
  shows "2 ^ Suc b dvd (s - t) * (s + t + 1)"
proof -
  have m: "t * (t + 1) div 2 \<le> s * (s + 1) div 2" using assms(2) by (intro div_le_mono mult_le_mono) auto
  then have "2 ^ b dvd (k + s * (s + 1) div 2) - (k + t * (t + 1) div 2)"
    using assms(1) unfolding probe_at_def by (intro mod_eq_dvd_iff_nat [THEN iffD1]) auto
  then have "2 * 2 ^ b dvd 2 * (s * (s + 1) div 2 - t * (t + 1) div 2)" by (intro mult_dvd_mono) auto
  also have "2 * (s * (s + 1) div 2 - t * (t + 1) div 2) = s * (s + 1) - t * (t + 1)"
    by (simp only: diff_mult_distrib2 two_tri)
  also have "\<dots> = (s - t) * (s + t + 1)"
  proof -
    obtain d where "s = t + d" using assms(2) le_Suc_ex by blast
    then show ?thesis by (simp add: algebra_simps)
  qed
  finally show ?thesis by simp
qed

lemma pow2_dvd_odd: "2 ^ c dvd x * (y :: nat) \<Longrightarrow> odd x \<Longrightarrow> 2 ^ c dvd y"
  by (metis coprime_dvd_mult_right_iff coprime_left_2_iff_odd coprime_power_left_iff)

lemma probe_at_inj:
  assumes "probe_at (2 ^ b) k s = probe_at (2 ^ b) k t" "s < 2 ^ b" "t < 2 ^ b"
  shows "s = t"
proof -
  have le: "s = t" if e: "probe_at (2 ^ b) k s = probe_at (2 ^ b) k t" and lt: "t \<le> s" "s < 2 ^ b" for s t
  proof (cases "odd (s - t)")
    case True
    then have "2 ^ Suc b dvd s + t + 1" using pow2_dvd_odd probe_dvd [OF e lt(1)] by blast
    then have "2 ^ Suc b \<le> s + t + 1" by (rule dvd_imp_le) simp
    then show ?thesis using lt by simp
  next
    case False
    then have "odd (s + t + 1)" using lt(1) by presburger
    then have "2 ^ Suc b dvd s - t" using pow2_dvd_odd probe_dvd [OF e lt(1)] by (metis mult.commute)
    then have "s - t = 0" using lt dvd_imp_le [of "2 ^ Suc b" "s - t"] by fastforce
    then show ?thesis using lt(1) by simp
  qed
  show ?thesis using le [of s t] le [of t s] assms by (metis nat_le_linear)
qed

lemma probe_covers:
  assumes "i < 2 ^ b"
  shows "\<exists>s < 2 ^ b. probe_at (2 ^ b) k s = i"
proof -
  have "probe_at (2 ^ b) k ` {..< 2 ^ b} = {..< 2 ^ b}"
  proof (rule endo_inj_surj)
    show "inj_on (probe_at (2 ^ b) k) {..< 2 ^ b}"
      using probe_at_inj by (auto intro: inj_onI)
  qed (auto simp: probe_at_lt)
  then show ?thesis using assms by (metis image_iff lessThan_iff)
qed

lemma probe_returns:
  assumes "probe_at (2 ^ b) k s = probe_at (2 ^ b) k 0" "0 < s"
  shows "2 ^ Suc b \<le> s + 1"
proof -
  have d: "2 ^ Suc b dvd s * (s + 1)" using probe_dvd [OF assms(1)] by (simp only: diff_zero add_0_right)
  show ?thesis
proof (cases "odd s")
  case True
  then have "2 ^ Suc b dvd s + 1" by (intro pow2_dvd_odd [OF d])
  then show ?thesis by (rule dvd_imp_le) simp
next
  case False
  then have "2 ^ Suc b dvd s" by (intro pow2_dvd_odd [OF d [unfolded mult.commute [of s]]]) simp
  then have "2 ^ Suc b \<le> s" using assms(2) by (rule dvd_imp_le)
  then show ?thesis by simp
qed
qed

lemma probe_comes_back: "probe_at (2 ^ b) k (2 ^ Suc b - 1) = probe_at (2 ^ b) k 0"
proof -
  have "2 ^ Suc b - 1 + 1 = 2 * (2 ^ b :: nat)" by simp
  then have "(2 ^ Suc b - 1) * (2 ^ Suc b - 1 + 1) div 2 = (2 ^ Suc b - 1) * (2 ^ b :: nat)"
    by (simp only: mult.left_commute nonzero_mult_div_cancel_left)
  then show ?thesis unfolding probe_at_def by simp
qed

section \<open>The index computation of the code\<close>

definition capacity :: "nat \<Rightarrow> u32 \<Rightarrow> bool" where
  "capacity b n \<longleftrightarrow> 2 \<le> b \<and> b \<le> 31 \<and> n = 2 ^ b"

lemma unat_pow2: "b < 32 \<Longrightarrow> unat (2 ^ b :: u32) = 2 ^ b"
proof -
  assume "b < 32"
  then have "(2 :: nat) ^ b < 2 ^ 32" by (rule power_strict_increasing) simp
  moreover have "unat (2 ^ b :: u32) = unat (of_nat (2 ^ b) :: u32)" by simp
  ultimately show ?thesis by (simp only: unat_of_nat) (simp add: take_bit_nat_eq_self)
qed

lemma capacity_unat: "capacity b n \<Longrightarrow> unat n = 2 ^ b"
  using unat_pow2 by (simp add: capacity_def)

lemma and_mask_mod:
  assumes "capacity b n"
  shows "unat (x AND (n - 1)) = unat x mod 2 ^ b"
proof -
  have "x AND (n - 1) = take_bit b x"
    using assms by (simp add: capacity_def take_bit_eq_mask mask_eq_exp_minus_1)
  then have "unat (x AND (n - 1)) = take_bit b (unat x)" by (simp only: unsigned_take_bit_eq)
  then show ?thesis by (simp only: take_bit_eq_mod)
qed

lemma probe_start: "capacity b n \<Longrightarrow> unat (x AND (n - 1)) = probe_at (2 ^ b) (unat x) 0"
  by (simp add: and_mask_mod probe_at_0)

lemma probe_next:
  assumes "capacity b n" "unat i = probe_at (2 ^ b) k s" "unat step = s" "s + 1 < 2 ^ 32"
  shows "unat ((i + (step + 1)) AND (n - 1)) = probe_at (2 ^ b) k (Suc s)" "unat (step + 1) = Suc s"
proof -
  have "unat (step + 1) = (s + 1) mod 2 ^ 32" by (simp add: unat_word_ariths assms(3))
  then show s: "unat (step + 1) = Suc s" using assms(4) by (simp only: mod_less Suc_eq_plus1)
  have b: "b \<le> 32" using assms(1) by (simp add: capacity_def)
  have "unat (i + (step + 1)) = (unat i + unat (step + 1)) mod 2 ^ 32" by (simp add: unat_word_ariths)
  then have "unat ((i + (step + 1)) AND (n - 1)) = (unat i + unat (step + 1)) mod 2 ^ 32 mod 2 ^ b"
    unfolding and_mask_mod [OF assms(1)] by (simp only:)
  also have "\<dots> = (unat i + unat (step + 1)) mod 2 ^ b"
    using b by (simp only: mod_mod_cancel le_imp_power_dvd)
  finally show "unat ((i + (step + 1)) AND (n - 1)) = probe_at (2 ^ b) k (Suc s)"
    by (simp only: s assms(2) probe_at_Suc)
qed

end
