(* ===== verification/KhashTable.thy ===== *)
theory KhashTable
  imports KhashProbe
begin

text \<open>
  The invariant of the hash table, its contents as an abstract set of pairs, and the two probing
  loops: in a well-formed table they stop, at the bucket of the key when the table has it and at
  an empty bucket otherwise.
\<close>

section \<open>Invariant and contents\<close>

definition occupied :: "u32 list \<Rightarrow> nat \<Rightarrow> nat set" where
  "occupied fl n = {i. i < n \<and> \<not> is_empty_at fl i}"

definition live_at :: "u32 list \<Rightarrow> nat \<Rightarrow> nat set" where
  "live_at fl n = {i. i < n \<and> \<not> is_empty_at fl i \<and> \<not> is_del_at fl i}"

text \<open>A probe for a key with the hash value \<open>k\<close> gets to the bucket \<open>i\<close>.\<close>

definition reach :: "nat \<Rightarrow> u32 list \<Rightarrow> nat \<Rightarrow> nat \<Rightarrow> bool" where
  "reach b fl k i \<longleftrightarrow>
     (\<exists>s. probe_at (2 ^ b) k s = i \<and> (\<forall>t < s. \<not> is_empty_at fl (probe_at (2 ^ b) k t)))"

definition keys_ok :: "('k \<Rightarrow> u32) \<Rightarrow> nat \<Rightarrow> u32 list \<Rightarrow> 'k option list \<Rightarrow> nat set \<Rightarrow> bool" where
  "keys_ok hash b fl ks S \<longleftrightarrow> inj_on ((!) ks) S \<and>
     (\<forall>i \<in> S. \<exists>k. ks ! i = Some k \<and> reach b fl (unat (hash k)) i)"

definition table_ok :: "('k \<Rightarrow> u32) \<Rightarrow> nat \<Rightarrow> ('k, 'v) khash \<Rightarrow> bool" where
  "table_ok hash b h \<longleftrightarrow> capacity b (n_buckets h) \<and> 2 ^ b \<le> 16 * length (flags h) \<and>
     2 ^ b \<le> length (keys h) \<and> 2 ^ b \<le> length (vals h) \<and>
     keys_ok hash b (flags h) (keys h) (live_at (flags h) (2 ^ b)) \<and>
     card (live_at (flags h) (2 ^ b)) = unat (kh_size h) \<and>
     card (occupied (flags h) (2 ^ b)) = unat (n_occupied h) \<and>
     n_occupied h \<le> upper_bound h \<and> upper_bound h = ac_hash_upper (n_buckets h)"

definition no_table :: "('k, 'v) khash \<Rightarrow> bool" where
  "no_table h \<longleftrightarrow> n_buckets h = 0 \<and> kh_size h = 0 \<and> n_occupied h = 0 \<and> upper_bound h = 0 \<and> flags h = []"

definition kh_wf :: "('k \<Rightarrow> u32) \<Rightarrow> ('k, 'v) khash \<Rightarrow> bool" where
  "kh_wf hash h \<longleftrightarrow> no_table h \<or> (\<exists>b. table_ok hash b h)"

definition pairs :: "'k option list \<Rightarrow> 'v option list \<Rightarrow> nat set \<Rightarrow> ('k \<times> 'v option) set" where
  "pairs ks vs S = {(k, vs ! i) | i k. i \<in> S \<and> ks ! i = Some k}"

definition contents :: "('k, 'v) khash \<Rightarrow> ('k \<times> 'v option) set" where
  "contents h = pairs (keys h) (vals h) (live_at (flags h) (unat (n_buckets h)))"

lemma live_occupied: "live_at fl n \<subseteq> occupied fl n" "occupied fl n \<subseteq> {..< n}"
  by (auto simp: live_at_def occupied_def)

lemma live_finite [simp]: "finite (live_at fl n)" "finite (occupied fl n)"
  by (simp_all add: live_at_def occupied_def)

lemma no_table_contents: "no_table h \<Longrightarrow> contents h = {}"
  by (simp add: no_table_def contents_def pairs_def live_at_def)

lemma init_no_table: "no_table kh_init"
  by (simp add: no_table_def kh_init_def)

lemma upper_unat:
  assumes "capacity b n"
  shows "unat (ac_hash_upper n) = (2 ^ b * 77 + 50) div 100" "unat (ac_hash_upper n) < 2 ^ b"
    "2 ^ b \<le> 2 * unat (ac_hash_upper n)" "3 \<le> unat (ac_hash_upper n)"
proof -
  have b: "(2 :: nat) ^ 2 \<le> 2 ^ b" "(2 :: nat) ^ b \<le> 2 ^ 31"
    using assms by (auto simp only: capacity_def power_increasing_iff one_less_numeral_iff semiring_norm)
  let ?u = "(2 ^ b * 77 + 50) div 100 :: nat"
  have lt: "?u < 2 ^ b" "2 ^ b \<le> 2 * ?u" "3 \<le> ?u" using b(1) by simp_all
  have "unat (of_nat ?u :: u32) = ?u" using lt(1) b(2) by (simp add: unat_of_nat take_bit_nat_eq_self)
  then show "unat (ac_hash_upper n) = ?u" unfolding ac_hash_upper_def capacity_unat [OF assms] .
  then show "unat (ac_hash_upper n) < 2 ^ b" "2 ^ b \<le> 2 * unat (ac_hash_upper n)" "3 \<le> unat (ac_hash_upper n)"
    using lt by (simp_all only:)
qed

lemma empty_exists:
  assumes "card (occupied fl (2 ^ b)) < 2 ^ b"
  shows "\<exists>s < 2 ^ b. is_empty_at fl (probe_at (2 ^ b) k s)"
proof -
  have "occupied fl (2 ^ b) \<noteq> {..< 2 ^ b}" using assms by (metis card_lessThan less_irrefl)
  then obtain i where "i < 2 ^ b" "is_empty_at fl i" by (auto simp: occupied_def)
  moreover obtain s where "s < 2 ^ b" "probe_at (2 ^ b) k s = i" using probe_covers [OF calculation(1)] by blast
  ultimately show ?thesis by blast
qed

lemma table_has_empty:
  assumes "table_ok hash b h"
  shows "card (occupied (flags h) (2 ^ b)) < 2 ^ b"
proof -
  have c: "capacity b (n_buckets h)" and o: "card (occupied (flags h) (2 ^ b)) = unat (n_occupied h)"
    "n_occupied h \<le> upper_bound h" "upper_bound h = ac_hash_upper (n_buckets h)"
    using assms unfolding table_ok_def by blast+
  have "unat (n_occupied h) \<le> unat (ac_hash_upper (n_buckets h))" using o(2,3) by (simp add: word_le_nat_alt)
  then show ?thesis using upper_unat(2) [OF c] o(1) by simp
qed

text \<open>A key that is new is put into a bucket that is not in use.\<close>

lemma reach_fewer_empty:
  "reach b fl k i \<Longrightarrow> \<forall>j. is_empty_at fl' j \<longrightarrow> is_empty_at fl j \<Longrightarrow> reach b fl' k i"
  by (auto simp: reach_def)

lemma inj_fresh:
  assumes "inj_on ((!) ks) S" "x \<notin> S" "x < length ks" "\<forall>i \<in> S. ks ! i \<noteq> Some key"
  shows "inj_on ((!) (ks[x := Some key])) (insert x S)"
proof -
  have same: "ks[x := Some key] ! i = ks ! i" if "i \<in> S" for i using that assms(2) by (cases "i = x") auto
  then have "inj_on ((!) (ks[x := Some key])) S" using assms(1) by (simp add: inj_on_def)
  moreover have "ks[x := Some key] ! x \<notin> (!) (ks[x := Some key]) ` (S - {x})" using same assms(3,4) by auto
  ultimately show ?thesis by (simp only: inj_on_insert simp_thms)
qed

lemma pairs_fresh:
  assumes "x \<notin> S" "x < length ks" "x < length vs"
  shows "pairs (ks[x := Some key]) (vs[x := v]) (insert x S) = insert (key, v) (pairs ks vs S)"
proof -
  have "ks[x := Some key] ! i = ks ! i" "vs[x := v] ! i = vs ! i" if "i \<in> S" for i
    using that assms(1) by (cases "i = x"; auto)+
  then show ?thesis using assms(2,3) by (force simp: pairs_def)
qed

lemma keys_ok_fresh:
  assumes ko: "keys_ok hash b fl ks S" and x: "x \<notin> S" "x < length ks" "\<forall>i \<in> S. ks ! i \<noteq> Some key"
    and r: "reach b fl (unat (hash key)) x" and fl: "\<forall>j. is_empty_at fl' j \<longrightarrow> is_empty_at fl j"
  shows "keys_ok hash b fl' (ks[x := Some key]) (insert x S)"
proof -
  have "\<exists>k. ks[x := Some key] ! i = Some k \<and> reach b fl' (unat (hash k)) i" if "i \<in> insert x S" for i
  proof (cases "i = x")
    case True
    then show ?thesis using x(2) reach_fewer_empty [OF r fl] by simp
  next
    case False
    then obtain k where "ks ! i = Some k" "reach b fl (unat (hash k)) i" using ko \<open>i \<in> insert x S\<close> by (auto simp: keys_ok_def)
    then show ?thesis using reach_fewer_empty [OF _ fl] False by simp
  qed
  moreover have "inj_on ((!) ks) S" using ko by (simp add: keys_ok_def)
  ultimately show ?thesis using inj_fresh [OF _ x] by (simp add: keys_ok_def)
qed

section \<open>Where a probe stops\<close>

definition stops :: "('k, 'v) khash \<Rightarrow> 'k \<Rightarrow> nat \<Rightarrow> bool" where
  "stops h key i \<longleftrightarrow> is_empty_at (flags h) i \<or> (\<not> is_del_at (flags h) i \<and> keys h ! i = Some key)"

definition stop_step :: "('k, 'v) khash \<Rightarrow> 'k \<Rightarrow> nat \<Rightarrow> nat \<Rightarrow> nat \<Rightarrow> bool" where
  "stop_step h key b k u \<longleftrightarrow> u < 2 ^ b \<and> stops h key (probe_at (2 ^ b) k u) \<and>
     (\<forall>t < u. \<not> stops h key (probe_at (2 ^ b) k t))"

lemma stop_step_exists:
  assumes "card (occupied (flags h) (2 ^ b)) < 2 ^ b"
  obtains u where "stop_step h key b k u"
proof -
  let ?P = "\<lambda>s. stops h key (probe_at (2 ^ b) k s)"
  obtain s where s: "s < 2 ^ b" "?P s" using empty_exists [OF assms, of k] by (auto simp: stops_def)
  have "(LEAST s. ?P s) \<le> s" using s(2) by (rule Least_le)
  then have "(LEAST s. ?P s) < 2 ^ b" using s(1) by (rule le_less_trans)
  moreover have "?P (LEAST s. ?P s)" using s(2) by (rule LeastI)
  moreover have "\<forall>t < (LEAST s. ?P s). \<not> ?P t" using not_less_Least by blast
  ultimately have "stop_step h key b k (LEAST s. ?P s)" unfolding stop_step_def by blast
  then show thesis by (rule that)
qed

lemma probe_on_eq:
  assumes "table_ok hash b h" "unat i < 2 ^ b"
  shows "probe_on h key i = Inr (\<not> stops h key (unat i))" "ac_isdel (flags h) i = Inr (is_del_at (flags h) (unat i))"
proof -
  have l: "unat i < 16 * length (flags h)" "unat i < length (keys h)" using assms by (auto simp: table_ok_def)
  have "\<exists>k. keys h ! unat i = Some k" if "\<not> is_empty_at (flags h) (unat i)" "\<not> is_del_at (flags h) (unat i)"
    using assms that by (auto simp: table_ok_def keys_ok_def live_at_def)
  then show "probe_on h key i = Inr (\<not> stops h key (unat i))"
    using l by (auto simp: probe_on_def ac_reads [OF l(1)] cell_def stops_def)
  show "ac_isdel (flags h) i = Inr (is_del_at (flags h) (unat i))" by (rule ac_reads(2) [OF l(1)])
qed

lemma not_start:
  assumes "unat start = probe_at (2 ^ b) k 0" "unat i = probe_at (2 ^ b) k (Suc s)" "Suc s < 2 ^ b"
  shows "i \<noteq> start"
  using probe_at_inj [of b k "Suc s" 0] assms by auto

lemma kh_get_loop_stops:
  assumes ok: "table_ok hash b h" and u: "stop_step h key b k u"
    and start: "unat start = probe_at (2 ^ b) k 0"
  shows "unat i = probe_at (2 ^ b) k s \<Longrightarrow> unat step = s \<Longrightarrow> s \<le> u \<Longrightarrow>
    \<exists>i'. kh_get_loop h key (n_buckets h - 1) start i step = Some (Inr (Some i')) \<and> unat i' = probe_at (2 ^ b) k u"
proof (induction "u - s" arbitrary: s i step)
  case 0
  then have "stops h key (unat i)" using u by (auto simp: stop_step_def)
  moreover have "unat i < 2 ^ b" using 0 by (simp add: probe_at_lt)
  ultimately show ?case using 0 by (subst kh_get_loop.simps) (simp add: probe_on_eq [OF ok])
next
  case (Suc d)
  have lt: "s < u" "u < 2 ^ b" using Suc.hyps(2) u by (auto simp: stop_step_def)
  have cap: "capacity b (n_buckets h)" using ok by (simp add: table_ok_def)
  have "2 ^ b \<le> (2 :: nat) ^ 31" using cap by (intro power_increasing) (auto simp: capacity_def)
  then have "s + 1 < 2 ^ 32" using lt by simp
  note n = probe_next [OF cap Suc.prems(1,2) this]
  have "unat i < 2 ^ b" "\<not> stops h key (unat i)"
    using Suc.prems(1) lt(1) u by (auto simp: stop_step_def probe_at_lt)
  moreover have "(i + (step + 1)) AND (n_buckets h - 1) \<noteq> start"
    using lt by (intro not_start [OF start n(1)]) simp
  moreover have "\<exists>i'. kh_get_loop h key (n_buckets h - 1) start ((i + (step + 1)) AND (n_buckets h - 1)) (step + 1) =
      Some (Inr (Some i')) \<and> unat i' = probe_at (2 ^ b) k u"
    using Suc.hyps(2) lt by (intro Suc.hyps(1) [of "Suc s"] n) simp_all
  ultimately show ?case
    by (subst kh_get_loop.simps) (simp add: probe_on_eq [OF ok] Let_def)
qed

text \<open>The loop of the insertion also remembers a deleted bucket it passed.\<close>

lemma kh_put_loop_stops:
  assumes ok: "table_ok hash b h" and u: "stop_step h key b k u"
    and start: "unat start = probe_at (2 ^ b) k 0"
  shows "unat i = probe_at (2 ^ b) k s \<Longrightarrow> unat step = s \<Longrightarrow> s \<le> u \<Longrightarrow>
    \<exists>i' site'. kh_put_loop h key (n_buckets h - 1) start site i step = Some (Inr (i', site', False)) \<and>
      unat i' = probe_at (2 ^ b) k u \<and>
      (site' = site \<or> (\<exists>t < u. unat site' = probe_at (2 ^ b) k t \<and> is_del_at (flags h) (unat site')))"
proof (induction "u - s" arbitrary: s i step site)
  case 0
  then have "stops h key (unat i)" using u by (auto simp: stop_step_def)
  moreover have "unat i < 2 ^ b" using 0 by (simp add: probe_at_lt)
  ultimately show ?case using 0 by (subst kh_put_loop.simps) (simp add: probe_on_eq [OF ok])
next
  case (Suc d)
  have lt: "s < u" "u < 2 ^ b" using Suc.hyps(2) u by (auto simp: stop_step_def)
  have cap: "capacity b (n_buckets h)" using ok by (simp add: table_ok_def)
  have "2 ^ b \<le> (2 :: nat) ^ 31" using cap by (intro power_increasing) (auto simp: capacity_def)
  then have "s + 1 < 2 ^ 32" using lt by simp
  note n = probe_next [OF cap Suc.prems(1,2) this]
  define site2 where "site2 = (if is_del_at (flags h) (unat i) then i else site)"
  have i: "unat i < 2 ^ b" "\<not> stops h key (unat i)"
    using Suc.prems(1) lt(1) u by (auto simp: stop_step_def probe_at_lt)
  moreover have "(i + (step + 1)) AND (n_buckets h - 1) \<noteq> start"
    using lt by (intro not_start [OF start n(1)]) simp
  ultimately have "kh_put_loop h key (n_buckets h - 1) start site i step =
      kh_put_loop h key (n_buckets h - 1) start site2 ((i + (step + 1)) AND (n_buckets h - 1)) (step + 1)"
    by (subst kh_put_loop.simps) (simp add: probe_on_eq [OF ok] Let_def site2_def)
  moreover have "\<exists>i' site'. kh_put_loop h key (n_buckets h - 1) start site2 ((i + (step + 1)) AND (n_buckets h - 1))
      (step + 1) = Some (Inr (i', site', False)) \<and> unat i' = probe_at (2 ^ b) k u \<and>
      (site' = site2 \<or> (\<exists>t < u. unat site' = probe_at (2 ^ b) k t \<and> is_del_at (flags h) (unat site')))"
    using Suc.hyps(2) lt by (intro Suc.hyps(1) [of "Suc s"] n) simp_all
  ultimately show ?case using Suc.prems(1) lt(1) by (fastforce simp: site2_def split: if_splits)
qed

section \<open>Search\<close>

text \<open>Where a probe for a key stops tells whether the table has it.\<close>

lemma stop_found:
  assumes ok: "table_ok hash b h" and u: "stop_step h key b (unat (hash key)) u"
    and i: "i \<in> live_at (flags h) (2 ^ b)" "keys h ! i = Some key"
  shows "probe_at (2 ^ b) (unat (hash key)) u = i"
proof -
  let ?P = "probe_at (2 ^ b) (unat (hash key))"
  have ko: "keys_ok hash b (flags h) (keys h) (live_at (flags h) (2 ^ b))" using ok by (simp add: table_ok_def)
  then have "reach b (flags h) (unat (hash key)) i" using i by (auto simp: keys_ok_def)
  then obtain s where s: "?P s = i" "\<forall>t < s. \<not> is_empty_at (flags h) (?P t)" by (auto simp: reach_def)
  have "stops h key (?P s)" using i s(1) by (auto simp: stops_def live_at_def)
  then have "u \<le> s" using u by (meson stop_step_def not_le)
  then have "\<not> is_empty_at (flags h) (?P u)"
    using s i(1) by (cases "u = s") (auto simp: live_at_def)
  then have "?P u \<in> live_at (flags h) (2 ^ b)" "keys h ! ?P u = Some key"
    using u by (auto simp: stop_step_def stops_def live_at_def probe_at_lt)
  moreover have "inj_on ((!) (keys h)) (live_at (flags h) (2 ^ b))" using ko by (simp add: keys_ok_def)
  ultimately show ?thesis using i by (metis inj_onD)
qed

lemma stop_not_found:
  assumes u: "stop_step h key b k u" and n: "\<forall>i \<in> live_at (flags h) (2 ^ b). keys h ! i \<noteq> Some key"
  shows "is_empty_at (flags h) (probe_at (2 ^ b) k u)"
proof -
  have "probe_at (2 ^ b) k u < 2 ^ b" by (rule probe_at_lt) simp
  then show ?thesis using assms by (auto simp: stop_step_def stops_def live_at_def)
qed

lemma has_key: "(\<exists>i \<in> live_at (flags h) (unat (n_buckets h)). keys h ! i = Some key) \<longleftrightarrow> key \<in> fst ` contents h"
  by (force simp: contents_def pairs_def image_iff)

lemma kh_get_spec:
  assumes "kh_wf hash h"
  shows "\<exists>i. kh_get hash h key = Inr i \<and>
     (if key \<in> fst ` contents h
      then unat i \<in> live_at (flags h) (unat (n_buckets h)) \<and> keys h ! unat i = Some key \<and> i \<noteq> n_buckets h
      else i = n_buckets h)"
proof (cases "no_table h")
  case True
  then show ?thesis by (simp add: no_table_contents kh_get_def) (simp add: no_table_def)
next
  case False
  then obtain b where ok: "table_ok hash b h" using assms by (auto simp: kh_wf_def)
  have cap: "capacity b (n_buckets h)" using ok by (simp add: table_ok_def)
  note n = capacity_unat [OF cap]
  obtain u where u: "stop_step h key b (unat (hash key)) u" by (rule stop_step_exists [OF table_has_empty [OF ok]])
  note s = probe_start [OF cap, of "hash key"]
  obtain i where i: "kh_get_loop h key (n_buckets h - 1) (hash key AND (n_buckets h - 1)) (hash key AND (n_buckets h - 1)) 0
      = Some (Inr (Some i))" "unat i = probe_at (2 ^ b) (unat (hash key)) u"
    using kh_get_loop_stops [OF ok u s s unat_0] by auto
  have lt: "unat i < 2 ^ b" using i(2) by (simp add: probe_at_lt)
  then have "unat i < 16 * length (flags h)" using ok by (auto simp: table_ok_def)
  moreover have "n_buckets h \<noteq> 0" using n by auto
  ultimately have g: "kh_get hash h key =
      Inr (if is_empty_at (flags h) (unat i) \<or> is_del_at (flags h) (unat i) then n_buckets h else i)"
    using i(1) by (simp add: kh_get_def Let_def run_loop_def ac_reads)
  have ne: "i \<noteq> n_buckets h" using lt n by auto
  show ?thesis
  proof (cases "key \<in> fst ` contents h")
    case True
    then obtain j where j: "j \<in> live_at (flags h) (2 ^ b)" "keys h ! j = Some key" using has_key n by metis
    then have "unat i = j" using stop_found [OF ok u] i(2) by simp
    then show ?thesis using True j g ne n by (simp add: live_at_def)
  next
    case False
    then have "\<forall>i \<in> live_at (flags h) (2 ^ b). keys h ! i \<noteq> Some key" using has_key n by metis
    then have "is_empty_at (flags h) (unat i)" using stop_not_found [OF u] i(2) by simp
    then show ?thesis using False g by simp
  qed
qed

end
