(* ===== verification/KhashUpdate.thy ===== *)
theory KhashUpdate
  imports KhashTable
begin

text \<open>Insertion into a table with room, deletion of a bucket, and clearing.\<close>

section \<open>Insertion\<close>

lemma no_key: "key \<notin> fst ` contents h \<Longrightarrow> capacity b (n_buckets h) \<Longrightarrow>
   \<forall>i \<in> live_at (flags h) (2 ^ b). keys h ! i \<noteq> Some key"
  using has_key [of h key] capacity_unat by metis

lemma kh_put_bucket_spec:
  assumes ok: "table_ok hash b h"
  obtains x where "kh_put_bucket hash h key = Inr x" "unat x < 2 ^ b"
    "if key \<in> fst ` contents h then unat x \<in> live_at (flags h) (2 ^ b) \<and> keys h ! unat x = Some key
     else unat x \<notin> live_at (flags h) (2 ^ b) \<and> reach b (flags h) (unat (hash key)) (unat x)"
proof -
  let ?P = "probe_at (2 ^ b) (unat (hash key))" and ?i = "hash key AND (n_buckets h - 1)"
  have cap: "capacity b (n_buckets h)" and fl: "2 ^ b \<le> 16 * length (flags h)" using ok by (auto simp: table_ok_def)
  note n = capacity_unat [OF cap] and s = probe_start [OF cap, of "hash key"]
  obtain u where u: "stop_step h key b (unat (hash key)) u" by (rule stop_step_exists [OF table_has_empty [OF ok]])
  have P: "?P t < 2 ^ b" for t by (rule probe_at_lt) simp
  obtain i site where l: "kh_put_loop h key (n_buckets h - 1) ?i (n_buckets h) ?i 0 = Some (Inr (i, site, False))"
    "unat i = ?P u" "site = n_buckets h \<or> (\<exists>t < u. unat site = ?P t \<and> is_del_at (flags h) (unat site))"
    using kh_put_loop_stops [OF ok u s s unat_0] by blast
  have e: "ac_isempty (flags h) j = Inr (is_empty_at (flags h) (unat j))" if "unat j < 2 ^ b" for j
    using that fl by (intro ac_reads) simp
  define x where "x = (if is_empty_at (flags h) (?P 0) then ?i
    else if is_empty_at (flags h) (unat i) \<and> site \<noteq> n_buckets h then site else i)"
  have lt: "unat ?i < 2 ^ b" "unat i < 2 ^ b" using s l(2) P by simp_all
  have bucket: "kh_put_bucket hash h key = Inr x"
    using s l(1) by (simp add: kh_put_bucket_def Let_def e [OF lt(1)] e [OF lt(2)] run_loop_def x_def)
  have before: "\<forall>t < u. \<not> is_empty_at (flags h) (?P t)" using u by (auto simp: stop_step_def stops_def)
  then have reach: "reach b (flags h) (unat (hash key)) (?P t)" if "t \<le> u" for t
    using that by (auto simp: reach_def)
  have u0: "u = 0" if "is_empty_at (flags h) (?P 0)" using that before by (cases u) auto
  show thesis
  proof (cases "key \<in> fst ` contents h")
    case True
    then obtain j where j: "j \<in> live_at (flags h) (2 ^ b)" "keys h ! j = Some key" using has_key n by metis
    then have i: "unat i = j" using stop_found [OF ok u] l(2) by simp
    then have "\<not> is_empty_at (flags h) (unat i)" using j(1) by (simp add: live_at_def)
    moreover have "\<not> is_empty_at (flags h) (?P 0)" using u0 l(2) calculation by metis
    ultimately have "x = i" by (simp add: x_def)
    then show thesis using that bucket lt(2) True i j by simp
  next
    case False
    then have em: "is_empty_at (flags h) (?P u)" using stop_not_found [OF u] no_key [OF _ cap] by blast
    have "unat x < 2 ^ b \<and> unat x \<notin> live_at (flags h) (2 ^ b) \<and> (\<exists>t \<le> u. unat x = ?P t)"
    proof (cases "is_empty_at (flags h) (?P 0)")
      case True
      then show ?thesis using s lt(1) by (auto simp: x_def live_at_def)
    next
      case False
      show ?thesis
      proof (cases "site = n_buckets h")
        case True
        then have "x = i" using False by (simp add: x_def)
        then show ?thesis using lt(2) em l(2) by (auto simp: live_at_def)
      next
        case site: False
        then obtain t where t: "t < u" "unat site = ?P t" "is_del_at (flags h) (unat site)" using l(3) by blast
        have "x = site" using False site em l(2) by (simp add: x_def)
        moreover have "unat site \<notin> live_at (flags h) (2 ^ b)" using t(3) by (simp add: live_at_def)
        ultimately show ?thesis using t(1,2) P [of t] less_imp_le_nat by (metis (no_types, lifting))
      qed
    qed
    then show thesis using that [OF bucket] reach False by auto
  qed
qed

lemma u32_inc: "(a :: u32) < c \<Longrightarrow> unat (a + 1) = unat a + 1" "(a :: u32) < c \<Longrightarrow> a + 1 \<le> c"
proof -
  assume "a < c"
  then have "unat a < unat c" "unat c < 2 ^ 32" using unsigned_less [of c] by (simp_all add: word_less_nat_alt)
  then have "(unat a + 1) mod 2 ^ 32 = unat a + 1" "unat a + 1 \<le> unat c" by simp_all
  moreover have "unat (a + 1) = (unat a + 1) mod 2 ^ 32" by (simp add: unat_word_ariths)
  ultimately show "unat (a + 1) = unat a + 1" "a + 1 \<le> c" by (simp_all add: word_le_nat_alt)
qed

text \<open>A new key in a bucket that is not in use and that its probe gets to.\<close>

lemma table_ok_insert:
  assumes ok: "table_ok hash b h" and x: "x < 2 ^ b" "x \<notin> live_at (flags h) (2 ^ b)"
    and key: "key \<notin> fst ` contents h" "reach b (flags h) (unat (hash key)) x"
    and fl: "length fl = length (flags h)" "\<forall>j. is_empty_at fl j \<longleftrightarrow> is_empty_at (flags h) j \<and> j \<noteq> x"
      "\<forall>j. is_del_at fl j \<longleftrightarrow> is_del_at (flags h) j \<and> j \<noteq> x"
    and o: "unat oc = card (insert x (occupied (flags h) (2 ^ b)))" "oc \<le> upper_bound h"
  shows "table_ok hash b (h\<lparr>keys := (keys h)[x := Some key], flags := fl, kh_size := kh_size h + 1, n_occupied := oc\<rparr>)"
      (is "table_ok hash b ?h")
    and "contents (h\<lparr>keys := (keys h)[x := Some key], flags := fl, kh_size := kh_size h + 1, n_occupied := oc\<rparr>) =
      insert (key, vals h ! x) (contents h)"
    and "live_at fl (2 ^ b) = insert x (live_at (flags h) (2 ^ b))"
    and "unat (kh_size h + 1) = unat (kh_size h) + 1"
proof -
  note t = ok [unfolded table_ok_def]
  let ?L = "live_at (flags h) (2 ^ b)" and ?ks = "(keys h)[x := Some key]"
  show L: "live_at fl (2 ^ b) = insert x ?L" using x(1) fl(2,3) by (auto simp: live_at_def)
  have O: "occupied fl (2 ^ b) = insert x (occupied (flags h) (2 ^ b))" using x(1) fl(2) by (auto simp: occupied_def)
  have len: "x < length (keys h)" using x(1) t by simp
  have same: "?ks ! i = keys h ! i" if "i \<in> ?L" for i using that x(2) by (cases "i = x") auto
  have nokey: "\<forall>i \<in> ?L. keys h ! i \<noteq> Some key" using no_key [OF key(1)] t by blast
  have ko: "keys_ok hash b (flags h) (keys h) ?L" using t by blast
  have ko': "keys_ok hash b fl ?ks (insert x ?L)"
    using fl(2) by (intro keys_ok_fresh [where hash = hash, OF ko x(2) len nokey key(2)]) simp
  have "?L \<subset> {..< 2 ^ b}" using x by (auto simp: live_at_def)
  then have "card ?L < 2 ^ b" using psubset_card_mono [of "{..< 2 ^ b}" ?L] by simp
  moreover have "(2 :: nat) ^ b \<le> 2 ^ 31" using t by (intro power_increasing) (auto simp: capacity_def)
  ultimately have "unat (kh_size h) + 1 < 2 ^ 32" using t by simp
  then show size: "unat (kh_size h + 1) = unat (kh_size h) + 1" by (simp add: unat_word_ariths)
  then have "card (insert x ?L) = unat (kh_size h + 1)" using x(2) t by simp
  then show "table_ok hash b ?h" using t ko' o fl(1) unfolding table_ok_def by (simp add: L O)
  have n: "unat (n_buckets h) = 2 ^ b" using t capacity_unat by blast
  show "contents ?h = insert (key, vals h ! x) (contents h)"
    using same x(2) len unfolding contents_def pairs_def by (force simp: n L)
qed

lemma kh_put_here_spec:
  assumes ok: "table_ok hash b h" and room: "n_occupied h < upper_bound h"
  obtains x r h' where "kh_put_here hash h key = Inr (x, r, h')" "table_ok hash b h'" "0 \<le> r"
    "unat x \<in> live_at (flags h') (2 ^ b)" "keys h' ! unat x = Some key" "n_buckets h' = n_buckets h"
    "vals h' = vals h" "if key \<in> fst ` contents h then r = 0 \<and> h' = h
      else r \<noteq> 0 \<and> contents h' = insert (key, vals h ! unat x) (contents h) \<and> unat (kh_size h') = unat (kh_size h) + 1"
proof -
  note t = ok [unfolded table_ok_def]
  obtain x where x: "kh_put_bucket hash h key = Inr x" "unat x < 2 ^ b"
    "if key \<in> fst ` contents h then unat x \<in> live_at (flags h) (2 ^ b) \<and> keys h ! unat x = Some key
     else unat x \<notin> live_at (flags h) (2 ^ b) \<and> reach b (flags h) (unat (hash key)) (unat x)"
    by (rule kh_put_bucket_spec [OF ok])
  have lt: "unat x < 16 * length (flags h)" "unat x < length (keys h)" using x(2) t by auto
  show thesis
  proof (cases "key \<in> fst ` contents h")
    case True
    then have "unat x \<in> live_at (flags h) (2 ^ b)" "keys h ! unat x = Some key" using x(3) by auto
    then show thesis
      using that [of x 0 h] x(1) ok True by (simp add: kh_put_here_def ac_reads [OF lt(1)] live_at_def)
  next
    case False
    then have n: "unat x \<notin> live_at (flags h) (2 ^ b)" "reach b (flags h) (unat (hash key)) (unat x)" using x(3) by auto
    obtain fl where fl: "ac_set_isboth_false (flags h) x = Inr fl" "length fl = length (flags h)"
      "\<forall>j. is_empty_at fl j \<longleftrightarrow> is_empty_at (flags h) j \<and> j \<noteq> unat x"
      "\<forall>j. is_del_at fl j \<longleftrightarrow> is_del_at (flags h) j \<and> j \<noteq> unat x"
      by (rule ac_set_isboth_false_at [OF lt(1)])
    note inc = u32_inc [OF room]
    define oc where "oc = (if is_empty_at (flags h) (unat x) then n_occupied h + 1 else n_occupied h)"
    have oc: "unat oc = card (insert (unat x) (occupied (flags h) (2 ^ b)))" "oc \<le> upper_bound h"
      using t inc x(2) by (auto simp: oc_def occupied_def card_insert_if insert_absorb)
    let ?h = "h\<lparr>keys := (keys h)[unat x := Some key], flags := fl, kh_size := kh_size h + 1, n_occupied := oc\<rparr>"
    note ins = table_ok_insert [OF ok x(2) n(1) False n(2) fl(2-4) oc]
    have del: "is_empty_at (flags h) (unat x) \<or> is_del_at (flags h) (unat x)" using n(1) x(2) by (auto simp: live_at_def)
    have "\<exists>r > 0. kh_put_here hash h key = Inr (x, r, ?h)"
      using del lt(2) x(1) fl(1)
      by (cases "is_empty_at (flags h) (unat x)") (simp_all add: kh_put_here_def ac_reads [OF lt(1)] set_cell_def oc_def)
    then obtain r where "0 < r" "kh_put_here hash h key = Inr (x, r, ?h)" by blast
    then show thesis
      using that [of x r ?h] ins False lt(2) by simp
  qed
qed

section \<open>Deletion and clearing\<close>

lemma kh_del_spec:
  assumes ok: "table_ok hash b h" and x: "unat x \<in> live_at (flags h) (2 ^ b)" "keys h ! unat x = Some key"
  shows "\<exists>h'. kh_del h x = Inr h' \<and> table_ok hash b h' \<and> n_buckets h' = n_buckets h \<and>
     contents h' = {p \<in> contents h. fst p \<noteq> key}"
proof -
  note t = ok [unfolded table_ok_def]
  let ?L = "live_at (flags h) (2 ^ b)"
  have lt: "unat x < 2 ^ b" "unat x < 16 * length (flags h)" using x t by (auto simp: live_at_def)
  have n: "unat (n_buckets h) = 2 ^ b" using t capacity_unat by blast
  obtain fl where fl: "ac_set_isdel_true (flags h) x = Inr fl" "length fl = length (flags h)"
    "\<forall>j. is_empty_at fl j = is_empty_at (flags h) j" "\<forall>j. is_del_at fl j \<longleftrightarrow> is_del_at (flags h) j \<or> j = unat x"
    by (rule ac_set_isdel_true_at [OF lt(2)])
  have L: "live_at fl (2 ^ b) = ?L - {unat x}" using fl(3,4) by (auto simp: live_at_def)
  have O: "occupied fl (2 ^ b) = occupied (flags h) (2 ^ b)" using fl(3) by (simp add: occupied_def)
  let ?h = "h\<lparr>flags := fl, kh_size := kh_size h - 1\<rparr>"
  have "x \<noteq> n_buckets h" using lt(1) n by auto
  then have d: "kh_del h x = Inr ?h" using x(1) fl(1) by (simp add: kh_del_def ac_reads [OF lt(2)] live_at_def)
  have ko: "keys_ok hash b (flags h) (keys h) ?L" using t by blast
  then have ko': "keys_ok hash b fl (keys h) (?L - {unat x})"
    using fl(3) by (auto simp: keys_ok_def reach_def inj_on_diff)
  have "card ?L = unat (kh_size h)" using t by blast
  moreover have "0 < card ?L" using x(1) by (auto simp: card_gt_0_iff)
  ultimately have "card (?L - {unat x}) = unat (kh_size h - 1)" using x(1) by (simp add: unat_minus_one word_gt_0 [symmetric] unat_gt_0)
  moreover have "n_occupied h \<le> ac_hash_upper (n_buckets h)" using t by metis
  ultimately have ok': "table_ok hash b ?h" using t fl(2) ko' unfolding table_ok_def by (simp add: L O)
  have "keys h ! i \<noteq> Some key" if "i \<in> ?L" "i \<noteq> unat x" for i
    using ko x that by (auto simp: keys_ok_def inj_on_def)
  then have "contents ?h = {p \<in> contents h. fst p \<noteq> key}"
    using x unfolding contents_def pairs_def by (force simp: n L)
  then show ?thesis using d ok' by auto
qed

text \<open>The flags of a new table.\<close>

lemma bit_aa: "n < 32 \<Longrightarrow> bit (0xaaaaaaaa :: u32) n = odd n"
proof -
  have "\<forall>n \<in> set [0..<32]. bit (0xaaaaaaaa :: u32) n = odd n" by code_simp
  then show "n < 32 \<Longrightarrow> ?thesis" by simp
qed

lemma empty_flags_at:
  assumes "capacity b n"
  shows "2 ^ b \<le> 16 * length (empty_flags n)" "i < 2 ^ b \<Longrightarrow> is_empty_at (empty_flags n) i"
    "i < 2 ^ b \<Longrightarrow> \<not> is_del_at (empty_flags n) i"
proof -
  have n: "unat n = 2 ^ b" by (rule capacity_unat [OF assms])
  have "2 ^ b \<le> 16 * unat (ac_fsize n)"
  proof (cases "n < 16")
    case True
    then show ?thesis using n by (simp add: ac_fsize_def word_less_nat_alt)
  next
    case False
    then have "2 ^ 4 \<le> (2 :: nat) ^ b" using n by (simp add: word_less_nat_alt)
    then have "4 \<le> b" by (rule power_le_imp_le_exp [rotated]) simp
    then have "16 dvd (2 :: nat) ^ b" using le_imp_power_dvd [of 4 b "2 :: nat"] by simp
    moreover have "unat (ac_fsize n) = 2 ^ b div 16" using False n flag_word_eq [of n] by (simp add: ac_fsize_def flag_word_def)
    ultimately show ?thesis by simp
  qed
  then show len: "2 ^ b \<le> 16 * length (empty_flags n)" by (simp add: empty_flags_def)
  show "is_empty_at (empty_flags n) i" "\<not> is_del_at (empty_flags n) i" if "i < 2 ^ b"
  proof -
    have "i div 16 < unat (ac_fsize n)" using that len by (simp add: empty_flags_def less_mult_imp_div_less mult.commute)
    then show "is_empty_at (empty_flags n) i" "\<not> is_del_at (empty_flags n) i"
      unfolding is_empty_at_def is_del_at_def empty_flags_def
      by (simp_all only: nth_replicate bit_aa [OF bucket_bits(1)] bit_aa [OF bucket_bits(2)]) simp_all
  qed
qed

lemma kh_clear_spec:
  assumes "table_ok hash b h"
  shows "table_ok hash b (kh_clear h)" "contents (kh_clear h) = {}"
proof -
  note t = assms [unfolded table_ok_def]
  have cap: "capacity b (n_buckets h)" using t by blast
  have "flags h \<noteq> []" using t by auto
  then have c: "kh_clear h = h\<lparr>flags := empty_flags (n_buckets h), kh_size := 0, n_occupied := 0\<rparr>"
    by (simp add: kh_clear_def)
  have L: "live_at (empty_flags (n_buckets h)) (2 ^ b) = {}" "occupied (empty_flags (n_buckets h)) (2 ^ b) = {}"
    using empty_flags_at(2) [OF cap] by (auto simp: live_at_def occupied_def)
  show "table_ok hash b (kh_clear h)"
    using t empty_flags_at(1) [OF cap] by (simp add: table_ok_def c L keys_ok_def word_le_nat_alt)
  show "contents (kh_clear h) = {}" by (simp add: c contents_def capacity_unat [OF cap] L pairs_def)
qed

end
