(* ===== verification/KhashResize.thy ===== *)
theory KhashResize
  imports KhashUpdate
begin

text \<open>
  Resizing: the new capacity is the next power of two, and the rehashing, which moves the
  elements within the arrays and kicks out the ones in its way, ends and keeps the contents.
\<close>

section \<open>The next power of two\<close>

lemma bit_smear:
  fixes y :: u32
  assumes "\<And>j. bit y j \<longleftrightarrow> (\<exists>k < n. bit x (j + k))"
  shows "bit (y OR drop_bit n y) j \<longleftrightarrow> (\<exists>k < 2 * n. bit x (j + k))"
proof -
  have "(\<exists>k < 2 * n. bit x (j + k)) \<longleftrightarrow> (\<exists>k < n. bit x (j + k)) \<or> (\<exists>k < n. bit x (j + n + k))"
    (is "?l \<longleftrightarrow> ?r")
  proof
    assume ?l
    then obtain k where k: "k < 2 * n" "bit x (j + k)" by blast
    show ?r
    proof (cases "k < n")
      case False
      then have "k - n < n" "j + n + (k - n) = j + k" using k(1) by auto
      then show ?thesis using k(2) by metis
    qed (use k in blast)
  next
    assume ?r
    then consider k where "k < n" "bit x (j + k)" | k where "k < n" "bit x (j + (n + k))" by (auto simp: add.assoc)
    then show ?l
    proof cases
      case 1
      then show ?thesis by (intro exI [of _ k]) simp
    next
      case 2
      then show ?thesis by (intro exI [of _ "n + k"]) simp
    qed
  qed
  then show ?thesis by (simp add: bit_or_iff bit_drop_bit_eq assms add.commute add.left_commute)
qed

lemma kroundup32_pow2:
  assumes "2 ^ b < 2 * unat x" "unat x \<le> 2 ^ b" "b \<le> 32"
  shows "kroundup32 x = 2 ^ b"
proof -
  define y0 where "y0 = x - 1"
  define y1 where "y1 = y0 OR drop_bit 1 y0"
  define y2 where "y2 = y1 OR drop_bit 2 y1"
  define y3 where "y3 = y2 OR drop_bit 4 y2"
  define y4 where "y4 = y3 OR drop_bit 8 y3"
  define y5 where "y5 = y4 OR drop_bit 16 y4"
  have b1: "bit y1 j \<longleftrightarrow> (\<exists>k < 2. bit y0 (j + k))" for j unfolding y1_def using bit_smear [of y0 1 y0] by simp
  have b2: "bit y2 j \<longleftrightarrow> (\<exists>k < 4. bit y0 (j + k))" for j unfolding y2_def using bit_smear [OF b1] by simp
  have b3: "bit y3 j \<longleftrightarrow> (\<exists>k < 8. bit y0 (j + k))" for j unfolding y3_def using bit_smear [OF b2] by simp
  have b4: "bit y4 j \<longleftrightarrow> (\<exists>k < 16. bit y0 (j + k))" for j unfolding y4_def using bit_smear [OF b3] by simp
  have b5: "bit y5 j \<longleftrightarrow> (\<exists>k < 32. bit y0 (j + k))" for j unfolding y5_def using bit_smear [OF b4] by simp
  have "unat x \<noteq> 0" using assms(1) by (metis mult_0_right not_less_zero)
  then have y0: "unat y0 = unat x - 1" by (simp add: y0_def unat_minus_one unsigned_eq_0_iff)
  then have lt: "unat y0 < 2 ^ b" using assms(2) \<open>unat x \<noteq> 0\<close> by simp
  have high: "\<not> bit y0 j" if "b \<le> j" for j
  proof -
    have "(2 :: nat) ^ b \<le> 2 ^ j" using that by (rule power_increasing) simp
    then have "unat y0 < 2 ^ j" by (rule less_le_trans [OF lt])
    then have "\<not> bit (unat y0) j" by (simp add: bit_iff_odd)
    then show ?thesis by (simp add: bit_unsigned_iff)
  qed
  have "bit y5 j \<longleftrightarrow> j < b" if "j < 32" for j
  proof
    assume "bit y5 j"
    then obtain k where "bit y0 (j + k)" using b5 by blast
    then show "j < b" using high [of "j + k"] by (cases "b \<le> j + k") auto
  next
    assume j: "j < b"
    then have "2 ^ (b - 1) \<le> unat y0" using assms(1) y0 by (cases b) auto
    moreover have "unat y0 < 2 * 2 ^ (b - 1)" using lt j by (cases b) auto
    ultimately have "unat y0 div 2 ^ (b - 1) = 1" by (intro div_nat_eqI) auto
    then have "bit (unat y0) (b - 1)" by (simp add: bit_iff_odd)
    then have "bit y0 (j + (b - 1 - j))" using j assms(3) by (simp add: bit_unsigned_iff)
    then show "bit y5 j" using b5 j assms(3) by (intro b5 [THEN iffD2] exI [of _ "b - 1 - j"]) auto
  qed
  then have "y5 = mask b" using assms(3) by (intro bit_word_eqI) (auto simp: bit_mask_iff)
  moreover have "kroundup32 x = y5 + 1"
    unfolding kroundup32_def Let_def y0_def y1_def y2_def y3_def y4_def y5_def ..
  ultimately show ?thesis by (simp add: mask_eq_exp_minus_1)
qed

lemma capacity_not_small: "capacity b n \<Longrightarrow> \<not> n < 4"
proof -
  assume c: "capacity b n"
  then have "(2 :: nat) ^ 2 \<le> 2 ^ b" by (intro power_increasing) (auto simp: capacity_def)
  then show ?thesis using capacity_unat [OF c] by (simp add: word_less_nat_alt)
qed

lemma pow2_above:
  assumes "(x :: u32) \<noteq> 0"
  obtains b where "b \<le> 32" "unat x \<le> 2 ^ b" "2 ^ b < 2 * unat x"
proof -
  let ?b = "LEAST b. unat x \<le> 2 ^ b"
  have "unat x < 2 ^ 32" using unsigned_less [of x] by simp
  then have x: "unat x \<le> 2 ^ 32" "0 < unat x" using assms by (simp_all add: unat_gt_0)
  have b: "unat x \<le> 2 ^ ?b" "?b \<le> 32" using LeastI [of "\<lambda>b. unat x \<le> 2 ^ b", OF x(1)] Least_le [of "\<lambda>b. unat x \<le> 2 ^ b", OF x(1)] by blast+
  have "2 ^ ?b < 2 * unat x"
  proof (cases ?b)
    case 0
    then show ?thesis using x(2) by simp
  next
    case (Suc c)
    then have "\<not> unat x \<le> 2 ^ c" using not_less_Least [of c "\<lambda>b. unat x \<le> 2 ^ b"] by simp
    then show ?thesis using Suc by simp
  qed
  then show thesis using that b by blast
qed

text \<open>Whatever the request, the capacity is a power of two from 4 to \<open>2 ^ 31\<close>.\<close>

lemma request_capacity: "\<exists>c. capacity c (if kroundup32 nn < 4 then 4 else kroundup32 nn)"
proof (cases "nn = 0")
  case True
  have "kroundup32 0 = 0" by code_simp
  then show ?thesis using True by (intro exI [of _ 2]) (simp add: capacity_def)
next
  case False
  then obtain b where b: "b \<le> 32" "unat nn \<le> 2 ^ b" "2 ^ b < 2 * unat nn" by (rule pow2_above)
  then have k: "kroundup32 nn = 2 ^ b" by (intro kroundup32_pow2)
  show ?thesis
  proof (cases "b = 32")
    case True
    then show ?thesis using k by (intro exI [of _ 2]) (simp add: capacity_def)
  next
    case False
    then have b32: "b < 32" using b(1) by simp
    show ?thesis
    proof (cases "2 \<le> b")
      case True
      then have "capacity b (2 ^ b)" using b32 by (simp add: capacity_def)
      then show ?thesis using capacity_not_small k by auto
    next
      case False
      then have "b = 0 \<or> b = 1" by auto
      then show ?thesis using k by (intro exI [of _ 2]) (auto simp: capacity_def)
    qed
  qed
qed

lemma capacity_grow:
  assumes "capacity b n" "b < 31"
  shows "kroundup32 (n + 1) = 2 ^ Suc b" "capacity (Suc b) (2 ^ Suc b)"
proof -
  have n: "unat n = 2 ^ b" by (rule capacity_unat [OF assms(1)])
  have b: "2 \<le> b" using assms(1) by (simp add: capacity_def)
  have "(2 :: nat) ^ b \<le> 2 ^ 30" using assms(2) by (intro power_increasing) auto
  then have u: "unat (n + 1) = 2 ^ b + 1" by (simp add: unat_word_ariths n)
  have "(1 :: nat) \<le> 2 ^ b" by simp
  then have "unat (n + 1) \<le> 2 ^ Suc b" unfolding u by simp
  then show "kroundup32 (n + 1) = 2 ^ Suc b" using assms(2) u by (intro kroundup32_pow2) auto
  show "capacity (Suc b) (2 ^ Suc b)" using assms b by (simp add: capacity_def)
qed

lemma capacity_same:
  assumes "capacity b n"
  shows "kroundup32 (n - 1) = n"
proof -
  have n: "unat n = 2 ^ b" by (rule capacity_unat [OF assms])
  have b: "2 \<le> b" "b < 32" "n = 2 ^ b" using assms by (simp_all add: capacity_def)
  have "(2 :: nat) ^ 2 \<le> 2 ^ b" by (rule power_increasing [OF b(1)]) simp
  moreover have "n \<noteq> 0" using n by auto
  then have "unat (n - 1) = 2 ^ b - 1" by (simp add: unat_minus_one n)
  ultimately have "kroundup32 (n - 1) = 2 ^ b" using b(2) by (intro kroundup32_pow2) auto
  then show ?thesis using b(3) by simp
qed

lemma capacity_first: "kroundup32 (0 + 1) = 1" "capacity 2 4"
  using kroundup32_pow2 [of 0 1] by (simp_all add: capacity_def)

text \<open>
  The macro \<open>kroundup32\<close> rounds a positive number up to the next power of two; above
  \<open>2 ^ 31\<close> that is \<open>2 ^ 32\<close>, which wraps to zero.
\<close>

lemma kroundup32_next_power:
  assumes "x \<noteq> 0"
  shows "\<exists>b \<le> 32. unat x \<le> 2 ^ b \<and> 2 ^ b < 2 * unat x \<and> kroundup32 x = 2 ^ b"
  by (rule pow2_above [OF assms]) (use kroundup32_pow2 in blast)

lemma kroundup32_next_power_sample:
  "\<exists>b \<le> 32. 100 \<le> (2 :: nat) ^ b \<and> 2 ^ b < (200 :: nat) \<and> kroundup32 100 = 2 ^ b"
  using kroundup32_next_power [of 100] by simp

section \<open>The rehashing\<close>

lemma rehash_probe_stops:
  assumes cap: "capacity c m" and fl: "2 ^ c \<le> 16 * length nf"
    and u: "u < 2 ^ c" "is_empty_at nf (probe_at (2 ^ c) k u)" "\<forall>t < u. \<not> is_empty_at nf (probe_at (2 ^ c) k t)"
  shows "unat i = probe_at (2 ^ c) k s \<Longrightarrow> unat step = s \<Longrightarrow> s \<le> u \<Longrightarrow>
    \<exists>i'. rehash_probe nf (m - 1) i step = Some (Inr i') \<and> unat i' = probe_at (2 ^ c) k u"
proof (induction "u - s" arbitrary: s i step)
  case 0
  have "unat i < 2 ^ c" using 0 by (simp add: probe_at_lt)
  then have "unat i < 16 * length nf" using fl by simp
  then show ?case using 0 u by (subst rehash_probe.simps) (simp add: ac_reads)
next
  case (Suc d)
  have lt: "s < u" using Suc.hyps(2) by simp
  have "2 ^ c \<le> (2 :: nat) ^ 31" using cap by (intro power_increasing) (auto simp: capacity_def)
  then have "s + 1 < 2 ^ 32" using lt u(1) by simp
  note n = probe_next [OF cap Suc.prems(1,2) this]
  have "unat i < 2 ^ c" "\<not> is_empty_at nf (unat i)" using Suc.prems(1) lt u(3) by (simp_all add: probe_at_lt)
  moreover from this have "unat i < 16 * length nf" using fl by simp
  moreover have "\<exists>i'. rehash_probe nf (m - 1) ((i + (step + 1)) AND (m - 1)) (step + 1) = Some (Inr i') \<and>
      unat i' = probe_at (2 ^ c) k u"
    using Suc.hyps(2) lt by (intro Suc.hyps(1) [of "Suc s"] n) simp_all
  ultimately show ?case by (subst rehash_probe.simps) (simp add: ac_reads)
qed

lemma rehash_site:
  assumes cap: "capacity c m" and fl: "2 ^ c \<le> 16 * length nf" and room: "card (occupied nf (2 ^ c)) < 2 ^ c"
  obtains i where "rehash_probe nf (m - 1) (k AND (m - 1)) 0 = Some (Inr i)" "unat i < 2 ^ c"
    "is_empty_at nf (unat i)" "reach c nf (unat k) (unat i)"
proof -
  let ?P = "probe_at (2 ^ c) (unat k)"
  obtain s where s: "s < 2 ^ c" "is_empty_at nf (?P s)" using empty_exists [OF room, of "unat k"] by blast
  define u where "u = (LEAST s. is_empty_at nf (?P s))"
  have u: "is_empty_at nf (?P u)" "\<forall>t < u. \<not> is_empty_at nf (?P t)"
    unfolding u_def using LeastI [of "\<lambda>s. is_empty_at nf (?P s)", OF s(2)] not_less_Least by blast+
  have "u < 2 ^ c" using Least_le [of "\<lambda>s. is_empty_at nf (?P s)", OF s(2)] s(1) by (simp add: u_def)
  from rehash_probe_stops [OF cap fl this u probe_start [OF cap, of k] unat_0]
  obtain i where "rehash_probe nf (m - 1) (k AND (m - 1)) 0 = Some (Inr i)" "unat i = ?P u" by auto
  then show thesis using that u probe_at_lt [of "2 ^ c" "unat k" u] by (auto simp: reach_def)
qed

text \<open>
  The state in the middle of the rehashing: \<open>n\<close> buckets of the old table, \<open>2 ^ c\<close> of the new
  one, in the same arrays; \<open>hand\<close> is the element kicked out last, \<open>C\<close> the contents.
\<close>

definition rehash_inv ::
  "('k \<Rightarrow> u32) \<Rightarrow> nat \<Rightarrow> nat \<Rightarrow> ('k \<times> 'v option) set \<Rightarrow> ('k \<times> 'v option) option \<Rightarrow> u32 list \<Rightarrow> ('k, 'v) khash \<Rightarrow> bool" where
  "rehash_inv hash c n C hand nf h \<longleftrightarrow>
     (let L = live_at (flags h) n; N = occupied nf (2 ^ c) in
     unat (n_buckets h) = n \<and> n \<le> 16 * length (flags h) \<and> 2 ^ c \<le> 16 * length nf \<and>
     max n (2 ^ c) \<le> length (keys h) \<and> max n (2 ^ c) \<le> length (vals h) \<and>
     L \<inter> N = {} \<and> (\<forall>i < 2 ^ c. \<not> is_del_at nf i) \<and>
     keys_ok hash c nf (keys h) N \<and> inj_on ((!) (keys h)) (L \<union> N) \<and> (\<forall>i \<in> L. keys h ! i \<noteq> None) \<and>
     pairs (keys h) (vals h) (L \<union> N) \<union> set_option hand = C \<and>
     (\<forall>k v. hand = Some (k, v) \<longrightarrow> (\<forall>i \<in> L \<union> N. keys h ! i \<noteq> Some k)) \<and>
     card L + card N + card (set_option hand) = unat (kh_size h))"

lemma rehash_invI:
  assumes "unat (n_buckets h) = n" "n \<le> 16 * length (flags h)" "2 ^ c \<le> 16 * length nf"
    and "max n (2 ^ c) \<le> length (keys h)" "max n (2 ^ c) \<le> length (vals h)"
    and "live_at (flags h) n = L" "occupied nf (2 ^ c) = N" "L \<union> N = S" "L \<inter> N = {}"
    and "\<forall>i < 2 ^ c. \<not> is_del_at nf i" "keys_ok hash c nf (keys h) N" "inj_on ((!) (keys h)) S"
    and "\<forall>i \<in> L. keys h ! i \<noteq> None" "pairs (keys h) (vals h) S \<union> set_option hand = C"
    and "\<forall>k v. hand = Some (k, v) \<longrightarrow> (\<forall>i \<in> S. keys h ! i \<noteq> Some k)"
    and "card L + card N + card (set_option hand) = unat (kh_size h)"
  shows "rehash_inv hash c n C hand nf h"
  unfolding rehash_inv_def Let_def using assms by blast

lemma pairs_remove:
  assumes "i \<in> S" "ks ! i = Some k"
  shows "pairs ks vs S = insert (k, vs ! i) (pairs ks vs (S - {i}))"
  using assms by (force simp: pairs_def)

text \<open>The element in hand is put down.\<close>

lemma rehash_put_down:
  assumes inv: "rehash_inv hash c n C (Some (key, val)) nf h" and i: "i < 2 ^ c" "is_empty_at nf i" "i \<notin> live_at (flags h) n"
    and r: "reach c nf (unat (hash key)) i"
    and nf': "length nf' = length nf" "\<forall>j. is_empty_at nf' j \<longleftrightarrow> is_empty_at nf j \<and> j \<noteq> i" "\<forall>j. is_del_at nf' j = is_del_at nf j"
  shows "rehash_inv hash c n C None nf' (h\<lparr>keys := (keys h)[i := Some key], vals := (vals h)[i := val]\<rparr>)"
proof -
  let ?L = "live_at (flags h) n" and ?N = "occupied nf (2 ^ c)" and ?ks = "(keys h)[i := Some key]"
  note v = inv [unfolded rehash_inv_def Let_def]
  have len: "i < length (keys h)" "i < length (vals h)" using v i(1) by auto
  have iN: "i \<notin> ?N" using i(2) by (simp add: occupied_def)
  have N: "occupied nf' (2 ^ c) = insert i ?N" using nf'(2) i(1) by (auto simp: occupied_def)
  have fresh: "\<forall>j \<in> ?L \<union> ?N. keys h ! j \<noteq> Some key" using v by simp
  have U: "?L \<union> insert i ?N = insert i (?L \<union> ?N)" by blast
  have same: "?ks ! j = keys h ! j" if "j \<in> ?L" for j using that i(3) by (cases "j = i") auto
  have "inj_on ((!) (keys h)) (?L \<union> ?N)" using v by blast
  then have inj: "inj_on ((!) ?ks) (?L \<union> insert i ?N)" unfolding U using i(3) iN len(1) fresh by (intro inj_fresh) auto
  have "keys_ok hash c nf (keys h) ?N" using v by blast
  then have ko: "keys_ok hash c nf' ?ks (insert i ?N)"
    using iN len(1) fresh r nf'(2) by (intro keys_ok_fresh [where hash = hash and fl = nf]) auto
  have p: "pairs ?ks ((vals h)[i := val]) (?L \<union> insert i ?N) = C"
    unfolding U using v pairs_fresh [of i "?L \<union> ?N" "keys h" "vals h" key val] i(3) iN len by auto
  have some: "\<forall>j \<in> ?L. ?ks ! j \<noteq> None" using v same by simp
  have disj: "?L \<inter> insert i ?N = {}" using v i(3) by blast
  show ?thesis
    by (rule rehash_invI [where L = ?L and N = "insert i ?N" and S = "?L \<union> insert i ?N"])
      (use v nf' inj ko p iN N some disj in \<open>simp_all del: inj_on_insert\<close>)
qed

text \<open>The element in hand takes the place of one of the old table, which is the next in hand.\<close>

lemma rehash_exchange:
  assumes inv: "rehash_inv hash c n C (Some (key, val)) nf h" and i: "i < 2 ^ c" "is_empty_at nf i" "i \<in> live_at (flags h) n"
    and old: "keys h ! i = Some key'"
    and r: "reach c nf (unat (hash key)) i"
    and nf': "length nf' = length nf" "\<forall>j. is_empty_at nf' j \<longleftrightarrow> is_empty_at nf j \<and> j \<noteq> i" "\<forall>j. is_del_at nf' j = is_del_at nf j"
    and fl': "length fl' = length (flags h)" "\<forall>j. is_empty_at fl' j = is_empty_at (flags h) j"
      "\<forall>j. is_del_at fl' j \<longleftrightarrow> is_del_at (flags h) j \<or> j = i"
  shows "rehash_inv hash c n C (Some (key', vals h ! i)) nf'
     (h\<lparr>flags := fl', keys := (keys h)[i := Some key], vals := (vals h)[i := val]\<rparr>)"
proof -
  let ?L = "live_at (flags h) n" and ?N = "occupied nf (2 ^ c)" and ?ks = "(keys h)[i := Some key]"
  note v = inv [unfolded rehash_inv_def Let_def]
  have len: "i < length (keys h)" "i < length (vals h)" using v i(1) by auto
  have iN: "i \<notin> ?N" using i(2) by (simp add: occupied_def)
  have N: "occupied nf' (2 ^ c) = insert i ?N" using nf'(2) i(1) by (auto simp: occupied_def)
  have L: "live_at fl' n = ?L - {i}" using fl' by (auto simp: live_at_def)
  define S where "S = ?L \<union> ?N - {i}"
  have fresh: "\<forall>j \<in> ?L \<union> ?N. keys h ! j \<noteq> Some key" using v by simp
  have U: "(?L - {i}) \<union> insert i ?N = insert i S" "?L \<union> ?N = insert i S" using i(3) by (auto simp: S_def)
  have iS: "i \<notin> S" by (simp add: S_def)
  have same: "?ks ! j = keys h ! j" if "j \<noteq> i" for j using that by simp
  have injO: "inj_on ((!) (keys h)) (insert i S)" using v U(2) by simp
  then have "inj_on ((!) (keys h)) S" by (simp add: inj_on_insert)
  then have inj: "inj_on ((!) ?ks) (insert i S)" using iS len(1) fresh by (intro inj_fresh) (auto simp: S_def)
  have "keys_ok hash c nf (keys h) ?N" using v by blast
  then have ko: "keys_ok hash c nf' ?ks (insert i ?N)"
    using iN len(1) fresh r nf'(2) by (intro keys_ok_fresh [where hash = hash and fl = nf]) auto
  have "pairs (keys h) (vals h) (insert i S) = insert (key', vals h ! i) (pairs (keys h) (vals h) S)"
    using pairs_remove [of i "insert i S", OF _ old] iS by simp
  then have p: "pairs ?ks ((vals h)[i := val]) (insert i S) \<union> {(key', vals h ! i)} = C"
    using v pairs_fresh [OF iS len, of key val] unfolding U(2) by auto
  have "key' \<noteq> key" using fresh i(3) old by auto
  moreover have "keys h ! j \<noteq> Some key'" if "j \<in> S" for j
    using injO that iS old by (auto simp: inj_on_def)
  ultimately have hand: "\<forall>j \<in> insert i S. ?ks ! j \<noteq> Some key'" using len(1) iS by (auto simp: nth_list_update)
  have some: "\<forall>j \<in> ?L - {i}. ?ks ! j \<noteq> None" using v by simp
  have disj: "(?L - {i}) \<inter> insert i ?N = {}" using v by blast
  have card: "card (?L - {i}) + card (insert i ?N) = card ?L + card ?N"
    using i(3) iN card_Suc_Diff1 [of ?L i] by simp
  show ?thesis
    by (rule rehash_invI [where L = "?L - {i}" and N = "insert i ?N" and S = "insert i S"])
      (use v nf' fl'(1) inj ko p hand some disj card N L U(1) in simp_all)
qed

lemma set_cell_eq: "unat i < length xs \<Longrightarrow> set_cell xs i x = Inr (xs[unat i := x])"
  by (simp add: set_cell_def)

lemma copy_cell_eq: "unat i < length xs \<Longrightarrow> copy_cell xs i = Inr (xs ! unat i)"
  by (simp add: copy_cell_def)

lemma cell_eq: "unat i < length xs \<Longrightarrow> xs ! unat i = Some x \<Longrightarrow> cell xs i = Inr x"
  by (simp add: cell_def)

text \<open>One turn of the kick-out loop.\<close>

lemma kick_step_ok:
  assumes cap: "capacity c m" and inv: "rehash_inv hash c n C (Some (key, val)) nf h" and room: "unat (kh_size h) < 2 ^ c"
  obtains (placed) nf' h' where "kick_step hash (m - 1) key val nf h = Inr (Inl (nf', h'))"
      "rehash_inv hash c n C None nf' h'" "kh_size h' = kh_size h" "live_at (flags h') n = live_at (flags h) n"
    | (kicked) key' val' nf' h' where "kick_step hash (m - 1) key val nf h = Inr (Inr (key', val', nf', h'))"
      "rehash_inv hash c n C (Some (key', val')) nf' h'" "kh_size h' = kh_size h"
      "live_at (flags h') n \<subset> live_at (flags h) n"
proof -
  note v = inv [unfolded rehash_inv_def Let_def]
  have "card (occupied nf (2 ^ c)) < 2 ^ c" using v room by simp
  then obtain i where i: "rehash_probe nf (m - 1) (hash key AND (m - 1)) 0 = Some (Inr i)" "unat i < 2 ^ c"
    "is_empty_at nf (unat i)" "reach c nf (unat (hash key)) (unat i)"
    using rehash_site [OF cap] v by blast
  have len: "unat i < length (keys h)" "unat i < length (vals h)" "unat i < 16 * length nf" using v i(2) by auto
  obtain nf' where nf': "ac_set_isempty_false nf i = Inr nf'" "length nf' = length nf"
    "\<forall>j. is_empty_at nf' j \<longleftrightarrow> is_empty_at nf j \<and> j \<noteq> unat i" "\<forall>j. is_del_at nf' j = is_del_at nf j"
    by (rule ac_set_isempty_false_at [OF len(3)])
  have "i < n_buckets h \<longleftrightarrow> unat i < n" using v by (simp add: word_less_nat_alt)
  then have kick: "(if i < n_buckets h then bindR (ac_iseither (flags h) i) (\<lambda>e. Inr (\<not> e)) else Inr False) =
      Inr (unat i \<in> live_at (flags h) n)"
    using v by (auto simp: ac_reads live_at_def)
  show thesis
  proof (cases "unat i \<in> live_at (flags h) n")
    case False
    then have "kick_step hash (m - 1) key val nf h =
        Inr (Inl (nf', h\<lparr>keys := (keys h)[unat i := Some key], vals := (vals h)[unat i := val]\<rparr>))"
      unfolding kick_step_def i(1) run_loop_def
      by (simp add: kick nf'(1) set_cell_eq len)
    then show thesis
      using placed rehash_put_down [OF inv i(2,3) False i(4) nf'(2-4)] by simp
  next
    case True
    then obtain key' where old: "keys h ! unat i = Some key'" using v by blast
    have "unat i < 16 * length (flags h)" using True v by (auto simp: live_at_def)
    then obtain fl' where fl': "ac_set_isdel_true (flags h) i = Inr fl'" "length fl' = length (flags h)"
      "\<forall>j. is_empty_at fl' j = is_empty_at (flags h) j" "\<forall>j. is_del_at fl' j \<longleftrightarrow> is_del_at (flags h) j \<or> j = unat i"
      by (rule ac_set_isdel_true_at)
    have "kick_step hash (m - 1) key val nf h = Inr (Inr (key', vals h ! unat i, nf',
        h\<lparr>flags := fl', keys := (keys h)[unat i := Some key], vals := (vals h)[unat i := val]\<rparr>))"
      unfolding kick_step_def i(1) run_loop_def
      by (simp add: kick True nf'(1) set_cell_eq copy_cell_eq cell_eq [OF len(1) old] len fl'(1))
    moreover have "live_at fl' n = live_at (flags h) n - {unat i}" using fl'(3,4) by (auto simp: live_at_def)
    then have "live_at fl' n \<subset> live_at (flags h) n" using True by auto
    ultimately show thesis
      using kicked rehash_exchange [OF inv i(2,3) True old i(4) nf'(2-4) fl'(2-4)] by simp
  qed
qed

text \<open>The loop ends, since every turn but the last takes an element out of the old table.\<close>

lemma kick_loop_ok:
  assumes cap: "capacity c m"
  shows "rehash_inv hash c n C (Some (key, val)) nf h \<Longrightarrow> unat (kh_size h) < 2 ^ c \<Longrightarrow>
    \<exists>nf' h'. kick_loop hash (m - 1) key val nf h = Some (Inr (nf', h')) \<and> rehash_inv hash c n C None nf' h' \<and>
      kh_size h' = kh_size h \<and> live_at (flags h') n \<subseteq> live_at (flags h) n"
proof (induction "card (live_at (flags h) n)" arbitrary: key val nf h rule: less_induct)
  case less
  show ?case
  proof (cases rule: kick_step_ok [OF cap less.prems, case_names placed kicked])
    case (placed nf' h')
    then show ?thesis by (subst kick_loop.simps) simp
  next
    case (kicked key' val' nf' h')
    have "card (live_at (flags h') n) < card (live_at (flags h) n)" using kicked(4) by (intro psubset_card_mono) simp_all
    from less.hyps [OF this kicked(2)] less.prems(2) kicked(3)
    obtain nf2 h2 where "kick_loop hash (m - 1) key' val' nf' h' = Some (Inr (nf2, h2))" "rehash_inv hash c n C None nf2 h2"
      "kh_size h2 = kh_size h" "live_at (flags h2) n \<subseteq> live_at (flags h') n" by auto
    then show ?thesis using kicked(1,4) by (subst kick_loop.simps) auto
  qed
qed

lemma rehash_bucket_ok:
  assumes cap: "capacity c m" and inv: "rehash_inv hash c n C None nf h" and room: "unat (kh_size h) < 2 ^ c" and j: "unat j < n"
  shows "\<exists>nf' h'. rehash_bucket hash m j (nf, h) = Inr (nf', h') \<and> rehash_inv hash c n C None nf' h' \<and>
      kh_size h' = kh_size h \<and> live_at (flags h') n \<subseteq> live_at (flags h) n - {unat j}"
proof -
  let ?L = "live_at (flags h) n" and ?N = "occupied nf (2 ^ c)"
  note v = inv [unfolded rehash_inv_def Let_def]
  have fl: "unat j < 16 * length (flags h)" using v j by simp
  have e: "ac_iseither (flags h) j = Inr (unat j \<notin> ?L)" using ac_reads(3) [OF fl] j by (auto simp: live_at_def)
  show ?thesis
  proof (cases "unat j \<in> ?L")
    case False
    then show ?thesis using inv by (simp add: rehash_bucket_def e)
  next
    case True
    then obtain key where key: "keys h ! unat j = Some key" using v by blast
    have len: "unat j < length (keys h)" "unat j < length (vals h)" using v j by auto
    obtain fl' where fl': "ac_set_isdel_true (flags h) j = Inr fl'" "length fl' = length (flags h)"
      "\<forall>i. is_empty_at fl' i = is_empty_at (flags h) i" "\<forall>i. is_del_at fl' i \<longleftrightarrow> is_del_at (flags h) i \<or> i = unat j"
      by (rule ac_set_isdel_true_at [OF fl])
    have L: "live_at fl' n = ?L - {unat j}" using fl'(3,4) by (auto simp: live_at_def)
    define S where "S = ?L \<union> ?N - {unat j}"
    have "unat j \<notin> ?N" using v True by blast
    then have U: "(?L - {unat j}) \<union> ?N = S" "?L \<union> ?N = insert (unat j) S" using True by (auto simp: S_def)
    have inj: "inj_on ((!) (keys h)) (insert (unat j) S)" using v U(2) by simp
    have fresh: "\<forall>i \<in> S. keys h ! i \<noteq> Some key"
    proof
      fix i assume "i \<in> S"
      then have "i \<noteq> unat j" "i \<in> insert (unat j) S" by (auto simp: S_def)
      then show "keys h ! i \<noteq> Some key" using inj key by (metis inj_onD insertI1)
    qed
    have "pairs (keys h) (vals h) (insert (unat j) S) = insert (key, vals h ! unat j) (pairs (keys h) (vals h) S)"
      using pairs_remove [of "unat j" "insert (unat j) S", OF _ key] by (simp add: S_def)
    then have p: "pairs (keys h) (vals h) S \<union> {(key, vals h ! unat j)} = C" using v unfolding U(2) by auto
    have inj': "inj_on ((!) (keys h)) S" using inj by (simp add: inj_on_insert)
    have disj: "(?L - {unat j}) \<inter> ?N = {}" using v by blast
    have card: "card (?L - {unat j}) + card ?N + 1 = card ?L + card ?N" using True card_Suc_Diff1 [of ?L "unat j"] by simp
    have inv': "rehash_inv hash c n C (Some (key, vals h ! unat j)) nf (h\<lparr>flags := fl'\<rparr>)"
      by (rule rehash_invI [where L = "?L - {unat j}" and N = ?N and S = S])
        (use v fl'(2) inj' p fresh disj card L U(1) in simp_all)
    from kick_loop_ok [OF cap this] room L
    obtain nf' h' where "kick_loop hash (m - 1) key (vals h ! unat j) nf (h\<lparr>flags := fl'\<rparr>) = Some (Inr (nf', h'))"
      "rehash_inv hash c n C None nf' h'" "kh_size h' = kh_size h" "live_at (flags h') n \<subseteq> ?L - {unat j}"
      by auto
    then show ?thesis using True fl'(1) by (simp add: rehash_bucket_def e cell_eq [OF len(1) key] copy_cell_eq len(2) run_loop_def)
  qed
qed

lemma rehash_from_ok:
  assumes cap: "capacity c m"
  shows "j \<le> n \<Longrightarrow> n < 2 ^ 32 \<Longrightarrow> rehash_inv hash c n C None nf h \<Longrightarrow> unat (kh_size h) < 2 ^ c \<Longrightarrow>
    live_at (flags h) n \<subseteq> {j ..< n} \<Longrightarrow>
    \<exists>nf' h'. rehash_from hash m n j (nf, h) = Inr (nf', h') \<and> rehash_inv hash c n C None nf' h' \<and>
      kh_size h' = kh_size h \<and> live_at (flags h') n = {}"
proof (induction "n - j" arbitrary: j nf h)
  case 0
  then show ?case by (subst rehash_from.simps) auto
next
  case (Suc d)
  have j: "j < n" "unat (of_nat j :: u32) = j" using Suc by (auto simp: unat_of_nat take_bit_nat_eq_self)
  from rehash_bucket_ok [OF cap Suc.prems(3,4), of "of_nat j"] j
  obtain nf1 h1 where 1: "rehash_bucket hash m (of_nat j) (nf, h) = Inr (nf1, h1)" "rehash_inv hash c n C None nf1 h1"
    "kh_size h1 = kh_size h" "live_at (flags h1) n \<subseteq> live_at (flags h) n - {j}" by auto
  have "live_at (flags h1) n \<subseteq> {Suc j ..< n}" using 1(4) Suc.prems(5) by fastforce
  then have "\<exists>nf' h'. rehash_from hash m n (Suc j) (nf1, h1) = Inr (nf', h') \<and> rehash_inv hash c n C None nf' h' \<and>
      kh_size h' = kh_size h1 \<and> live_at (flags h') n = {}"
    using Suc.hyps(2) Suc.prems(2,4) j(1) 1(2,3) by (intro Suc.hyps(1)) simp_all
  then show ?case using 1(1,3) j(1) by (subst rehash_from.simps) auto
qed

end
