(* ===== verification/KeyTable.thy ===== *)
theory KeyTable
  imports Prelude
begin

text \<open>
  What the client of a table of keys and values relies on: the table represents a finite map,
  and binding, removal and search do to it what they do to the map, as long as the number of
  keys stays below a limit.  A sequence of operations therefore has the results of the map.
\<close>

datatype ('k, 'v) table_op = Store 'k 'v | Remove 'k

fun table_run :: "('h \<Rightarrow> 'k \<Rightarrow> 'v \<Rightarrow> 'h res) \<Rightarrow> ('h \<Rightarrow> 'k \<Rightarrow> 'h res) \<Rightarrow> ('k, 'v) table_op list \<Rightarrow> 'h \<Rightarrow> 'h res" where
  "table_run store remove [] h = Inr h"
| "table_run store remove (Store k v # ops) h = bindR (store h k v) (table_run store remove ops)"
| "table_run store remove (Remove k # ops) h = bindR (remove h k) (table_run store remove ops)"

fun map_run :: "('k, 'v) table_op list \<Rightarrow> ('k \<rightharpoonup> 'v) \<Rightarrow> ('k \<rightharpoonup> 'v)" where
  "map_run [] m = m"
| "map_run (Store k v # ops) m = map_run ops (m(k \<mapsto> v))"
| "map_run (Remove k # ops) m = map_run ops (m(k := None))"

lemma card_dom_upd: "finite (dom m) \<Longrightarrow> card (dom (m(k \<mapsto> v))) \<le> Suc (card (dom m))"
  by (simp add: card_insert_if)

lemma card_dom_del: "finite (dom m) \<Longrightarrow> card (dom (m(k := None))) \<le> card (dom m)"
  by (simp add: card_Diff1_le)

locale key_table =
  fixes rep :: "'h \<Rightarrow> ('k \<rightharpoonup> 'v) \<Rightarrow> bool"
    and empty_table :: 'h
    and store :: "'h \<Rightarrow> 'k \<Rightarrow> 'v \<Rightarrow> 'h res"
    and remove :: "'h \<Rightarrow> 'k \<Rightarrow> 'h res"
    and find_value :: "'h \<Rightarrow> 'k \<Rightarrow> 'v option res"
    and limit :: nat
  assumes rep_empty: "rep empty_table Map.empty"
    and rep_finite: "rep h m \<Longrightarrow> finite (dom m)"
    and store_rep: "rep h m \<Longrightarrow> card (dom m) < limit \<Longrightarrow> \<exists>h'. store h k v = Inr h' \<and> rep h' (m(k \<mapsto> v))"
    and remove_rep: "rep h m \<Longrightarrow> \<exists>h'. remove h k = Inr h' \<and> rep h' (m(k := None))"
    and find_rep: "rep h m \<Longrightarrow> find_value h k = Inr (m k)"
begin

lemma run_rep:
  "rep h m \<Longrightarrow> card (dom m) + length ops \<le> limit \<Longrightarrow>
   \<exists>h'. table_run store remove ops h = Inr h' \<and> rep h' (map_run ops m)"
proof (induction ops arbitrary: h m)
  case (Cons op ops)
  note fin = rep_finite [OF Cons.prems(1)]
  show ?case
  proof (cases op)
    case (Store k v)
    obtain h1 where h1: "store h k v = Inr h1" "rep h1 (m(k \<mapsto> v))"
      using store_rep [OF Cons.prems(1), of k v] Cons.prems(2) by auto
    have "card (dom (m(k \<mapsto> v))) + length ops \<le> limit"
      using card_dom_upd [OF fin, of k v] Cons.prems(2) by simp
    from Cons.IH [OF h1(2) this] show ?thesis unfolding Store table_run.simps map_run.simps h1(1) bindR_simps .
  next
    case (Remove k)
    obtain h1 where h1: "remove h k = Inr h1" "rep h1 (m(k := None))"
      using remove_rep [OF Cons.prems(1), of k] by blast
    have "card (dom (m(k := None))) + length ops \<le> limit"
      using card_dom_del [OF fin, of k] Cons.prems(2) by simp
    from Cons.IH [OF h1(2) this] show ?thesis unfolding Remove table_run.simps map_run.simps h1(1) bindR_simps .
  qed
qed simp

lemma run_find:
  assumes "length ops \<le> limit"
  shows "\<exists>h. table_run store remove ops empty_table = Inr h \<and>
    (\<forall>k. find_value h k = Inr (map_run ops Map.empty k))"
  using run_rep [OF rep_empty, of ops] assms find_rep by auto

end

end
