(* ===== verification/KhashMap.thy ===== *)
theory KhashMap
  imports KhashResize KeyTable
begin

text \<open>
  Resizing and insertion as a whole, and the hash table as a finite map: \<open>kh_rep hash h m\<close>
  says that the well-formed table \<open>h\<close> holds exactly the bindings of \<open>m\<close>.
\<close>

section \<open>Resizing\<close>

lemma krealloc_length [simp]: "length (krealloc xs n) = unat n"
  by (simp add: krealloc_def)

lemma krealloc_nth: "i < length xs \<Longrightarrow> i < unat n \<Longrightarrow> krealloc xs n ! i = xs ! i"
  by (simp add: krealloc_def nth_append)

lemma keys_ok_cong:
  assumes "\<forall>i \<in> S. ks' ! i = ks ! i"
  shows "keys_ok hash b fl ks' S = keys_ok hash b fl ks S" "pairs ks' vs S = pairs ks vs S"
proof -
  show "keys_ok hash b fl ks' S = keys_ok hash b fl ks S" using assms by (auto simp: keys_ok_def inj_on_def)
  show "pairs ks' vs S = pairs ks vs S" unfolding pairs_def by (rule Collect_cong) (metis assms)
qed

lemma pairs_cong: "\<forall>i \<in> S. vs' ! i = vs ! i \<Longrightarrow> pairs ks vs' S = pairs ks vs S"
  by (force simp: pairs_def)

lemma rehash_start:
  assumes wf: "kh_wf hash h" and cap: "capacity c m"
    and len: "2 ^ c \<le> length (keys h)" "2 ^ c \<le> length (vals h)"
  shows "rehash_inv hash c (unat (n_buckets h)) (contents h) None (empty_flags m) h"
proof -
  let ?L = "live_at (flags h) (unat (n_buckets h))"
  have N: "occupied (empty_flags m) (2 ^ c) = {}" using empty_flags_at(2) [OF cap] by (auto simp: occupied_def)
  have nd: "\<forall>i < 2 ^ c. \<not> is_del_at (empty_flags m) i" using empty_flags_at(3) [OF cap] by blast
  have p: "pairs (keys h) (vals h) ?L = contents h" by (simp add: contents_def)
  show ?thesis
  proof (cases "no_table h")
    case True
    then have "unat (n_buckets h) = 0" "unat (kh_size h) = 0" "?L = {}" by (simp_all add: no_table_def live_at_def)
    then show ?thesis
      using len p by (intro rehash_invI [OF refl _ empty_flags_at(1) [OF cap] _ _ refl N refl _ nd])
        (simp_all add: keys_ok_def)
  next
    case False
    then obtain b where "table_ok hash b h" using wf by (auto simp: kh_wf_def)
    then have t: "capacity b (n_buckets h)" "2 ^ b \<le> 16 * length (flags h)" "2 ^ b \<le> length (keys h)"
      "2 ^ b \<le> length (vals h)" "keys_ok hash b (flags h) (keys h) (live_at (flags h) (2 ^ b))"
      "card (live_at (flags h) (2 ^ b)) = unat (kh_size h)" by (simp_all add: table_ok_def)
    note n = capacity_unat [OF t(1)]
    have "inj_on ((!) (keys h)) ?L" "\<forall>i \<in> ?L. keys h ! i \<noteq> None" using t(5) n by (auto simp: keys_ok_def)
    then show ?thesis
      using len p t n by (intro rehash_invI [OF refl _ empty_flags_at(1) [OF cap] _ _ refl N refl _ nd])
        (simp_all add: keys_ok_def [of _ _ _ _ "{}"])
  qed
qed

lemma kh_rehash_ok:
  assumes wf: "kh_wf hash h" and cap: "capacity c m" and room: "kh_size h < ac_hash_upper m"
    and len: "2 ^ c \<le> length (keys h)" "2 ^ c \<le> length (vals h)"
    and shrink: "m < n_buckets h \<longrightarrow> ok Keys_Shrink \<and> ok Vals_Shrink"
  obtains h' where "kh_rehash hash ok (empty_flags m) m h = Inr h'" "table_ok hash c h'"
    "contents h' = contents h" "n_buckets h' = m" "kh_size h' = kh_size h" "n_occupied h' = kh_size h"
proof -
  let ?n = "unat (n_buckets h)"
  have size: "unat (kh_size h) < 2 ^ c" "unat (kh_size h) \<le> unat (ac_hash_upper m)"
    using room upper_unat(2) [OF cap] by (simp_all add: word_less_nat_alt)
  note inv = rehash_start [OF wf cap len]
  have "?n < 2 ^ 32" using unsigned_less [of "n_buckets h"] by simp
  moreover have "live_at (flags h) ?n \<subseteq> {0 ..< ?n}" by (auto simp: live_at_def)
  ultimately obtain nf h1 where 1: "rehash_from hash m ?n 0 (empty_flags m, h) = Inr (nf, h1)"
    "rehash_inv hash c ?n (contents h) None nf h1" "kh_size h1 = kh_size h" "live_at (flags h1) ?n = {}"
    using rehash_from_ok [OF cap _ _ inv size(1)] by blast
  let ?N = "occupied nf (2 ^ c)"
  note v = 1(2) [unfolded rehash_inv_def Let_def 1(4)]
  have live: "live_at nf (2 ^ c) = ?N" using v by (auto simp: live_at_def occupied_def)
  have nm: "unat m = 2 ^ c" by (rule capacity_unat [OF cap])
  define ks vs where "ks = (if m < n_buckets h1 then krealloc (keys h1) m else keys h1)"
    and "vs = (if m < n_buckets h1 then krealloc (vals h1) m else vals h1)"
  have "unat (n_buckets h1) = ?n" using v by blast
  then have nb: "n_buckets h1 = n_buckets h" by (rule unsigned_word_eqI)
  have sub: "?N \<subseteq> {..< 2 ^ c}" by (rule live_occupied(2))
  have k: "2 ^ c \<le> length ks" "2 ^ c \<le> length vs" "\<forall>i \<in> ?N. ks ! i = keys h1 ! i" "\<forall>i \<in> ?N. vs ! i = vals h1 ! i"
    using v nm sub by (auto simp: ks_def vs_def intro!: krealloc_nth)
  let ?h = "h1\<lparr>keys := ks, vals := vs, flags := nf, n_buckets := m, n_occupied := kh_size h,
    upper_bound := ac_hash_upper m\<rparr>"
  have r: "kh_rehash hash ok (empty_flags m) m h = Inr ?h"
    using 1(1,3) shrink nb by (simp add: kh_rehash_def ks_def vs_def)
  have "keys_ok hash c nf ks ?N" using v keys_ok_cong(1) [OF k(3)] by simp
  moreover have "card ?N = unat (kh_size h)" using v 1(3) by simp
  ultimately have ok: "table_ok hash c ?h"
    using cap v k(1,2) size(2) 1(3) by (simp add: table_ok_def live word_le_nat_alt)
  have "pairs ks vs ?N = pairs (keys h1) (vals h1) ?N"
    by (simp only: keys_ok_cong(2) [OF k(3)] pairs_cong [OF k(4)])
  then have "contents ?h = contents h" using v unfolding contents_def by (simp add: nm live)
  then show thesis using that [OF r ok] 1(3) by simp
qed

lemma table_occupied: "table_ok hash b h \<Longrightarrow> n_occupied h \<le> ac_hash_upper (n_buckets h)"
  unfolding table_ok_def by metis

lemma contents_grown:
  assumes "kh_wf hash h" "n_buckets h < m"
  shows "kh_wf hash (h\<lparr>keys := krealloc (keys h) m\<rparr>)" "contents (h\<lparr>keys := krealloc (keys h) m\<rparr>) = contents h"
    "kh_wf hash (h\<lparr>keys := krealloc (keys h) m, vals := krealloc (vals h) m\<rparr>)"
    "contents (h\<lparr>keys := krealloc (keys h) m, vals := krealloc (vals h) m\<rparr>) = contents h"
proof -
  have "(kh_wf hash (h\<lparr>keys := krealloc (keys h) m\<rparr>) \<and> contents (h\<lparr>keys := krealloc (keys h) m\<rparr>) = contents h) \<and>
    kh_wf hash (h\<lparr>keys := krealloc (keys h) m, vals := krealloc (vals h) m\<rparr>) \<and>
    contents (h\<lparr>keys := krealloc (keys h) m, vals := krealloc (vals h) m\<rparr>) = contents h"
  proof (cases "no_table h")
    case True
    then show ?thesis by (simp add: no_table_contents kh_wf_def no_table_def contents_def live_at_def pairs_def)
  next
    case False
    then obtain b where t: "table_ok hash b h" using assms(1) by (auto simp: kh_wf_def)
    then have b: "capacity b (n_buckets h)" "2 ^ b \<le> length (keys h)" "2 ^ b \<le> length (vals h)" by (simp_all add: table_ok_def)
    note n = capacity_unat [OF b(1)]
    have m: "2 ^ b \<le> unat m" using assms(2) n by (simp add: word_less_nat_alt)
    let ?L = "live_at (flags h) (2 ^ b)"
    have lt: "i < 2 ^ b" if "i \<in> ?L" for i using that by (simp add: live_at_def)
    have k: "\<forall>i \<in> ?L. krealloc (keys h) m ! i = keys h ! i"
      using b(2) m by (auto intro!: krealloc_nth dest!: lt)
    have w: "\<forall>i \<in> ?L. krealloc (vals h) m ! i = vals h ! i"
      using b(3) m by (auto intro!: krealloc_nth dest!: lt)
    have "table_ok hash b (h\<lparr>keys := krealloc (keys h) m\<rparr>)"
      "table_ok hash b (h\<lparr>keys := krealloc (keys h) m, vals := krealloc (vals h) m\<rparr>)"
      using t m table_occupied [OF t] by (simp_all add: table_ok_def keys_ok_cong(1) [OF k])
    then show ?thesis
      by (auto simp: kh_wf_def contents_def n keys_ok_cong(2) [OF k] pairs_cong [OF w])
  qed
  then show "kh_wf hash (h\<lparr>keys := krealloc (keys h) m\<rparr>)" "contents (h\<lparr>keys := krealloc (keys h) m\<rparr>) = contents h"
    "kh_wf hash (h\<lparr>keys := krealloc (keys h) m, vals := krealloc (vals h) m\<rparr>)"
    "contents (h\<lparr>keys := krealloc (keys h) m, vals := krealloc (vals h) m\<rparr>) = contents h" by blast+
qed

lemma kh_resize_code:
  assumes "m = (if kroundup32 nn < 4 then 4 else kroundup32 nn)"
  shows "kh_resize hash ok h nn =
     (if ac_hash_upper m \<le> kh_size h then Inr (True, h)
      else if \<not> ok Flags_Malloc then Inr (False, h)
      else if n_buckets h < m then
        if \<not> ok Keys_Grow then Inr (False, h)
        else if \<not> ok Vals_Grow then Inr (False, h\<lparr>keys := krealloc (keys h) m\<rparr>)
        else bindR (kh_rehash hash ok (empty_flags m) m
          (h\<lparr>keys := krealloc (keys h) m, vals := krealloc (vals h) m\<rparr>)) (\<lambda>h. Inr (True, h))
      else bindR (kh_rehash hash ok (empty_flags m) m h) (\<lambda>h. Inr (True, h)))"
  unfolding kh_resize_def Let_def assms [symmetric] by simp

text \<open>
  \<open>kh_resize\<close> keeps the contents; when the allocations succeed and the elements fit, the table
  has the new capacity and no deleted bucket.
\<close>

lemma kh_resize_ok:
  assumes wf: "kh_wf hash h" and m: "m = (if kroundup32 nn < 4 then 4 else kroundup32 nn)" and cap: "capacity c m"
    and shrink: "m < n_buckets h \<longrightarrow> ok Keys_Shrink \<and> ok Vals_Shrink"
  obtains d h' where "kh_resize hash ok h nn = Inr (d, h')" "kh_wf hash h'" "contents h' = contents h"
    "kh_size h' = kh_size h"
    "kh_size h < ac_hash_upper m \<Longrightarrow> d \<Longrightarrow> table_ok hash c h' \<and> n_buckets h' = m \<and> n_occupied h' = kh_size h"
    "ok Flags_Malloc \<Longrightarrow> ok Keys_Grow \<Longrightarrow> ok Vals_Grow \<Longrightarrow> d"
proof (cases "kh_size h < ac_hash_upper m")
  case False
  then have "kh_resize hash ok h nn = Inr (True, h)" by (simp add: kh_resize_code [OF m] not_less)
  then show thesis by (rule that) (use wf False in auto)
next
  case room: True
  note nm = capacity_unat [OF cap]
  show thesis
  proof (cases "ok Flags_Malloc \<and> (n_buckets h < m \<longrightarrow> ok Keys_Grow \<and> ok Vals_Grow)")
    case False
    have g: "kh_wf hash (h\<lparr>keys := krealloc (keys h) m\<rparr>)" "contents (h\<lparr>keys := krealloc (keys h) m\<rparr>) = contents h"
      if "n_buckets h < m" using contents_grown [OF wf that] by simp_all
    consider "\<not> ok Flags_Malloc \<or> (n_buckets h < m \<and> \<not> ok Keys_Grow)"
      | "ok Flags_Malloc" "n_buckets h < m" "ok Keys_Grow" "\<not> ok Vals_Grow" using False by blast
    then show thesis
    proof cases
      case 1
      then have "kh_resize hash ok h nn = Inr (False, h)" using room by (auto simp: kh_resize_code [OF m] not_le)
      then show thesis by (rule that) (use wf 1 False in auto)
    next
      case 2
      then have "kh_resize hash ok h nn = Inr (False, h\<lparr>keys := krealloc (keys h) m\<rparr>)"
        using room by (simp add: kh_resize_code [OF m] not_le)
      then show thesis by (rule that) (use g 2 in auto)
    qed
  next
    case True
    define h1 where "h1 = (if n_buckets h < m then h\<lparr>keys := krealloc (keys h) m, vals := krealloc (vals h) m\<rparr> else h)"
    have wf1: "kh_wf hash h1" "contents h1 = contents h" "kh_size h1 = kh_size h" "n_buckets h1 = n_buckets h"
      using contents_grown [OF wf] wf by (auto simp: h1_def)
    have len: "2 ^ c \<le> length (keys h1) \<and> 2 ^ c \<le> length (vals h1)"
    proof (cases "n_buckets h < m")
      case True
      then show ?thesis by (simp only: h1_def) (simp add: nm)
    next
      case False
      then have "2 ^ c \<le> unat (n_buckets h)" using nm by (simp only: not_less word_le_nat_alt)
      moreover obtain b where b: "table_ok hash b h" using wf calculation by (auto simp: kh_wf_def no_table_def)
      then have "unat (n_buckets h) \<le> length (keys h)" "unat (n_buckets h) \<le> length (vals h)"
        using capacity_unat [of b "n_buckets h"] by (simp_all add: table_ok_def)
      ultimately show ?thesis using False by (simp add: h1_def)
    qed
    have room1: "kh_size h1 < ac_hash_upper m" using room wf1(3) by (simp only:)
    have shrink1: "m < n_buckets h1 \<longrightarrow> ok Keys_Shrink \<and> ok Vals_Shrink" using shrink wf1(4) by (simp only:)
    obtain h' where h': "kh_rehash hash ok (empty_flags m) m h1 = Inr h'" "table_ok hash c h'" "contents h' = contents h1"
      "n_buckets h' = m" "kh_size h' = kh_size h1" "n_occupied h' = kh_size h1"
      by (rule kh_rehash_ok [OF wf1(1) cap room1 conjunct1 [OF len] conjunct2 [OF len] shrink1])
    have "kh_resize hash ok h nn = Inr (True, h')"
      using True room h'(1) by (auto simp: kh_resize_code [OF m] h1_def not_le)
    then show thesis by (rule that) (use h' wf1 in \<open>auto simp: kh_wf_def\<close>)
  qed
qed

text \<open>
  The two allocations of the shrinking are not checked: when one fails, its array is gone, and
  otherwise the result is the one with both.
\<close>

definition with_shrink :: "(kh_alloc \<Rightarrow> bool) \<Rightarrow> kh_alloc \<Rightarrow> bool" where
  "with_shrink ok a \<longleftrightarrow> a = Keys_Shrink \<or> a = Vals_Shrink \<or> ok a"

lemma kh_rehash_loses:
  assumes "kh_rehash hash (with_shrink ok) nf m h = Inr h'"
  obtains "kh_rehash hash ok nf m h = Inr h'"
  | h'' where "kh_rehash hash ok nf m h = Inr h''" "kh_size h'' = kh_size h'"
      "\<not> ok Keys_Shrink \<and> keys h'' = [] \<or> \<not> ok Vals_Shrink \<and> vals h'' = []"
proof -
  obtain nf1 h1 where r: "rehash_from hash m (unat (n_buckets h)) 0 (nf, h) = Inr (nf1, h1)"
    using assms by (auto simp: kh_rehash_def)
  show thesis
  proof (cases "m < n_buckets h1 \<and> \<not> (ok Keys_Shrink \<and> ok Vals_Shrink)")
    case True
    then show thesis using assms r
      by (intro that(2) [of "h1\<lparr>keys := (if ok Keys_Shrink then krealloc (keys h1) m else []),
          vals := (if ok Vals_Shrink then krealloc (vals h1) m else []), flags := nf1, n_buckets := m,
          n_occupied := kh_size h1, upper_bound := ac_hash_upper m\<rparr>"])
        (auto simp: kh_rehash_def with_shrink_def)
  next
    case False
    then show thesis using assms r by (intro that(1)) (auto simp: kh_rehash_def with_shrink_def)
  qed
qed

lemma kh_resize_any:
  assumes wf: "kh_wf hash h" and m: "m = (if kroundup32 nn < 4 then 4 else kroundup32 nn)" and cap: "capacity c m"
  obtains d h' where "kh_resize hash ok h nn = Inr (d, h')" "kh_size h' = kh_size h"
    "ok Flags_Malloc \<and> ok Keys_Grow \<and> ok Vals_Grow \<longrightarrow> d"
    "kh_wf hash h' \<and> contents h' = contents h \<or>
     m < n_buckets h \<and> d \<and> (\<not> ok Keys_Shrink \<and> keys h' = [] \<or> \<not> ok Vals_Shrink \<and> vals h' = [])"
proof (cases "m < n_buckets h")
  case False
  with kh_resize_ok [OF wf m cap, of ok] that show thesis by metis
next
  case True
  have "with_shrink ok Keys_Shrink \<and> with_shrink ok Vals_Shrink" by (simp add: with_shrink_def)
  with kh_resize_ok [OF wf m cap, of "with_shrink ok"] obtain d h' where
    r: "kh_resize hash (with_shrink ok) h nn = Inr (d, h')" "kh_wf hash h'" "contents h' = contents h" "kh_size h' = kh_size h"
    by metis
  have up: "\<not> n_buckets h < m" using True by simp
  show thesis
  proof (cases "ac_hash_upper m \<le> kh_size h \<or> \<not> ok Flags_Malloc")
    case True
    then have "kh_resize hash ok h nn = Inr (ac_hash_upper m \<le> kh_size h, h)"
      by (auto simp: kh_resize_code [OF m])
    then show thesis using that True wf by blast
  next
    case False
    then have c: "kh_resize hash ok h nn = bindR (kh_rehash hash ok (empty_flags m) m h) (\<lambda>h. Inr (True, h))"
      if "ok Flags_Malloc" for ok :: "kh_alloc \<Rightarrow> bool" using that up by (simp add: kh_resize_code [OF m])
    have "with_shrink ok Flags_Malloc" "ok Flags_Malloc" using False by (simp_all add: with_shrink_def)
    note c = c [where ok = "with_shrink ok", OF this(1)] c [where ok = ok, OF this(2)]
    have "kh_rehash hash (with_shrink ok) (empty_flags m) m h = Inr h'" using r(1) c(1) by simp
    then show thesis
    proof (cases rule: kh_rehash_loses)
      case 1
      then have "kh_resize hash ok h nn = Inr (True, h')" using c(2) by simp
      then show thesis using that r by blast
    next
      case (2 h'')
      then have "kh_resize hash ok h nn = Inr (True, h'')" using c(2) by simp
      then show thesis using that 2 r(4) True by metis
    qed
  qed
qed

section \<open>Insertion\<close>

lemma table_size_le:
  assumes "table_ok hash b h"
  shows "unat (kh_size h) \<le> unat (n_occupied h)" "kh_size h \<le> ac_hash_upper (n_buckets h)"
proof -
  have "card (live_at (flags h) (2 ^ b)) \<le> card (occupied (flags h) (2 ^ b))" by (intro card_mono live_occupied) simp
  then show "unat (kh_size h) \<le> unat (n_occupied h)" using assms by (simp add: table_ok_def)
  then show "kh_size h \<le> ac_hash_upper (n_buckets h)" using table_occupied [OF assms] by (simp add: word_le_nat_alt)
qed

text \<open>Before the insertion the table is given room when it has none.\<close>

lemma kh_put_room:
  assumes wf: "kh_wf hash h" and small: "unat (kh_size h) < 2 ^ 30"
  obtains d h' where "(if upper_bound h \<le> n_occupied h then
      if push_bit 1 (kh_size h) < n_buckets h then kh_resize hash ok h (n_buckets h - 1)
      else kh_resize hash ok h (n_buckets h + 1)
    else Inr (True, h)) = Inr (d, h')" "kh_wf hash h'" "contents h' = contents h" "kh_size h' = kh_size h"
    "d \<longrightarrow> (\<exists>c. table_ok hash c h' \<and> n_occupied h' < upper_bound h')"
    "ok Flags_Malloc \<and> ok Keys_Grow \<and> ok Vals_Grow \<longrightarrow> d"
proof (cases "upper_bound h \<le> n_occupied h")
  case False
  then have "n_occupied h < upper_bound h" by (simp add: not_le)
  moreover from this obtain b where "table_ok hash b h" using wf by (auto simp: kh_wf_def no_table_def)
  ultimately show thesis using that [of True h] wf False by auto
next
  case full: True
  have "unat (push_bit 1 (kh_size h)) = unat (kh_size h * 2)" by (simp only: push_bit_eq_mult power_one_right)
  also have "\<dots> = unat (kh_size h) * 2 mod 2 ^ 32" by (simp only: unat_word_ariths) simp
  also have "\<dots> = 2 * unat (kh_size h)" using small by simp
  finally have shift: "push_bit 1 (kh_size h) < n_buckets h \<longleftrightarrow> 2 * unat (kh_size h) < unat (n_buckets h)"
    by (simp only: word_less_nat_alt)
  have "\<exists>nn m c. (if push_bit 1 (kh_size h) < n_buckets h then kh_resize hash ok h (n_buckets h - 1)
      else kh_resize hash ok h (n_buckets h + 1)) = kh_resize hash ok h nn \<and>
    m = (if kroundup32 nn < 4 then 4 else kroundup32 nn) \<and> capacity c m \<and> n_buckets h \<le> m \<and> kh_size h < ac_hash_upper m"
  proof (cases "no_table h")
    case True
    then have "n_buckets h = 0" "kh_size h = 0" by (simp_all add: no_table_def)
    moreover have "(0 :: u32) < ac_hash_upper 4" using upper_unat(4) [OF capacity_first(2)] by (simp add: word_less_nat_alt)
    moreover have "kroundup32 1 = 1" using capacity_first(1) by simp
    ultimately show ?thesis using capacity_first(2)
      by (intro exI [of _ 1] exI [of _ 4] exI [of _ 2]) (simp add: word_less_nat_alt)
  next
    case False
    then obtain b where ok: "table_ok hash b h" using wf by (auto simp: kh_wf_def)
    then have cap: "capacity b (n_buckets h)" by (simp add: table_ok_def)
    note n = capacity_unat [OF cap] and up = upper_unat [OF cap] and le = table_size_le [OF ok]
    show ?thesis
    proof (cases "2 * unat (kh_size h) < unat (n_buckets h)")
      case True
      then have "kh_size h < ac_hash_upper (n_buckets h)" using n up(3) by (simp add: word_less_nat_alt)
      then show ?thesis using True shift capacity_same [OF cap] capacity_not_small [OF cap] cap
        by (intro exI [of _ "n_buckets h - 1"] exI [of _ "n_buckets h"] exI [of _ b]) simp
    next
      case False
      then have "(2 :: nat) ^ b < 2 ^ 31" using small n by simp
      then have b: "b < 31" by (rule power_less_imp_less_exp [rotated]) simp
      note g = capacity_grow [OF cap b]
      have "unat (kh_size h) < 2 ^ b" using le(2) up(2) by (simp add: word_le_nat_alt)
      moreover have "2 ^ Suc b \<le> 2 * unat (ac_hash_upper (2 ^ Suc b))" by (rule upper_unat(3) [OF g(2)])
      ultimately have "kh_size h < ac_hash_upper (2 ^ Suc b)" by (simp add: word_less_nat_alt)
      moreover have "n_buckets h \<le> 2 ^ Suc b" using n capacity_unat [OF g(2)] by (simp add: word_le_nat_alt)
      ultimately show ?thesis using False shift g capacity_not_small [OF g(2)]
        by (intro exI [of _ "n_buckets h + 1"] exI [of _ "2 ^ Suc b"] exI [of _ "Suc b"]) simp
    qed
  qed
  then obtain nn m c where r: "(if push_bit 1 (kh_size h) < n_buckets h then kh_resize hash ok h (n_buckets h - 1)
      else kh_resize hash ok h (n_buckets h + 1)) = kh_resize hash ok h nn"
    "m = (if kroundup32 nn < 4 then 4 else kroundup32 nn)" "capacity c m" "n_buckets h \<le> m" "kh_size h < ac_hash_upper m"
    by blast
  have "m < n_buckets h \<longrightarrow> ok Keys_Shrink \<and> ok Vals_Shrink" using r(4) by (simp add: not_le [symmetric])
  from kh_resize_ok [OF wf r(2,3) this]
  obtain d h' where h': "kh_resize hash ok h nn = Inr (d, h')" "kh_wf hash h'" "contents h' = contents h"
    "kh_size h' = kh_size h" "d \<Longrightarrow> table_ok hash c h' \<and> n_buckets h' = m \<and> n_occupied h' = kh_size h"
    "ok Flags_Malloc \<Longrightarrow> ok Keys_Grow \<Longrightarrow> ok Vals_Grow \<Longrightarrow> d"
    using r(5) by metis
  have "table_ok hash c h' \<and> n_occupied h' < upper_bound h'" if d
  proof -
    have t: "table_ok hash c h'" "n_buckets h' = m" "n_occupied h' = kh_size h" using h'(5) [OF that] by simp_all
    then have "upper_bound h' = ac_hash_upper m" unfolding table_ok_def by metis
    then show ?thesis using t r(5) by simp
  qed
  then have 5: "d \<longrightarrow> (\<exists>c. table_ok hash c h' \<and> n_occupied h' < upper_bound h')" by blast
  have 6: "ok Flags_Malloc \<and> ok Keys_Grow \<and> ok Vals_Grow \<longrightarrow> d" using h'(6) by blast
  have "(if upper_bound h \<le> n_occupied h then
      if push_bit 1 (kh_size h) < n_buckets h then kh_resize hash ok h (n_buckets h - 1)
      else kh_resize hash ok h (n_buckets h + 1)
    else Inr (True, h)) = Inr (d, h')" using full r(1) h'(1) by (simp only: if_True)
  then show thesis by (rule that [OF _ h'(2-4) 5 6])
qed

text \<open>\<open>kh_put\<close> always returns; it fails only when an allocation does.\<close>

lemma kh_put_ok:
  assumes wf: "kh_wf hash h" and small: "unat (kh_size h) < 2 ^ 30"
  obtains x r h' where "kh_put hash ok h key = Inr (x, r, h')" "kh_wf hash h'"
    "ok Flags_Malloc \<and> ok Keys_Grow \<and> ok Vals_Grow \<longrightarrow> 0 \<le> r"
    "if r < 0 then contents h' = contents h \<and> kh_size h' = kh_size h
     else (\<exists>b. table_ok hash b h' \<and> unat x \<in> live_at (flags h') (2 ^ b)) \<and> keys h' ! unat x = Some key \<and>
       (if key \<in> fst ` contents h then r = 0 \<and> contents h' = contents h
        else r \<noteq> 0 \<and> contents h' = insert (key, vals h' ! unat x) (contents h))"
proof -
  obtain d h1 where 1: "(if upper_bound h \<le> n_occupied h then
      if push_bit 1 (kh_size h) < n_buckets h then kh_resize hash ok h (n_buckets h - 1)
      else kh_resize hash ok h (n_buckets h + 1)
    else Inr (True, h)) = Inr (d, h1)" "kh_wf hash h1" "contents h1 = contents h" "kh_size h1 = kh_size h"
    "d \<longrightarrow> (\<exists>c. table_ok hash c h1 \<and> n_occupied h1 < upper_bound h1)"
    "ok Flags_Malloc \<and> ok Keys_Grow \<and> ok Vals_Grow \<longrightarrow> d"
    by (rule kh_put_room [OF wf small, of ok])
  show thesis
  proof (cases d)
    case False
    then have "kh_put hash ok h key = Inr (n_buckets h1, -1, h1)" by (simp add: kh_put_def 1(1))
    then show thesis by (rule that) (use 1 False in auto)
  next
    case True
    then obtain c where c: "table_ok hash c h1" "n_occupied h1 < upper_bound h1" using 1(5) by blast
    from kh_put_here_spec [OF c]
    obtain x r h' where p: "kh_put_here hash h1 key = Inr (x, r, h')" "table_ok hash c h'" "0 \<le> r"
      "unat x \<in> live_at (flags h') (2 ^ c)" "keys h' ! unat x = Some key" "vals h' = vals h1"
      "if key \<in> fst ` contents h1 then r = 0 \<and> h' = h1
       else r \<noteq> 0 \<and> contents h' = insert (key, vals h1 ! unat x) (contents h1)"
      by (metis (no_types, lifting))
    have "kh_put hash ok h key = Inr (x, r, h')" using True p(1) by (simp add: kh_put_def 1(1))
    moreover have "kh_wf hash h'" using p(2) by (auto simp: kh_wf_def)
    ultimately show thesis
    proof (rule that)
      show "ok Flags_Malloc \<and> ok Keys_Grow \<and> ok Vals_Grow \<longrightarrow> 0 \<le> r" using p(3) by simp
      show "if r < 0 then contents h' = contents h \<and> kh_size h' = kh_size h
         else (\<exists>b. table_ok hash b h' \<and> unat x \<in> live_at (flags h') (2 ^ b)) \<and> keys h' ! unat x = Some key \<and>
           (if key \<in> fst ` contents h then r = 0 \<and> contents h' = contents h
            else r \<noteq> 0 \<and> contents h' = insert (key, vals h' ! unat x) (contents h))"
      proof (cases "key \<in> fst ` contents h")
        case True
        then have "r = 0" "h' = h1" using p(7) 1(3) by simp_all
        then show ?thesis using True p(2,4,5) 1(3) by auto
      next
        case False
        then have "r \<noteq> 0" "contents h' = insert (key, vals h1 ! unat x) (contents h1)" using p(7) 1(3) by simp_all
        then show ?thesis using False p(2-6) 1(3) by auto
      qed
    qed
  qed
qed

section \<open>The table as a finite map\<close>

definition kh_rep :: "('k \<Rightarrow> u32) \<Rightarrow> ('k, 'v) khash \<Rightarrow> ('k \<rightharpoonup> 'v) \<Rightarrow> bool" where
  "kh_rep hash h m \<longleftrightarrow> kh_wf hash h \<and> contents h = {(k, Some v) | k v. m k = Some v}"

lemma graph_keys: "fst ` {(k, Some v) | k v. m k = Some v} = dom m"
  by (force simp: image_iff)

lemma kh_rep_keys: "kh_rep hash h m \<Longrightarrow> fst ` contents h = dom m"
  by (simp add: kh_rep_def graph_keys)

lemma kh_rep_init: "kh_rep hash kh_init Map.empty"
  by (simp add: kh_rep_def kh_wf_def init_no_table no_table_contents)

lemma live_key:
  assumes "kh_rep hash h m" "i \<in> live_at (flags h) (unat (n_buckets h))" "keys h ! i = Some k"
  shows "\<exists>v. m k = Some v \<and> vals h ! i = Some v"
proof -
  have "(k, vals h ! i) \<in> contents h" using assms(2,3) by (auto simp: contents_def pairs_def)
  then show ?thesis using assms(1) by (auto simp: kh_rep_def)
qed

lemma kh_set_value_ok:
  assumes ok: "table_ok hash b h" and x: "unat x \<in> live_at (flags h) (2 ^ b)" "keys h ! unat x = Some key"
  obtains h' where "kh_set_value h x v = Inr h'" "table_ok hash b h'"
    "contents h' = insert (key, Some v) {p \<in> contents h. fst p \<noteq> key}"
proof -
  note t = ok [unfolded table_ok_def]
  let ?L = "live_at (flags h) (2 ^ b)" and ?vs = "(vals h)[unat x := Some v]"
  have lt: "unat x < length (vals h)" using t x(1) by (auto simp: live_at_def)
  have n: "unat (n_buckets h) = 2 ^ b" using t capacity_unat by blast
  have ok': "table_ok hash b (h\<lparr>vals := ?vs\<rparr>)" using t table_occupied [OF ok] by (simp add: table_ok_def)
  have "inj_on ((!) (keys h)) ?L" using t by (simp add: keys_ok_def)
  then have other: "keys h ! i \<noteq> Some key" if "i \<in> ?L" "i \<noteq> unat x" for i
    using that x by (metis inj_onD)
  have "pairs (keys h) ?vs ?L = insert (key, Some v) {p \<in> pairs (keys h) (vals h) ?L. fst p \<noteq> key}"
  proof (intro set_eqI iffI)
    fix p assume "p \<in> pairs (keys h) ?vs ?L"
    then obtain i k where i: "p = (k, ?vs ! i)" "i \<in> ?L" "keys h ! i = Some k" by (auto simp: pairs_def)
    show "p \<in> insert (key, Some v) {p \<in> pairs (keys h) (vals h) ?L. fst p \<noteq> key}"
    proof (cases "i = unat x")
      case True
      then show ?thesis using i x(2) lt by simp
    next
      case False
      then have "p = (k, vals h ! i)" "k \<noteq> key" using i other by auto
      then show ?thesis using i(2,3) by (auto simp: pairs_def)
    qed
  next
    fix p assume "p \<in> insert (key, Some v) {p \<in> pairs (keys h) (vals h) ?L. fst p \<noteq> key}"
    then consider "p = (key, Some v)" | i k where "p = (k, vals h ! i)" "i \<in> ?L" "keys h ! i = Some k" "k \<noteq> key"
      by (auto simp: pairs_def)
    then show "p \<in> pairs (keys h) ?vs ?L"
    proof cases
      case 1
      then have "p = (key, ?vs ! unat x)" using lt by simp
      then show ?thesis using x unfolding pairs_def by blast
    next
      case 2
      then have "i \<noteq> unat x" using x(2) by auto
      then have "p = (k, ?vs ! i)" using 2(1) by simp
      then show ?thesis using 2(2,3) unfolding pairs_def by blast
    qed
  qed
  then have "contents (h\<lparr>vals := ?vs\<rparr>) = insert (key, Some v) {p \<in> contents h. fst p \<noteq> key}"
    by (simp add: contents_def n)
  then show thesis using that ok' by (simp add: kh_set_value_def set_cell_eq lt)
qed

lemma graph_upd:
  "insert (k, Some v) {p \<in> {(k, Some v) | k v. m k = Some v}. fst p \<noteq> k} = {(j, Some w) | j w. (m(k \<mapsto> v)) j = Some w}"
  by (auto split: if_splits)

text \<open>Search agrees with the map, and the value found can be assigned.\<close>

lemma kh_rep_get:
  assumes r: "kh_rep hash h m"
  shows "\<exists>x. kh_get hash h k = Inr x \<and>
     (case m k of
        None \<Rightarrow> x = kh_end h
      | Some v \<Rightarrow> x \<noteq> kh_end h \<and> kh_value h x = Inr v \<and>
          (\<forall>w. \<exists>h'. kh_set_value h x w = Inr h' \<and> kh_rep hash h' (m(k \<mapsto> w))))"
proof -
  have wf: "kh_wf hash h" using r by (simp add: kh_rep_def)
  obtain x where x: "kh_get hash h k = Inr x"
    "if k \<in> fst ` contents h then unat x \<in> live_at (flags h) (unat (n_buckets h)) \<and> keys h ! unat x = Some k \<and> x \<noteq> n_buckets h
     else x = n_buckets h"
    using kh_get_spec [OF wf, of k] by blast
  show ?thesis
  proof (cases "m k")
    case None
    then have "k \<notin> fst ` contents h" using kh_rep_keys [OF r] by auto
    then show ?thesis using x None by (simp add: kh_end_def)
  next
    case (Some v)
    then have "k \<in> fst ` contents h" using kh_rep_keys [OF r] by auto
    then have l: "unat x \<in> live_at (flags h) (unat (n_buckets h))" "keys h ! unat x = Some k" "x \<noteq> kh_end h"
      using x(2) by (simp_all add: kh_end_def)
    then have "\<not> no_table h" by (auto simp: no_table_def live_at_def)
    then obtain b where ok: "table_ok hash b h" using wf by (auto simp: kh_wf_def)
    then have n: "unat (n_buckets h) = 2 ^ b" by (intro capacity_unat) (simp add: table_ok_def)
    have "unat x < length (vals h)" using l(1) ok n by (auto simp: live_at_def table_ok_def)
    moreover have "vals h ! unat x = Some v" using live_key [OF r l(1,2)] Some by simp
    ultimately have val: "kh_value h x = Inr v" by (simp add: kh_value_def cell_eq)
    have "\<exists>h'. kh_set_value h x w = Inr h' \<and> kh_rep hash h' (m(k \<mapsto> w))" for w
    proof -
      obtain h' where h': "kh_set_value h x w = Inr h'" "table_ok hash b h'"
        "contents h' = insert (k, Some w) {p \<in> contents h. fst p \<noteq> k}"
        by (rule kh_set_value_ok [OF ok l(1) [unfolded n] l(2)])
      have "contents h = {(k, Some v) | k v. m k = Some v}" using r by (simp add: kh_rep_def)
      then have "kh_rep hash h' (m(k \<mapsto> w))" using h'(2,3) graph_upd [of k w m] by (auto simp: kh_rep_def kh_wf_def)
      then show ?thesis using h'(1) by blast
    qed
    then show ?thesis using x(1) Some val l(3) by simp
  qed
qed

lemma kh_rep_size:
  assumes r: "kh_rep hash h m"
  shows "finite (dom m)" "card (dom m) = unat (kh_size h)"
proof -
  have "finite (dom m) \<and> card (dom m) = unat (kh_size h)"
  proof (cases "no_table h")
    case True
    then have "dom m = {}" using kh_rep_keys [OF r] no_table_contents by auto
    then show ?thesis using True by (simp add: no_table_def)
  next
    case False
    then obtain b where ok: "table_ok hash b h" using r by (auto simp: kh_rep_def kh_wf_def)
    then have t: "capacity b (n_buckets h)" "inj_on ((!) (keys h)) (live_at (flags h) (2 ^ b))"
      "\<forall>i \<in> live_at (flags h) (2 ^ b). \<exists>k. keys h ! i = Some k" "card (live_at (flags h) (2 ^ b)) = unat (kh_size h)"
      by (auto simp: table_ok_def keys_ok_def)
    let ?L = "live_at (flags h) (2 ^ b)"
    have d: "k \<in> dom m \<longleftrightarrow> (\<exists>i \<in> ?L. keys h ! i = Some k)" for k
      using has_key [of h k] kh_rep_keys [OF r] capacity_unat [OF t(1)] by simp
    have e: "(!) (keys h) ` ?L = Some ` dom m"
    proof (intro set_eqI iffI)
      fix y assume "y \<in> (!) (keys h) ` ?L"
      then obtain i k where "i \<in> ?L" "keys h ! i = Some k" "y = Some k" using t(3) by auto
      then show "y \<in> Some ` dom m" using d by blast
    next
      fix y assume "y \<in> Some ` dom m"
      then obtain k where k: "y = Some k" "k \<in> dom m" by blast
      then obtain i where "i \<in> ?L" "keys h ! i = Some k" using d by blast
      then show "y \<in> (!) (keys h) ` ?L" using k(1) by (metis imageI)
    qed
    then have "finite (Some ` dom m)" by (metis finite_imageI live_finite(1))
    then have "finite (dom m)" by (simp add: finite_image_iff)
    moreover have "card (Some ` dom m) = card ?L" using card_image [OF t(2)] e by simp
    ultimately show ?thesis using t(4) by (simp add: card_image)
  qed
  then show "finite (dom m)" "card (dom m) = unat (kh_size h)" by blast+
qed

text \<open>
  Insertion of a binding: \<open>kh_put\<close> and the assignment to the value of its bucket.  It fails only
  when an allocation does, and reports it; no array is ever shrunk.
\<close>

lemma kh_put_any:
  assumes r: "kh_rep hash h m" and small: "card (dom m) < 2 ^ 30"
  obtains x ret h1 h2 where "kh_put hash ok h k = Inr (x, ret, h1)" "0 \<le> ret"
      "kh_set_value h1 x v = Inr h2" "kh_rep hash h2 (m(k \<mapsto> v))"
    | x ret h1 where "kh_put hash ok h k = Inr (x, ret, h1)" "ret < 0"
      "\<not> (ok Flags_Malloc \<and> ok Keys_Grow \<and> ok Vals_Grow)"
proof -
  have wf: "kh_wf hash h" using r by (simp add: kh_rep_def)
  have size: "unat (kh_size h) < 2 ^ 30" using small kh_rep_size(2) [OF r] by simp
  obtain x ret h1 where p: "kh_put hash ok h k = Inr (x, ret, h1)" "kh_wf hash h1"
    "ok Flags_Malloc \<and> ok Keys_Grow \<and> ok Vals_Grow \<longrightarrow> 0 \<le> ret"
    "if ret < 0 then contents h1 = contents h \<and> kh_size h1 = kh_size h
     else (\<exists>b. table_ok hash b h1 \<and> unat x \<in> live_at (flags h1) (2 ^ b)) \<and> keys h1 ! unat x = Some k \<and>
       (if k \<in> fst ` contents h then ret = 0 \<and> contents h1 = contents h
        else ret \<noteq> 0 \<and> contents h1 = insert (k, vals h1 ! unat x) (contents h))"
    by (rule kh_put_ok [OF wf size])
  show thesis
  proof (cases "ret < 0")
    case True
    then show thesis using that(2) p(1,3) by auto
  next
    case False
    then obtain b where b: "table_ok hash b h1" "unat x \<in> live_at (flags h1) (2 ^ b)" "keys h1 ! unat x = Some k"
      "if k \<in> fst ` contents h then contents h1 = contents h
       else contents h1 = insert (k, vals h1 ! unat x) (contents h)"
      using p(4) by (auto split: if_splits)
    obtain h2 where h2: "kh_set_value h1 x v = Inr h2" "table_ok hash b h2"
      "contents h2 = insert (k, Some v) {p \<in> contents h1. fst p \<noteq> k}"
      by (rule kh_set_value_ok [OF b(1-3)])
    have "{p \<in> contents h1. fst p \<noteq> k} = {p \<in> contents h. fst p \<noteq> k}" using b(4) by (auto split: if_splits)
    moreover have "contents h = {(k, Some v) | k v. m k = Some v}" using r by (simp add: kh_rep_def)
    ultimately have "contents h2 = {(j, Some w) | j w. (m(k \<mapsto> v)) j = Some w}" using h2(3) graph_upd [of k v m] by simp
    then have "kh_rep hash h2 (m(k \<mapsto> v))" using h2(2) by (auto simp: kh_rep_def kh_wf_def)
    then show thesis using that(1) p(1) h2(1) False by simp
  qed
qed

text \<open>Deletion of the bucket that the search finds.\<close>

lemma kh_rep_del:
  assumes r: "kh_rep hash h m"
  shows "\<exists>x h'. kh_get hash h k = Inr x \<and> kh_del h x = Inr h' \<and> kh_rep hash h' (m(k := None))"
proof -
  have wf: "kh_wf hash h" using r by (simp add: kh_rep_def)
  obtain x where x: "kh_get hash h k = Inr x"
    "if k \<in> fst ` contents h then unat x \<in> live_at (flags h) (unat (n_buckets h)) \<and> keys h ! unat x = Some k \<and> x \<noteq> n_buckets h
     else x = n_buckets h"
    using kh_get_spec [OF wf, of k] by blast
  have c: "contents h = {(k, Some v) | k v. m k = Some v}" using r by (simp add: kh_rep_def)
  show ?thesis
  proof (cases "k \<in> fst ` contents h")
    case False
    then have "m k = None" using kh_rep_keys [OF r] by auto
    then have "m(k := None) = m" by auto
    then show ?thesis using x False r by (simp add: kh_del_def)
  next
    case True
    then have l: "unat x \<in> live_at (flags h) (unat (n_buckets h))" "keys h ! unat x = Some k" using x(2) by simp_all
    then have "\<not> no_table h" by (auto simp: no_table_def live_at_def)
    then obtain b where ok: "table_ok hash b h" using wf by (auto simp: kh_wf_def)
    then have n: "unat (n_buckets h) = 2 ^ b" by (intro capacity_unat) (simp add: table_ok_def)
    obtain h' where h': "kh_del h x = Inr h'" "table_ok hash b h'" "contents h' = {p \<in> contents h. fst p \<noteq> k}"
      using kh_del_spec [OF ok l(1) [unfolded n] l(2)] by blast
    have "contents h' = {(j, Some w) | j w. (m(k := None)) j = Some w}" unfolding h'(3) c by (auto split: if_splits)
    then have "kh_rep hash h' (m(k := None))" using h'(2) by (auto simp: kh_rep_def kh_wf_def)
    then show ?thesis using x(1) h'(1) by blast
  qed
qed

section \<open>The interface that a client uses\<close>

text \<open>
  The binding of a key as the allocator does it, the search for the value of a key, and the
  removal of a key, each a search for the bucket followed by an access to it.
\<close>

definition kh_store :: "('k \<Rightarrow> u32) \<Rightarrow> (kh_alloc \<Rightarrow> bool) \<Rightarrow> ('k, 'v) khash \<Rightarrow> 'k \<Rightarrow> 'v \<Rightarrow> ('k, 'v) khash res" where
  "kh_store hash ok h key v =
     bindR (kh_put hash ok h key) (\<lambda>(k, ret, h).
     bindR (assertR (0 \<le> ret)) (\<lambda>_.
     kh_set_value h k v))"

lemma kh_store_any:
  assumes "kh_rep hash h m" "card (dom m) < 2 ^ 30"
  shows "(\<exists>h'. kh_store hash ok h k v = Inr h' \<and> kh_rep hash h' (m(k \<mapsto> v))) \<or>
     kh_store hash ok h k v = Inl AssertFail \<and> \<not> (ok Flags_Malloc \<and> ok Keys_Grow \<and> ok Vals_Grow)"
  by (rule kh_put_any [OF assms, of ok k v]) (simp_all add: kh_store_def)

definition kh_find :: "('k \<Rightarrow> u32) \<Rightarrow> ('k, 'v) khash \<Rightarrow> 'k \<Rightarrow> 'v option res" where
  "kh_find hash h key =
     bindR (kh_get hash h key) (\<lambda>k.
     if k = kh_end h then Inr None else bindR (kh_value h k) (\<lambda>v. Inr (Some v)))"

definition kh_remove :: "('k \<Rightarrow> u32) \<Rightarrow> ('k, 'v) khash \<Rightarrow> 'k \<Rightarrow> ('k, 'v) khash res" where
  "kh_remove hash h key = bindR (kh_get hash h key) (kh_del h)"

definition kh_allocs :: "kh_alloc \<Rightarrow> bool" where
  "kh_allocs a = True"

interpretation kt: key_table "kh_rep hash" kh_init "kh_store hash kh_allocs" "kh_remove hash" "kh_find hash" "2 ^ 30"
  for hash :: "'k \<Rightarrow> u32"
proof
  fix h :: "('k, 'v) khash" and m k
  assume r: "kh_rep hash h m"
  show "finite (dom m)" by (rule kh_rep_size(1) [OF r])
  show "\<exists>h'. kh_remove hash h k = Inr h' \<and> kh_rep hash h' (m(k := None))"
    using kh_rep_del [OF r, of k] by (auto simp: kh_remove_def)
  show "kh_find hash h k = Inr (m k)"
    using kh_rep_get [OF r, of k] by (auto simp: kh_find_def split: option.splits)
  fix v assume "card (dom m) < 2 ^ 30"
  then show "\<exists>h'. kh_store hash kh_allocs h k v = Inr h' \<and> kh_rep hash h' (m(k \<mapsto> v))"
    using kh_store_any [OF r, of kh_allocs k v] by (auto simp: kh_allocs_def)
qed (rule kh_rep_init)

section \<open>Properties\<close>

text \<open>A table with the bindings of 5 and 9, the one of 5 removed again.\<close>

definition sample_ops :: "(u64, u64) table_op list" where
  "sample_ops = [Store 5 1, Store 9 2, Remove 5, Store 9 3]"

text \<open>
  C23: with every allocation of the table succeeding (\<open>kh_allocs\<close>), on the empty table any sequence
  of at most \<open>2 ^ 30\<close> insertions and removals, in any order and with any hash function, succeeds
  with every probing loop ending, and afterwards the search finds for every key exactly what a
  finite map holds after the same sequence.
\<close>

theorem khash_refines_map:
  assumes "length ops \<le> 2 ^ 30"
  shows "\<exists>h. table_run (kh_store hash kh_allocs) (kh_remove hash) ops kh_init = Inr h \<and>
     (\<forall>k. kh_find hash h k = Inr (map_run ops Map.empty k))"
  by (rule kt.run_find [OF assms])

theorem khash_refines_map_witness:
  "\<exists>h. table_run (kh_store kh_int64_hash_func kh_allocs) (kh_remove kh_int64_hash_func) sample_ops kh_init = Inr h \<and>
     kh_find kh_int64_hash_func h 9 = Inr (Some 3) \<and> kh_find kh_int64_hash_func h 5 = Inr None"
proof -
  have "length sample_ops \<le> 2 ^ 30" by (simp add: sample_ops_def)
  from khash_refines_map [OF this, of kh_int64_hash_func]
  obtain h where h: "table_run (kh_store kh_int64_hash_func kh_allocs) (kh_remove kh_int64_hash_func) sample_ops kh_init = Inr h"
    "\<forall>k. kh_find kh_int64_hash_func h k = Inr (map_run sample_ops Map.empty k)" by blast
  then show ?thesis by (intro exI [of _ h]) (simp add: sample_ops_def)
qed

text \<open>
  C24: \<open>kh_resize\<close> to any size, up or down, ends, whatever allocations fail.  It keeps the table
  well formed and its contents unchanged, except when it makes the table smaller and one of the
  two unchecked allocations of the shrinking fails: then it reports success, with that array
  lost.  It reports a failure only when one of the other allocations fails.
\<close>

theorem kh_resize_keeps_contents:
  assumes "kh_wf hash h"
  shows "\<exists>d h'. kh_resize hash ok h new_n_buckets = Inr (d, h') \<and> kh_size h' = kh_size h \<and>
     (kh_wf hash h' \<and> contents h' = contents h \<or>
      (if kroundup32 new_n_buckets < 4 then 4 else kroundup32 new_n_buckets) < n_buckets h \<and> d \<and>
        (\<not> ok Keys_Shrink \<and> keys h' = [] \<or> \<not> ok Vals_Shrink \<and> vals h' = [])) \<and>
     (d \<or> \<not> (ok Flags_Malloc \<and> ok Keys_Grow \<and> ok Vals_Grow))"
proof -
  obtain c where "capacity c (if kroundup32 new_n_buckets < 4 then 4 else kroundup32 new_n_buckets)"
    using request_capacity by blast
  from kh_resize_any [OF assms refl this, of ok] show ?thesis by metis
qed

theorem kh_resize_keeps_contents_witness:
  "\<exists>h d h'. kh_rep kh_int64_hash_func h [9 \<mapsto> (3 :: u64)] \<and>
     kh_resize kh_int64_hash_func kh_allocs h 1000 = Inr (d, h') \<and> contents h' = {(9, Some 3)} \<and> d"
proof -
  obtain h where r: "kh_rep kh_int64_hash_func h [9 \<mapsto> (3 :: u64)]"
    using kt.store_rep [OF kh_rep_init, where k = 9 and v = 3] by auto
  then have "kh_wf kh_int64_hash_func h" "contents h = {(9, Some 3)}"
    by (auto simp: kh_rep_def split: if_splits)
  with kh_resize_keeps_contents [of kh_int64_hash_func h kh_allocs 1000] r show ?thesis
    by (auto simp: kh_allocs_def)
qed

end
