(* ===== verification/KmallocHash.thy ===== *)
theory KmallocHash
  imports Kmalloc KhashMap
begin

text \<open>
  \<open>csc369_kmalloc.c\<close> over the hash table it uses, \<open>KHASH_MAP_INIT_INT64(ptrmap, size_t)\<close>: the
  allocator with its \<open>malloc_map\<close> as a table of \<open>khash.h\<close>, and the proof that every sequence
  of its calls has the results and the counters of the allocator of theory \<open>Kmalloc\<close>, whose
  \<open>malloc_map\<close> is a finite map, up to the first call in which the table itself finds no memory.
  \<open>table_mem n\<close> says which allocations of the table succeed in the \<open>n\<close>-th call of \<open>malloc\<close>.
\<close>

section \<open>The code\<close>

record hash_kmalloc =
  hk_num_mallocs :: int
  hk_num_frees :: int
  hk_bytes_malloced :: int
  hk_bytes_freed :: int
  ptrmap :: "(u64, u64) khash"
  hk_libc :: "nat \<Rightarrow> ptr"
  hk_libc_calls :: nat
  table_mem :: "nat \<Rightarrow> kh_alloc \<Rightarrow> bool"

definition hash_malloc :: "u64 \<Rightarrow> hash_kmalloc \<Rightarrow> (ptr \<times> hash_kmalloc) res" where
  "hash_malloc sz k =
     (if CSC369_KMALLOC_MAX \<le> sz then Inr (None, k)
      else if CSC369_KMALLOC_MAX < of_int (hk_bytes_malloced k) + sz then Inr (None, k)
      else
        let n = hk_libc_calls k; k = k\<lparr>hk_libc_calls := Suc n\<rparr> in
        case hk_libc k n of
          None \<Rightarrow> Inr (None, k)
        | Some m \<Rightarrow>
            let k = k\<lparr>hk_num_mallocs := hk_num_mallocs k + 1, hk_bytes_malloced := hk_bytes_malloced k + sint sz\<rparr> in
            bindR (kh_store kh_int64_hash_func (table_mem k n) (ptrmap k) (of_nat m) sz) (\<lambda>t.
            Inr (Some m, k\<lparr>ptrmap := t\<rparr>)))"

definition hash_free :: "ptr \<Rightarrow> hash_kmalloc \<Rightarrow> hash_kmalloc res" where
  "hash_free p k =
     (case p of
        None \<Rightarrow> Inr k
      | Some a \<Rightarrow>
          bindR (kh_get kh_int64_hash_func (ptrmap k) (of_nat a)) (\<lambda>x.
          if x = kh_end (ptrmap k) then Inl BadPointer
          else
            bindR (kh_value (ptrmap k) x) (\<lambda>sz.
            if sz AND FREED \<noteq> 0 then Inl BadPointer
            else
              bindR (assertR (sz \<noteq> 0)) (\<lambda>_.
              bindR (assertR (sz < 2 ^ 63 - 1)) (\<lambda>_.
              bindR (assertR (0 < hk_num_mallocs k - hk_num_frees k)) (\<lambda>_.
              bindR (assertR (sint sz \<le> hk_bytes_malloced k - hk_bytes_freed k)) (\<lambda>_.
              bindR (kh_value (ptrmap k) x) (\<lambda>v.
              bindR (kh_set_value (ptrmap k) x (v OR FREED)) (\<lambda>t.
              Inr (k\<lparr>hk_num_frees := hk_num_frees k + 1, hk_bytes_freed := hk_bytes_freed k + sint sz,
                     ptrmap := t\<rparr>))))))))))"

definition hash_MallocInit :: "(nat \<Rightarrow> ptr) \<Rightarrow> (nat \<Rightarrow> kh_alloc \<Rightarrow> bool) \<Rightarrow> hash_kmalloc" where
  "hash_MallocInit lib mem =
     \<lparr>hk_num_mallocs = 0, hk_num_frees = 0, hk_bytes_malloced = 0, hk_bytes_freed = 0,
      ptrmap = kh_init, hk_libc = lib, hk_libc_calls = 0, table_mem = mem\<rparr>"

section \<open>Sequences of calls\<close>

datatype km_call = Malloc u64 | Free ptr

fun alloc_run ::
  "(u64 \<Rightarrow> 's \<Rightarrow> (ptr \<times> 's) res) \<Rightarrow> (ptr \<Rightarrow> 's \<Rightarrow> 's res) \<Rightarrow> km_call list \<Rightarrow> 's \<Rightarrow> (ptr list \<times> 's) res" where
  "alloc_run malloc free [] k = Inr ([], k)"
| "alloc_run malloc free (Malloc s # cs) k =
     bindR (malloc s k) (\<lambda>(p, k). bindR (alloc_run malloc free cs k) (\<lambda>(ps, k). Inr (p # ps, k)))"
| "alloc_run malloc free (Free p # cs) k = bindR (free p k) (alloc_run malloc free cs)"

definition km_counts :: "kmalloc \<Rightarrow> int \<times> int \<times> int \<times> int" where
  "km_counts k = (num_mallocs k, num_frees k, bytes_malloced k, bytes_freed k)"

definition hk_counts :: "hash_kmalloc \<Rightarrow> int \<times> int \<times> int \<times> int" where
  "hk_counts k = (hk_num_mallocs k, hk_num_frees k, hk_bytes_malloced k, hk_bytes_freed k)"

section \<open>Refinement\<close>

text \<open>Addresses are 64-bit numbers; the table has the bindings of the map.\<close>

definition addrs_ok :: "(nat \<Rightarrow> ptr) \<Rightarrow> bool" where
  "addrs_ok lib \<longleftrightarrow> (\<forall>n a. lib n = Some a \<longrightarrow> a < 2 ^ 64)"

definition word_map :: "(addr \<rightharpoonup> 'v) \<Rightarrow> u64 \<rightharpoonup> 'v" where
  "word_map m w = m (unat w)"

definition km_rel :: "(nat \<Rightarrow> kh_alloc \<Rightarrow> bool) \<Rightarrow> hash_kmalloc \<Rightarrow> kmalloc \<Rightarrow> bool" where
  "km_rel mem hk k \<longleftrightarrow> kh_rep kh_int64_hash_func (ptrmap hk) (word_map (malloc_map k)) \<and>
     hk_counts hk = km_counts k \<and> hk_libc hk = libc k \<and> hk_libc_calls hk = libc_calls k \<and>
     addrs_ok (libc k) \<and> table_mem hk = mem"

lemma word_map_upd: "a < 2 ^ 64 \<Longrightarrow> word_map (m(a \<mapsto> v)) = (word_map m)(of_nat a \<mapsto> v)"
proof -
  assume a: "a < 2 ^ 64"
  have "unat w = a \<longleftrightarrow> w = of_nat a" for w :: u64 using a by auto
  then show ?thesis by (auto simp: word_map_def fun_eq_iff)
qed

lemma word_map_at: "a < 2 ^ 64 \<Longrightarrow> word_map m (of_nat a) = m a"
  by (simp add: word_map_def)

lemma km_rel_simps:
  assumes "km_rel mem hk k"
  shows "hk_num_mallocs hk = num_mallocs k" "hk_num_frees hk = num_frees k"
    "hk_bytes_malloced hk = bytes_malloced k" "hk_bytes_freed hk = bytes_freed k"
    "hk_libc hk = libc k" "hk_libc_calls hk = libc_calls k" "table_mem hk = mem" "addrs_ok (libc k)"
  using assms by (simp_all add: km_rel_def hk_counts_def km_counts_def)

text \<open>The allocations of an insertion; the table of the allocator is never shrunk.\<close>

definition store_allocs :: "kh_alloc set" where
  "store_allocs = {Flags_Malloc, Keys_Grow, Vals_Grow}"

lemma hash_malloc_refines:
  assumes r: "km_rel mem hk k" and room: "card (dom (word_map (malloc_map k))) < 2 ^ 30"
  shows "(\<exists>hk'. hash_malloc s hk = Inr (fst (CSC369_malloc s k), hk') \<and> km_rel mem hk' (snd (CSC369_malloc s k))) \<or>
     hash_malloc s hk = Inl AssertFail \<and> (\<exists>a \<in> store_allocs. \<not> mem (hk_libc_calls hk) a)"
proof -
  note e = km_rel_simps [OF r]
  have rep: "kh_rep kh_int64_hash_func (ptrmap hk) (word_map (malloc_map k))" using r by (simp add: km_rel_def)
  show ?thesis
  proof (cases "CSC369_KMALLOC_MAX \<le> s \<or> CSC369_KMALLOC_MAX < of_int (bytes_malloced k) + s")
    case True
    then show ?thesis using r e by (auto simp: hash_malloc_def CSC369_malloc_def)
  next
    case False
    show ?thesis
    proof (cases "libc k (libc_calls k)")
      case None
      have "km_rel mem (hk\<lparr>hk_libc_calls := Suc (libc_calls k)\<rparr>) (k\<lparr>libc_calls := Suc (libc_calls k)\<rparr>)"
        using r by (simp add: km_rel_def hk_counts_def km_counts_def)
      then show ?thesis using False None e by (simp add: hash_malloc_def CSC369_malloc_def libc_malloc_def)
    next
      case (Some a)
      have a: "a < 2 ^ 64" using e(8) Some by (auto simp: addrs_ok_def)
      let ?ok = "mem (libc_calls k)"
      from kh_store_any [OF rep room, of ?ok "of_nat a" s] show ?thesis
      proof
        assume "\<exists>t. kh_store kh_int64_hash_func ?ok (ptrmap hk) (of_nat a) s = Inr t \<and>
          kh_rep kh_int64_hash_func t ((word_map (malloc_map k))(of_nat a \<mapsto> s))"
        then show ?thesis
          using False Some e r word_map_upd [OF a, of "malloc_map k" s]
          by (auto simp: hash_malloc_def CSC369_malloc_def libc_malloc_def Let_def km_rel_def hk_counts_def km_counts_def)
      next
        assume "kh_store kh_int64_hash_func ?ok (ptrmap hk) (of_nat a) s = Inl AssertFail \<and>
          \<not> (?ok Flags_Malloc \<and> ?ok Keys_Grow \<and> ?ok Vals_Grow)"
        then show ?thesis using False Some e by (simp add: hash_malloc_def Let_def store_allocs_def)
      qed
    qed
  qed
qed

lemma hash_free_refines:
  assumes r: "km_rel mem hk k" and p: "\<forall>a. p = Some a \<longrightarrow> a < 2 ^ 64"
  shows "case CSC369_free p k of Inl e \<Rightarrow> hash_free p hk = Inl e
    | Inr k' \<Rightarrow> (\<exists>hk'. hash_free p hk = Inr hk' \<and> km_rel mem hk' k')"
proof (cases p)
  case None
  then show ?thesis using r by (simp add: CSC369_free_def hash_free_def)
next
  case (Some a)
  note e = km_rel_simps [OF r]
  have a: "a < 2 ^ 64" using p Some by simp
  have rep: "kh_rep kh_int64_hash_func (ptrmap hk) (word_map (malloc_map k))" using r by (simp add: km_rel_def)
  obtain x where x: "kh_get kh_int64_hash_func (ptrmap hk) (of_nat a) = Inr x"
    "case malloc_map k a of None \<Rightarrow> x = kh_end (ptrmap hk)
     | Some v \<Rightarrow> x \<noteq> kh_end (ptrmap hk) \<and> kh_value (ptrmap hk) x = Inr v \<and>
         (\<forall>w. \<exists>h'. kh_set_value (ptrmap hk) x w = Inr h' \<and> kh_rep kh_int64_hash_func h' ((word_map (malloc_map k))(of_nat a \<mapsto> w)))"
    using kh_rep_get [OF rep, of "of_nat a", unfolded word_map_at [OF a]] by blast
  show ?thesis
  proof (cases "malloc_map k a")
    case None
    then show ?thesis using Some x by (simp add: CSC369_free_def hash_free_def)
  next
    case sz: (Some sz)
    obtain t where t: "kh_set_value (ptrmap hk) x (sz OR FREED) = Inr t"
      "kh_rep kh_int64_hash_func t (word_map ((malloc_map k)(a \<mapsto> (sz OR FREED))))"
      using x(2) unfolding sz option.case word_map_upd [OF a] by blast
    have v: "x \<noteq> kh_end (ptrmap hk)" "kh_value (ptrmap hk) x = Inr sz" using x(2) sz by simp_all
    let ?k = "k\<lparr>num_frees := num_frees k + 1, bytes_freed := bytes_freed k + sint sz,
      malloc_map := (malloc_map k)(a \<mapsto> (sz OR FREED))\<rparr>"
    let ?hk = "hk\<lparr>hk_num_frees := num_frees k + 1, hk_bytes_freed := bytes_freed k + sint sz, ptrmap := t\<rparr>"
    have rel: "km_rel mem ?hk ?k" using r t(2) e by (simp add: km_rel_def hk_counts_def km_counts_def)
    define checks :: "unit res" where "checks = (if sz AND FREED \<noteq> 0 then Inl BadPointer else
      bindR (assertR (sz \<noteq> 0)) (\<lambda>_. bindR (assertR (sz < 2 ^ 63 - 1)) (\<lambda>_.
      bindR (assertR (0 < num_mallocs k - num_frees k)) (\<lambda>_. assertR (sint sz \<le> bytes_malloced k - bytes_freed k)))))"
    have c: "bindR checks (\<lambda>_. s) = (if sz AND FREED \<noteq> 0 then Inl BadPointer else
      bindR (assertR (sz \<noteq> 0)) (\<lambda>_. bindR (assertR (sz < 2 ^ 63 - 1)) (\<lambda>_.
      bindR (assertR (0 < num_mallocs k - num_frees k)) (\<lambda>_.
      bindR (assertR (sint sz \<le> bytes_malloced k - bytes_freed k)) (\<lambda>_. s)))))" for s :: "'a res"
      unfolding checks_def by (cases "sz AND FREED = 0") (simp_all only: bindR_assoc bindR_simps simp_thms if_True if_False)
    have f: "CSC369_free p k = bindR checks (\<lambda>_. Inr ?k)"
      unfolding c CSC369_free_def Some option.case sz ..
    have h: "hash_free p hk = bindR checks (\<lambda>_. Inr ?hk)"
      unfolding c hash_free_def Some option.case x(1) e bindR_simps v(2) t(1) if_not_P [OF v(1)] ..
    show ?thesis unfolding f h using rel by (cases checks) simp_all
  qed
qed

lemma malloc_map_keys:
  assumes "addrs_ok (libc k)" "finite (dom (word_map (malloc_map k)))"
  shows "card (dom (word_map (malloc_map (snd (CSC369_malloc s k))))) \<le> Suc (card (dom (word_map (malloc_map k))))"
proof -
  have "malloc_map (snd (CSC369_malloc s k)) = malloc_map k \<or>
    (\<exists>a. libc k (libc_calls k) = Some a \<and> malloc_map (snd (CSC369_malloc s k)) = (malloc_map k)(a \<mapsto> s))"
    by (auto simp: CSC369_malloc_def libc_malloc_def split: option.splits)
  then consider "malloc_map (snd (CSC369_malloc s k)) = malloc_map k"
    | a where "libc k (libc_calls k) = Some a" "malloc_map (snd (CSC369_malloc s k)) = (malloc_map k)(a \<mapsto> s)"
    by blast
  then show ?thesis
  proof cases
    case 2
    then have "a < 2 ^ 64" using assms(1) by (simp add: addrs_ok_def)
    then show ?thesis using card_dom_upd [OF assms(2)] by (simp only: 2(2) word_map_upd)
  qed simp
qed

lemma free_keys: "CSC369_free p k = Inr k' \<Longrightarrow> \<forall>a. p = Some a \<longrightarrow> a < 2 ^ 64 \<Longrightarrow>
   dom (word_map (malloc_map k')) = dom (word_map (malloc_map k))"
  by (auto simp: CSC369_free_def word_map_def split: option.splits if_splits)

text \<open>
  The calls before the first one in which the table finds no memory, and that call, which aborts
  in the assertion on the return code of \<open>kh_put\<close>.
\<close>

definition table_fails :: "(nat \<Rightarrow> kh_alloc \<Rightarrow> bool) \<Rightarrow> km_call list \<Rightarrow> hash_kmalloc \<Rightarrow> bool" where
  "table_fails mem cs hk \<longleftrightarrow> (\<exists>before s after ps hk'. cs = before @ Malloc s # after \<and>
     alloc_run hash_malloc hash_free before hk = Inr (ps, hk') \<and> hash_malloc s hk' = Inl AssertFail \<and>
     (\<exists>a \<in> store_allocs. \<not> mem (hk_libc_calls hk') a))"

lemma table_fails_first:
  "hash_malloc s hk = Inl AssertFail \<Longrightarrow> \<exists>a \<in> store_allocs. \<not> mem (hk_libc_calls hk) a \<Longrightarrow>
   table_fails mem (Malloc s # cs) hk"
  unfolding table_fails_def by (intro exI [of _ "[]"] exI [of _ s] exI [of _ cs]) simp

lemma table_fails_malloc:
  assumes "hash_malloc s hk = Inr (p, hk1)" "table_fails mem cs hk1"
  shows "table_fails mem (Malloc s # cs) hk"
proof -
  obtain before s' after ps hk' where "cs = before @ Malloc s' # after"
    "alloc_run hash_malloc hash_free before hk1 = Inr (ps, hk')" "hash_malloc s' hk' = Inl AssertFail"
    "\<exists>a \<in> store_allocs. \<not> mem (hk_libc_calls hk') a"
    using assms(2) unfolding table_fails_def by blast
  then show ?thesis unfolding table_fails_def using assms(1)
    by (intro exI [of _ "Malloc s # before"] exI [of _ s'] exI [of _ after] exI [of _ "p # ps"] exI [of _ hk']) simp
qed

lemma table_fails_free:
  assumes "hash_free p hk = Inr hk1" "table_fails mem cs hk1"
  shows "table_fails mem (Free p # cs) hk"
proof -
  obtain before s' after ps hk' where "cs = before @ Malloc s' # after"
    "alloc_run hash_malloc hash_free before hk1 = Inr (ps, hk')" "hash_malloc s' hk' = Inl AssertFail"
    "\<exists>a \<in> store_allocs. \<not> mem (hk_libc_calls hk') a"
    using assms(2) unfolding table_fails_def by blast
  then show ?thesis unfolding table_fails_def using assms(1)
    by (intro exI [of _ "Free p # before"] exI [of _ s'] exI [of _ after] exI [of _ ps] exI [of _ hk']) simp
qed

text \<open>The run over the table against the result of the run over the map.\<close>

definition run_agrees ::
  "(nat \<Rightarrow> kh_alloc \<Rightarrow> bool) \<Rightarrow> (ptr list \<times> hash_kmalloc) res \<Rightarrow> (ptr list \<times> kmalloc) res \<Rightarrow> bool" where
  "run_agrees mem hr r = (case r of
      Inl e \<Rightarrow> hr = Inl e
    | Inr (ps, k) \<Rightarrow> \<exists>hk. hr = Inr (ps, hk) \<and> km_rel mem hk k)"

lemma run_agrees_cons:
  "run_agrees mem hr r \<Longrightarrow>
   run_agrees mem (bindR hr (\<lambda>(ps, hk). Inr (p # ps, hk))) (bindR r (\<lambda>(ps, k). Inr (p # ps, k)))"
  by (auto simp: run_agrees_def split: sum.splits)

lemma alloc_run_refines:
  "km_rel mem hk k \<Longrightarrow> card (dom (word_map (malloc_map k))) + length cs \<le> 2 ^ 30 \<Longrightarrow>
   \<forall>a. Free (Some a) \<in> set cs \<longrightarrow> a < 2 ^ 64 \<Longrightarrow>
   run_agrees mem (alloc_run hash_malloc hash_free cs hk) (alloc_run (\<lambda>s k. Inr (CSC369_malloc s k)) CSC369_free cs k) \<or>
   alloc_run hash_malloc hash_free cs hk = Inl AssertFail \<and> table_fails mem cs hk"
proof (induction cs arbitrary: hk k)
  case (Cons c cs)
  have fin: "finite (dom (word_map (malloc_map k)))"
    using Cons.prems(1) kt.rep_finite by (auto simp: km_rel_def)
  show ?case
  proof (cases c)
    case (Malloc s)
    have "card (dom (word_map (malloc_map k))) < 2 ^ 30" using Cons.prems(2) by simp
    from hash_malloc_refines [OF Cons.prems(1) this, of s] show ?thesis
    proof
      assume "\<exists>hk'. hash_malloc s hk = Inr (fst (CSC369_malloc s k), hk') \<and> km_rel mem hk' (snd (CSC369_malloc s k))"
      then obtain hk1 where 1: "hash_malloc s hk = Inr (fst (CSC369_malloc s k), hk1)"
        "km_rel mem hk1 (snd (CSC369_malloc s k))" by blast
      have "card (dom (word_map (malloc_map (snd (CSC369_malloc s k))))) + length cs \<le> 2 ^ 30"
        using malloc_map_keys [OF km_rel_simps(8) [OF Cons.prems(1)] fin, of s] Cons.prems(2) by simp
      moreover have "\<forall>a. Free (Some a) \<in> set cs \<longrightarrow> a < 2 ^ 64" using Cons.prems(3) by simp
      ultimately have "run_agrees mem (alloc_run hash_malloc hash_free cs hk1)
          (alloc_run (\<lambda>s k. Inr (CSC369_malloc s k)) CSC369_free cs (snd (CSC369_malloc s k))) \<or>
        alloc_run hash_malloc hash_free cs hk1 = Inl AssertFail \<and> table_fails mem cs hk1"
        by (rule Cons.IH [OF 1(2)])
      then show ?thesis
      proof
        assume "run_agrees mem (alloc_run hash_malloc hash_free cs hk1)
          (alloc_run (\<lambda>s k. Inr (CSC369_malloc s k)) CSC369_free cs (snd (CSC369_malloc s k)))"
        from run_agrees_cons [OF this, of "fst (CSC369_malloc s k)"] show ?thesis
          by (intro disjI1) (simp only: Malloc alloc_run.simps 1(1) bindR_simps case_prod_beta prod.sel)
      next
        assume "alloc_run hash_malloc hash_free cs hk1 = Inl AssertFail \<and> table_fails mem cs hk1"
        then show ?thesis using table_fails_malloc [OF 1(1)]
          by (intro disjI2 conjI) (simp_all only: Malloc alloc_run.simps 1(1) bindR_simps case_prod_conv)
      qed
    next
      assume f: "hash_malloc s hk = Inl AssertFail \<and> (\<exists>a \<in> store_allocs. \<not> mem (hk_libc_calls hk) a)"
      then show ?thesis using table_fails_first by (simp add: Malloc)
    qed
  next
    case (Free p)
    have p: "\<forall>a. p = Some a \<longrightarrow> a < 2 ^ 64" using Cons.prems(3) Free by auto
    note f = hash_free_refines [OF Cons.prems(1) p]
    show ?thesis
    proof (cases "CSC369_free p k")
      case (Inl e)
      then show ?thesis using f Free by (simp add: run_agrees_def)
    next
      case (Inr k1)
      then obtain hk1 where 1: "hash_free p hk = Inr hk1" "km_rel mem hk1 k1" using f by auto
      have "card (dom (word_map (malloc_map k1))) + length cs \<le> 2 ^ 30"
        using Cons.prems(2) free_keys [OF Inr p] by simp
      from Cons.IH [OF 1(2) this] Cons.prems(3)
      show ?thesis unfolding Free alloc_run.simps Inr 1(1) bindR_simps
        using table_fails_free [OF 1(1)] by auto
    qed
  qed
qed (simp add: run_agrees_def)

lemma init_rel: "addrs_ok lib \<Longrightarrow> km_rel mem (hash_MallocInit lib mem) (CSC369_MallocInit lib)"
proof -
  have "word_map Map.empty = (Map.empty :: u64 \<rightharpoonup> u64)" by (simp add: word_map_def fun_eq_iff)
  then show "addrs_ok lib \<Longrightarrow> ?thesis" using kh_rep_init
    by (simp only: km_rel_def hash_MallocInit_def CSC369_MallocInit_def hk_counts_def km_counts_def
        kmalloc.simps hash_kmalloc.simps simp_thms)
qed

section \<open>The property\<close>

text \<open>
  C25: any sequence of at most \<open>2 ^ 30\<close> calls of \<open>CSC369_malloc\<close> and \<open>CSC369_free\<close>, with addresses
  of 64 bits, has over the hash table exactly the results it has over the finite map, faults
  included: the pointers returned, a double free or the free of an unknown pointer detected at
  the same call, and the same counters.  The one exception is a call of \<open>CSC369_malloc\<close> in which
  an allocation of the table fails: it aborts in the assertion on the return code of \<open>kh_put\<close>,
  after the calls before it have returned.
\<close>

theorem allocator_over_khash:
  assumes "addrs_ok lib" "length cs \<le> 2 ^ 30" "\<forall>a. Free (Some a) \<in> set cs \<longrightarrow> a < 2 ^ 64"
  shows "map_sum id (\<lambda>(ps, k). (ps, hk_counts k)) (alloc_run hash_malloc hash_free cs (hash_MallocInit lib mem)) =
       map_sum id (\<lambda>(ps, k). (ps, km_counts k)) (alloc_run (\<lambda>s k. Inr (CSC369_malloc s k)) CSC369_free cs (CSC369_MallocInit lib)) \<or>
     alloc_run hash_malloc hash_free cs (hash_MallocInit lib mem) = Inl AssertFail \<and>
       (\<exists>before s after ps hk. cs = before @ Malloc s # after \<and>
          alloc_run hash_malloc hash_free before (hash_MallocInit lib mem) = Inr (ps, hk) \<and>
          hash_malloc s hk = Inl AssertFail \<and>
          (\<exists>a \<in> {Flags_Malloc, Keys_Grow, Vals_Grow}. \<not> mem (hk_libc_calls hk) a))"
proof -
  have "word_map (malloc_map (CSC369_MallocInit lib)) = (\<lambda>_. None)"
    by (simp add: word_map_def CSC369_MallocInit_def fun_eq_iff)
  then have "card (dom (word_map (malloc_map (CSC369_MallocInit lib)))) + length cs \<le> 2 ^ 30" using assms(2) by simp
  from alloc_run_refines [OF init_rel [OF assms(1)] this assms(3), of mem] show ?thesis
  proof
    assume "run_agrees mem (alloc_run hash_malloc hash_free cs (hash_MallocInit lib mem))
      (alloc_run (\<lambda>s k. Inr (CSC369_malloc s k)) CSC369_free cs (CSC369_MallocInit lib))"
    then show ?thesis by (intro disjI1) (auto simp: run_agrees_def km_rel_def split: sum.splits)
  next
    assume "alloc_run hash_malloc hash_free cs (hash_MallocInit lib mem) = Inl AssertFail \<and>
      table_fails mem cs (hash_MallocInit lib mem)"
    then show ?thesis unfolding table_fails_def store_allocs_def by (intro disjI2)
  qed
qed

theorem allocator_over_khash_witness:
  "map_sum id (\<lambda>(ps, k). (ps, hk_counts k)) (alloc_run hash_malloc hash_free [Malloc 8, Malloc 16, Free (Some 0)]
     (hash_MallocInit (\<lambda>n. if n < 2 then Some (16 * n) else None) (\<lambda>_ _. True))) =
       Inr ([Some 0, Some 16], (2, 1, 24, 8)) \<and>
   map_sum id (\<lambda>(ps, k). (ps, hk_counts k)) (alloc_run hash_malloc hash_free [Malloc 8, Free (Some 0), Free (Some 0)]
     (hash_MallocInit (\<lambda>n. if n < 2 then Some (16 * n) else None) (\<lambda>_ _. True))) = Inl BadPointer"
proof -
  let ?lib = "\<lambda>n :: nat. if n < 2 then Some (16 * n) else None"
  let ?cs = "[Malloc 8, Malloc 16, Free (Some 0)]" and ?ds = "[Malloc 8, Free (Some 0), Free (Some 0)]"
  have "addrs_ok ?lib" by (simp add: addrs_ok_def)
  moreover have "map_sum id (\<lambda>(ps, k). (ps, km_counts k)) (alloc_run (\<lambda>s k. Inr (CSC369_malloc s k)) CSC369_free ?cs
      (CSC369_MallocInit ?lib)) = Inr ([Some 0, Some 16], (2, 1, 24, 8))" by code_simp
  moreover have "map_sum id (\<lambda>(ps, k). (ps, km_counts k)) (alloc_run (\<lambda>s k. Inr (CSC369_malloc s k)) CSC369_free ?ds
      (CSC369_MallocInit ?lib)) = Inl BadPointer" by code_simp
  ultimately show ?thesis
    using allocator_over_khash [of ?lib ?cs "\<lambda>_ _. True"] allocator_over_khash [of ?lib ?ds "\<lambda>_ _. True"] by simp
qed

end
