(* ===== verification/HashFunctions.thy ===== *)
theory HashFunctions
  imports Khash
begin

text \<open>
  The two hash functions of \<open>khash.h\<close> that the allocator does not use: the one for strings is
  the polynomial in 31 of the characters, and the one for integers never maps two keys to the
  same value.
\<close>

section \<open>Strings\<close>

text \<open>
  A string is the bytes at the pointer; a character is a signed byte, as on the platforms of the
  program, and the conversion to \<open>khint_t\<close> extends its sign.
\<close>

fun X31_loop :: "u32 \<Rightarrow> byte list \<Rightarrow> u32" where
  "X31_loop h [] = h"
| "X31_loop h (c # s) = (if c = 0 then h else X31_loop (push_bit 5 h - h + scast c) s)"

definition ac_X31_hash_string :: "byte list \<Rightarrow> u32" where
  "ac_X31_hash_string s =
     (case s of [] \<Rightarrow> 0 | c # s' \<Rightarrow> let h = scast c in if h \<noteq> 0 then X31_loop h s' else h)"

lemma X31_loop_fold:
  "X31_loop h s = foldl (\<lambda>h c. 31 * h + scast c) h (takeWhile (\<lambda>c. c \<noteq> 0) s)"
proof (induction s arbitrary: h)
  case (Cons c s)
  have "push_bit 5 h - h = 31 * h" by (simp add: push_bit_eq_mult)
  then show ?case using Cons by simp
qed simp

lemma scast_byte_0: "(scast (c :: byte) :: u32) = 0 \<longleftrightarrow> c = 0"
proof
  assume h: "(scast c :: u32) = 0"
  show "c = 0"
  proof (rule bit_word_eqI)
    fix i assume i: "i < LENGTH(8)"
    then have "bit c i = bit (scast c :: u32) i" by (simp add: bit_signed_iff)
    then show "bit c i = bit 0 i" by (simp add: h)
  qed
qed simp

lemma X31_polynomial:
  "ac_X31_hash_string s = foldl (\<lambda>h c. 31 * h + scast c) 0 (takeWhile (\<lambda>c. c \<noteq> 0) s)"
  by (cases s) (simp_all add: ac_X31_hash_string_def X31_loop_fold scast_byte_0 Let_def)

section \<open>Integers\<close>

definition ac_Wang_hash :: "u32 \<Rightarrow> u32" where
  "ac_Wang_hash key =
     (let key = key + NOT (push_bit 15 key);
          key = key XOR drop_bit 10 key;
          key = key + push_bit 3 key;
          key = key XOR drop_bit 6 key;
          key = key + NOT (push_bit 11 key);
          key = key XOR drop_bit 16 key
      in key)"

lemma xor_shift_inj: "0 < n \<Longrightarrow> inj (\<lambda>x :: u32. x XOR drop_bit n x)"
proof (rule injI)
  fix x y :: u32
  assume n: "0 < n" and e: "x XOR drop_bit n x = y XOR drop_bit n y"
  let ?d = "x XOR y"
  have "?d = (x XOR drop_bit n x) XOR drop_bit n x XOR y" by (simp add: xor.assoc xor.commute xor.left_commute)
  also have "\<dots> = drop_bit n ?d" unfolding e by (simp add: drop_bit_xor xor.assoc xor.commute xor.left_commute)
  finally have "unat ?d = unat ?d div 2 ^ n" by (metis drop_bit_eq_div unat_drop_bit_eq)
  moreover have "unat ?d div 2 ^ n < unat ?d" if "0 < unat ?d" 
    using that n one_less_power [of "2 :: nat" n] by (intro div_less_dividend) simp_all
  ultimately have "unat ?d = 0" by linarith
  then have "?d = 0" by (simp only: unat_eq_0)
  moreover have "x = ?d XOR y" by (simp add: xor.assoc)
  ultimately show "x = y" by simp
qed

lemma mult_inj: "(c :: u32) * a = 1 \<Longrightarrow> inj (\<lambda>x :: u32. a * x + b)"
proof (rule injI)
  fix x y assume c: "c * a = 1" and "a * x + b = a * y + b"
  then have "c * (a * x) = c * (a * y)" by simp
  then show "x = y" using c by (simp add: mult.assoc [symmetric])
qed

lemma Wang_hash_inj: "inj ac_Wang_hash"
proof -
  have n: "x + NOT (push_bit k x) = (1 - 2 ^ k) * x + (- 1)" for x :: u32 and k
    by (simp add: push_bit_eq_mult not_eq_complement algebra_simps)
  have p: "x + push_bit 3 x = 9 * x + 0" for x :: u32 by (simp add: push_bit_eq_mult)
  have i1: "inj (\<lambda>x :: u32. x + NOT (push_bit 15 x))"
    unfolding n by (rule mult_inj [of "0x40008001"]) simp
  have i2: "inj (\<lambda>x :: u32. x + push_bit 3 x)"
    unfolding p by (rule mult_inj [of "0x38e38e39"]) simp
  have i3: "inj (\<lambda>x :: u32. x + NOT (push_bit 11 x))"
    unfolding n by (rule mult_inj [of "0x00400801"]) simp
  have "ac_Wang_hash = (\<lambda>x. x XOR drop_bit 16 x) \<circ> (\<lambda>x. x + NOT (push_bit 11 x)) \<circ> (\<lambda>x. x XOR drop_bit 6 x) \<circ>
      (\<lambda>x. x + push_bit 3 x) \<circ> (\<lambda>x. x XOR drop_bit 10 x) \<circ> (\<lambda>x. x + NOT (push_bit 15 x))"
    by (simp add: ac_Wang_hash_def fun_eq_iff Let_def)
  moreover have "inj \<dots>" by (intro inj_compose i1 i2 i3 xor_shift_inj) simp_all
  ultimately show ?thesis by simp
qed

end
