(* ===== verification/KhashIter.thy ===== *)
theory KhashIter
  imports KhashMap
begin

text \<open>
  The iteration macros of \<open>khash.h\<close>.  The block of code that \<open>kh_foreach\<close> executes for every entry
  is an argument, a step on a state of its own that leaves the table alone; it may fault.  The
  iteration visits the entries of the finite map that the table represents, each of them once.
\<close>

section \<open>The macros\<close>

definition kh_exist :: "('k, 'v) khash \<Rightarrow> u32 \<Rightarrow> bool res" where
  "kh_exist h x = bindR (ac_iseither (flags h) x) (\<lambda>e. Inr (\<not> e))"

definition kh_key :: "('k, 'v) khash \<Rightarrow> u32 \<Rightarrow> 'k res" where
  "kh_key h x = cell (keys h) x"

definition kh_val :: "('k, 'v) khash \<Rightarrow> u32 \<Rightarrow> 'v res" where
  "kh_val h x = cell (vals h) x"

definition kh_begin :: "('k, 'v) khash \<Rightarrow> u32" where
  "kh_begin h = 0"

lemma step_measure:
  assumes "i \<noteq> (e :: u32)"
  shows "unat (e - (i + 1)) < unat (e - i)"
proof -
  have "e - i \<noteq> 0" using assms by simp
  then have "unat (e - i - 1) < unat (e - i)" by (simp add: unat_minus_one unat_gt_0)
  then show ?thesis by (simp add: diff_diff_eq)
qed

text \<open>The loop of both macros; \<open>body\<close> is what it does with a bucket that contains data.\<close>

function kh_foreach_from :: "('k, 'v) khash \<Rightarrow> (u32 \<Rightarrow> 's \<Rightarrow> 's res) \<Rightarrow> u32 \<Rightarrow> 's \<Rightarrow> 's res" where
  "kh_foreach_from h body i s =
     (if i = kh_end h then Inr s
      else bindR (kh_exist h i) (\<lambda>e.
        if \<not> e then kh_foreach_from h body (i + 1) s
        else bindR (body i s) (\<lambda>s. kh_foreach_from h body (i + 1) s)))"
  by pat_completeness auto

termination kh_foreach_from
  by (relation "measure (\<lambda>(h, body, i, s). unat (kh_end h - i))") (simp_all add: step_measure)

declare kh_foreach_from.simps [simp del]

definition kh_foreach :: "('k, 'v) khash \<Rightarrow> ('k \<Rightarrow> 'v \<Rightarrow> 's \<Rightarrow> 's res) \<Rightarrow> 's \<Rightarrow> 's res" where
  "kh_foreach h code s =
     kh_foreach_from h (\<lambda>i s.
       bindR (kh_key h i) (\<lambda>kvar.
       bindR (kh_val h i) (\<lambda>vvar.
       code kvar vvar s))) (kh_begin h) s"

definition kh_foreach_value :: "('k, 'v) khash \<Rightarrow> ('v \<Rightarrow> 's \<Rightarrow> 's res) \<Rightarrow> 's \<Rightarrow> 's res" where
  "kh_foreach_value h code s =
     kh_foreach_from h (\<lambda>i s. bindR (kh_val h i) (\<lambda>vvar. code vvar s)) (kh_begin h) s"

text \<open>The blocks that \<open>kh_destroy\<close> frees, in order.\<close>

datatype kh_block = Keys_Block | Flags_Block | Vals_Block | Table_Block

definition kh_destroy :: "('k, 'v) khash option \<Rightarrow> kh_block list" where
  "kh_destroy h = (case h of None \<Rightarrow> [] | Some _ \<Rightarrow> [Keys_Block, Flags_Block, Vals_Block, Table_Block])"

section \<open>Iteration over a list\<close>

fun each :: "('k \<Rightarrow> 'v \<Rightarrow> 's \<Rightarrow> 's res) \<Rightarrow> ('k \<times> 'v) list \<Rightarrow> 's \<Rightarrow> 's res" where
  "each code [] s = Inr s"
| "each code ((k, v) # xs) s = bindR (code k v s) (each code xs)"

text \<open>The entries in the buckets from \<open>i\<close> on.\<close>

definition entries_from :: "('k, 'v) khash \<Rightarrow> nat \<Rightarrow> ('k \<times> 'v) list" where
  "entries_from h i = map (\<lambda>j. (the (keys h ! j), the (vals h ! j)))
     (filter (\<lambda>j. j \<in> live_at (flags h) (unat (n_buckets h))) [i..<unat (n_buckets h)])"

lemma entries_step:
  "i < unat (n_buckets h) \<Longrightarrow> entries_from h i =
     (if i \<in> live_at (flags h) (unat (n_buckets h)) then [(the (keys h ! i), the (vals h ! i))] else []) @
     entries_from h (Suc i)"
  by (simp add: entries_from_def upt_conv_Cons)

text \<open>A bucket that is not in use is skipped, the others have a key and a value.\<close>

lemma bucket_cases:
  assumes r: "kh_rep hash h m" and i: "unat i < unat (n_buckets h)"
  shows "kh_exist h i = Inr (unat i \<in> live_at (flags h) (unat (n_buckets h)))"
    "unat i \<in> live_at (flags h) (unat (n_buckets h)) \<Longrightarrow> kh_key h i = Inr (the (keys h ! unat i)) \<and>
       kh_val h i = Inr (the (vals h ! unat i)) \<and> m (the (keys h ! unat i)) = Some (the (vals h ! unat i))"
proof -
  obtain b where t: "table_ok hash b h" using r i by (auto simp: kh_rep_def kh_wf_def no_table_def)
  note d = t [unfolded table_ok_def]
  have n: "unat (n_buckets h) = 2 ^ b" using d capacity_unat by blast
  have len: "unat i < 16 * length (flags h)" "unat i < length (keys h)" "unat i < length (vals h)" using i n d by simp_all
  show "kh_exist h i = Inr (unat i \<in> live_at (flags h) (unat (n_buckets h)))"
    using i by (simp add: kh_exist_def ac_reads(3) [OF len(1)] live_at_def)
  assume live: "unat i \<in> live_at (flags h) (unat (n_buckets h))"
  then obtain k where k: "keys h ! unat i = Some k" using d n by (auto simp: keys_ok_def)
  from live_key [OF r live k] obtain v where "m k = Some v" "vals h ! unat i = Some v" by blast
  then show "kh_key h i = Inr (the (keys h ! unat i)) \<and>
       kh_val h i = Inr (the (vals h ! unat i)) \<and> m (the (keys h ! unat i)) = Some (the (vals h ! unat i))"
    using k len by (simp add: kh_key_def kh_val_def cell_def)
qed

lemma foreach_entries:
  assumes r: "kh_rep hash h m"
    and body: "\<And>i s. unat i \<in> live_at (flags h) (unat (n_buckets h)) \<Longrightarrow>
      body i s = code (the (keys h ! unat i)) (the (vals h ! unat i)) s"
  shows "unat i \<le> unat (n_buckets h) \<Longrightarrow> kh_foreach_from h body i s = each code (entries_from h (unat i)) s"
proof (induction "unat (n_buckets h) - unat i" arbitrary: i s)
  case 0
  then have e: "unat i = unat (n_buckets h)" by simp
  then have "i = kh_end h" by (simp add: kh_end_def word_unat_eq_iff)
  then show ?case using e by (subst kh_foreach_from.simps) (simp add: entries_from_def)
next
  case (Suc d)
  then have lt: "unat i < unat (n_buckets h)" by simp
  then have ne: "i \<noteq> kh_end h" by (auto simp: kh_end_def)
  have "unat (n_buckets h) < 2 ^ 32" using unsigned_less [of "n_buckets h"] by simp
  then have "unat i + 1 < 2 ^ 32" using lt by linarith
  then have u: "unat (i + 1) = Suc (unat i)" by (simp add: unat_word_ariths)
  have IH: "kh_foreach_from h body (i + 1) s = each code (entries_from h (Suc (unat i))) s" for s
    using Suc.hyps(1) [of "i + 1"] Suc.hyps(2) lt unfolding u by simp
  show ?case
    using ne bucket_cases(1) [OF r lt] body [of i] lt
    by (subst kh_foreach_from.simps) (simp add: IH entries_step)
qed

text \<open>The entries are the map.\<close>

lemma entries_map:
  assumes r: "kh_rep hash h m"
  shows "distinct (map fst (entries_from h 0))" "map_of (entries_from h 0) = m"
proof -
  let ?n = "unat (n_buckets h)"
  let ?L = "live_at (flags h) ?n" and ?K = "\<lambda>j. the (keys h ! j)"
  have "?n < 2 ^ 32" using unsigned_less [of "n_buckets h"] by simp
  then have lt32: "unat (of_nat j :: u32) = j" if "j < ?n" for j
    using that by (simp add: unat_of_nat take_bit_nat_eq_self)
  have kv: "keys h ! j = Some (?K j) \<and> m (?K j) = Some (the (vals h ! j))" if j: "j \<in> ?L" for j
  proof -
    have "j < ?n" using j by (simp add: live_at_def)
    moreover obtain b where "table_ok hash b h" using r calculation by (auto simp: kh_rep_def kh_wf_def no_table_def)
    then have "\<exists>k. keys h ! j = Some k" using j capacity_unat unfolding table_ok_def keys_ok_def by metis
    ultimately show ?thesis using bucket_cases(2) [OF r, of "of_nat j"] j lt32 by auto
  qed
  have inj: "inj_on ?K ?L"
  proof (cases "?n = 0")
    case True
    then show ?thesis by (simp add: live_at_def)
  next
    case False
    then obtain b where t: "table_ok hash b h" using r by (auto simp: kh_rep_def kh_wf_def no_table_def)
    then have "inj_on ((!) (keys h)) ?L" using capacity_unat unfolding table_ok_def keys_ok_def by metis
    moreover have "keys h ! i = keys h ! j" if "i \<in> ?L" "j \<in> ?L" "?K i = ?K j" for i j using kv that by metis
    ultimately show ?thesis by (auto simp: inj_on_def)
  qed
  have set: "set (filter (\<lambda>j. j \<in> ?L) [0..<?n]) = ?L" by (auto simp: live_at_def)
  then show d: "distinct (map fst (entries_from h 0))"
    using inj by (simp add: entries_from_def distinct_map comp_def inj_on_def)
  have ex: "\<exists>j \<in> ?L. ?K j = k \<and> the (vals h ! j) = v" if "m k = Some v" for k v
  proof -
    have "(k, Some v) \<in> contents h" using r that by (simp add: kh_rep_def)
    then obtain i where "i \<in> ?L" "keys h ! i = Some k" "Some v = vals h ! i"
      unfolding contents_def pairs_def by blast
    then show ?thesis by (intro bexI [of _ i]) (simp_all add: option.sel flip: \<open>Some v = vals h ! i\<close>)
  qed
  have mem: "(k, v) \<in> set (entries_from h 0) \<longleftrightarrow> m k = Some v" for k v
  proof
    assume "(k, v) \<in> set (entries_from h 0)"
    then obtain j where "j \<in> ?L" "(k, v) = (?K j, the (vals h ! j))"
      unfolding entries_from_def set_map set by blast
    then show "m k = Some v" using kv by simp
  next
    assume "m k = Some v"
    then obtain j where "j \<in> ?L" "?K j = k" "the (vals h ! j) = v" using ex by blast
    then show "(k, v) \<in> set (entries_from h 0)" unfolding entries_from_def set_map set by blast
  qed
  show "map_of (entries_from h 0) = m"
  proof
    fix k
    show "map_of (entries_from h 0) k = m k"
    proof (cases "m k")
      case None
      then have "k \<notin> fst ` set (entries_from h 0)" using mem by force
      then show ?thesis using None by (simp add: map_of_eq_None_iff)
    next
      case (Some v)
      then show ?thesis using mem map_of_is_SomeI [OF d] by simp
    qed
  qed
qed

section \<open>What an iteration does\<close>

text \<open>
  \<open>kh_foreach\<close> executes its block once for every entry of the map, in some order without
  repetitions, and so does \<open>kh_foreach_value\<close> for the values; both end, and they fault only when
  the block does.
\<close>

lemma kh_foreach_visits_map:
  assumes "kh_rep hash h m"
  obtains xs where "distinct (map fst xs)" "map_of xs = m"
    "\<And>code s. kh_foreach h code s = each code xs s"
    "\<And>code s. kh_foreach_value h code s = each (\<lambda>_. code) xs s"
proof (rule that [OF entries_map [OF assms]])
  have live: "unat i < unat (n_buckets h)" if "unat i \<in> live_at (flags h) (unat (n_buckets h))" for i
    using that by (simp add: live_at_def)
  note b = bucket_cases(2) [OF assms live]
  show "kh_foreach h code s = each code (entries_from h 0) s" for code and s :: 'c
    unfolding kh_foreach_def kh_begin_def using foreach_entries [OF assms, of _ code 0] b by simp
  show "kh_foreach_value h code s = each (\<lambda>_. code) (entries_from h 0) s" for code and s :: 'd
    unfolding kh_foreach_value_def kh_begin_def using foreach_entries [OF assms, of _ "\<lambda>_. code" 0] b by simp
qed

text \<open>Collecting the entries gives the map back; summing the values of a map to numbers sums it.\<close>

lemma each_collect: "each (\<lambda>k v ys. Inr (ys @ [(k, v)])) xs ys = Inr (ys @ xs)"
  by (induction xs arbitrary: ys) (auto simp: bindR_def)

lemma each_sum: "each (\<lambda>_ v n. Inr (n + v)) xs (n :: int) = Inr (n + sum_list (map snd xs))"
  by (induction xs arbitrary: n) (auto simp: bindR_def)

text \<open>A table destroyed gives back each of its blocks once.\<close>

lemma kh_destroy_blocks: "distinct (kh_destroy h)" "h \<noteq> None \<Longrightarrow> set (kh_destroy h) = UNIV"
  by (auto simp: kh_destroy_def split: option.split) (metis kh_block.exhaust)

end
