(* ===== verification/Defs.thy ===== *)
theory Defs
  imports Prelude
begin

text \<open>
  The shared definitions of \<open>csc369_def.h\<close>: the geometry of virtual addresses and
  frames, the kinds of memory access, one access of a trace, and the statistics.
\<close>

section \<open>Address geometry\<close>

definition CSC369_VADDR_BITS :: nat where
  "CSC369_VADDR_BITS = 48"

definition CSC369_VADDR_OFFSET_BITS :: nat where
  "CSC369_VADDR_OFFSET_BITS = 12"

definition CSC369_VADDR_PAGE_NUMBER_BITS :: nat where
  "CSC369_VADDR_PAGE_NUMBER_BITS = 36"

definition CSC369_PAGE_SIZE :: nat where
  "CSC369_PAGE_SIZE = 2 ^ CSC369_VADDR_OFFSET_BITS"

definition CSC369_SIMULATED_FRAME_SIZE :: nat where
  "CSC369_SIMULATED_FRAME_SIZE = 16"

lemmas geometry_defs = CSC369_VADDR_BITS_def CSC369_VADDR_OFFSET_BITS_def
  CSC369_VADDR_PAGE_NUMBER_BITS_def CSC369_PAGE_SIZE_def CSC369_SIMULATED_FRAME_SIZE_def

lemma PAGE_SIZE_eq [simp]: "CSC369_PAGE_SIZE = 4096"
  by (simp add: geometry_defs)

lemma FRAME_SIZE_eq [simp]: "CSC369_SIMULATED_FRAME_SIZE = 16"
  by (simp add: geometry_defs)

section \<open>Memory accesses\<close>

datatype CSC369_AccessType =
    CSC369_ACCESS_TYPE_STORE
  | CSC369_ACCESS_TYPE_MODIFY
  | CSC369_ACCESS_TYPE_LOAD
  | CSC369_ACCESS_TYPE_INSTRUCTION_FETCH

record CSC369_MemAccess =
  access_type :: CSC369_AccessType
  virtual_address :: u64
  access_value :: byte

definition is_write :: "CSC369_MemAccess \<Rightarrow> bool" where
  "is_write a \<longleftrightarrow> access_type a = CSC369_ACCESS_TYPE_STORE \<or>
                  access_type a = CSC369_ACCESS_TYPE_MODIFY"

section \<open>Statistics\<close>

record CSC369_MMStats =
  ref_count :: u32
  hit_count :: u32
  miss_count :: u32
  evict_clean_count :: u32
  evict_dirty_count :: u32

end
