(* ===== verification/PageTable.thy ===== *)
theory PageTable
  imports Defs Kmalloc
begin

text \<open>
  \<open>csc369_page_table.c\<close>: page table entries and the three-level page table.  The heap of
  the page table keeps the entries and the table objects in one store each, indexed by their
  address, beside the state of \<open>CSC369_malloc\<close>; a table object holds the pointer to its
  array of 4096 entry pointers and the contents of that array.  The functions take pointers
  that may be NULL and fail the way the code does: by an \<open>assert\<close>, by dereferencing NULL,
  or by indexing past the array.  \<open>pte_at\<close> is the abstract view, the partial map from paths
  of indices to entries; \<open>pt_wf\<close> says that the objects reachable from the root form a tree.
\<close>

section \<open>Entries and tables\<close>

record csc369_pte =
  frame_number :: u64
  swap_offset :: u64      \<comment> \<open>an \<open>off_t\<close>; \<open>-1\<close> means no space in the swap file\<close>
  valid :: bool
  dirty :: bool
  reference :: bool
  on_swap :: bool
  page_table :: ptr

record csc369_page_table =
  ptes_block :: addr
  ptes :: "nat \<rightharpoonup> addr"

record pt_heap =
  km :: kmalloc
  pte_mem :: "addr \<rightharpoonup> csc369_pte"
  pt_mem :: "addr \<rightharpoonup> csc369_page_table"

definition sizeof_pte :: u64 where
  "sizeof_pte = 32"

definition sizeof_page_table :: u64 where
  "sizeof_page_table = 8"

definition ptes_count :: nat where
  "ptes_count = 2 ^ (CSC369_VADDR_PAGE_NUMBER_BITS div 3)"

definition init_pte :: csc369_pte where
  "init_pte = \<lparr>frame_number = 0, swap_offset = -1, valid = False, dirty = False,
               reference = False, on_swap = False, page_table = None\<rparr>"

definition CSC369_PTECreate :: "pt_heap \<Rightarrow> ptr \<times> pt_heap" where
  "CSC369_PTECreate h =
     (case CSC369_malloc sizeof_pte (km h) of
        (None, k) \<Rightarrow> (None, h\<lparr>km := k\<rparr>)
      | (Some p, k) \<Rightarrow> (Some p, h\<lparr>km := k, pte_mem := (pte_mem h)(p \<mapsto> init_pte)\<rparr>))"

definition pte_read :: "ptr \<Rightarrow> pt_heap \<Rightarrow> csc369_pte res" where
  "pte_read p h = (case p of
      None \<Rightarrow> Inl NullDeref
    | Some a \<Rightarrow> (case pte_mem h a of None \<Rightarrow> Inl BadPointer | Some e \<Rightarrow> Inr e))"

definition pte_write :: "ptr \<Rightarrow> (csc369_pte \<Rightarrow> csc369_pte) \<Rightarrow> pt_heap \<Rightarrow> pt_heap res" where
  "pte_write p f h = (case p of
      None \<Rightarrow> Inl NullDeref
    | Some a \<Rightarrow> (case pte_mem h a of
        None \<Rightarrow> Inl BadPointer
      | Some e \<Rightarrow> Inr (h\<lparr>pte_mem := (pte_mem h)(a \<mapsto> f e)\<rparr>)))"

section \<open>Getters and setters, each with its assertion\<close>

definition pte_get :: "(csc369_pte \<Rightarrow> 'a) \<Rightarrow> ptr \<Rightarrow> pt_heap \<Rightarrow> 'a res" where
  "pte_get f p h = bindR (assertR (p \<noteq> None)) (\<lambda>_. bindR (pte_read p h) (\<lambda>e. Inr (f e)))"

definition pte_put :: "(csc369_pte \<Rightarrow> csc369_pte) \<Rightarrow> ptr \<Rightarrow> pt_heap \<Rightarrow> pt_heap res" where
  "pte_put f p h = bindR (assertR (p \<noteq> None)) (\<lambda>_. pte_write p f h)"

definition CSC369_PTEIsValid :: "ptr \<Rightarrow> pt_heap \<Rightarrow> bool res" where
  "CSC369_PTEIsValid = pte_get valid"

definition CSC369_PTESetValid :: "ptr \<Rightarrow> bool \<Rightarrow> pt_heap \<Rightarrow> pt_heap res" where
  "CSC369_PTESetValid p v = pte_put (\<lambda>e. e\<lparr>valid := v\<rparr>) p"

definition CSC369_PTEIsDirty :: "ptr \<Rightarrow> pt_heap \<Rightarrow> bool res" where
  "CSC369_PTEIsDirty = pte_get dirty"

definition CSC369_PTESetDirty :: "ptr \<Rightarrow> bool \<Rightarrow> pt_heap \<Rightarrow> pt_heap res" where
  "CSC369_PTESetDirty p v = pte_put (\<lambda>e. e\<lparr>dirty := v\<rparr>) p"

definition CSC369_PTEIsReferenced :: "ptr \<Rightarrow> pt_heap \<Rightarrow> bool res" where
  "CSC369_PTEIsReferenced = pte_get reference"

definition CSC369_PTESetReferenced :: "ptr \<Rightarrow> bool \<Rightarrow> pt_heap \<Rightarrow> pt_heap res" where
  "CSC369_PTESetReferenced p v = pte_put (\<lambda>e. e\<lparr>reference := v\<rparr>) p"

definition CSC369_PTEIsOnSwap :: "ptr \<Rightarrow> pt_heap \<Rightarrow> bool res" where
  "CSC369_PTEIsOnSwap = pte_get on_swap"

definition CSC369_PTESetOnSwap :: "ptr \<Rightarrow> bool \<Rightarrow> pt_heap \<Rightarrow> pt_heap res" where
  "CSC369_PTESetOnSwap p v = pte_put (\<lambda>e. e\<lparr>on_swap := v\<rparr>) p"

definition CSC369_PTEGetFrameNumber :: "ptr \<Rightarrow> pt_heap \<Rightarrow> u64 res" where
  "CSC369_PTEGetFrameNumber = pte_get frame_number"

definition CSC369_PTESetFrameNumber :: "ptr \<Rightarrow> u64 \<Rightarrow> pt_heap \<Rightarrow> pt_heap res" where
  "CSC369_PTESetFrameNumber p v = pte_put (\<lambda>e. e\<lparr>frame_number := v\<rparr>) p"

definition CSC369_PTEGetSwapOffset :: "ptr \<Rightarrow> pt_heap \<Rightarrow> u64 res" where
  "CSC369_PTEGetSwapOffset = pte_get swap_offset"

definition CSC369_PTESetSwapOffset :: "ptr \<Rightarrow> u64 \<Rightarrow> pt_heap \<Rightarrow> pt_heap res" where
  "CSC369_PTESetSwapOffset p v = pte_put (\<lambda>e. e\<lparr>swap_offset := v\<rparr>) p"

lemmas pte_getter_defs = CSC369_PTEIsValid_def CSC369_PTEIsDirty_def CSC369_PTEIsReferenced_def
  CSC369_PTEIsOnSwap_def CSC369_PTEGetFrameNumber_def CSC369_PTEGetSwapOffset_def

lemmas pte_setter_defs = CSC369_PTESetValid_def CSC369_PTESetDirty_def CSC369_PTESetReferenced_def
  CSC369_PTESetOnSwap_def CSC369_PTESetFrameNumber_def CSC369_PTESetSwapOffset_def

lemma pte_read_Some [simp]: "pte_mem h a = Some e \<Longrightarrow> pte_read (Some a) h = Inr e"
  by (simp add: pte_read_def)

lemma pte_write_Some [simp]:
  "pte_mem h a = Some e \<Longrightarrow> pte_write (Some a) f h = Inr (h\<lparr>pte_mem := (pte_mem h)(a \<mapsto> f e)\<rparr>)"
  by (simp add: pte_write_def)

lemma pte_get_Some [simp]: "pte_mem h a = Some e \<Longrightarrow> pte_get f (Some a) h = Inr (f e)"
  by (simp add: pte_get_def)

lemma pte_put_Some [simp]:
  "pte_mem h a = Some e \<Longrightarrow> pte_put f (Some a) h = Inr (h\<lparr>pte_mem := (pte_mem h)(a \<mapsto> f e)\<rparr>)"
  by (simp add: pte_put_def)

section \<open>The page table\<close>

definition CSC369_PageTableCreate :: "pt_heap \<Rightarrow> ptr \<times> pt_heap" where
  "CSC369_PageTableCreate h =
     (case CSC369_malloc sizeof_page_table (km h) of
        (None, k) \<Rightarrow> (None, h\<lparr>km := k\<rparr>)
      | (Some t, k) \<Rightarrow>
          (case CSC369_malloc (8 * of_nat ptes_count) k of
             (None, k) \<Rightarrow> (None, h\<lparr>km := k\<rparr>)
           | (Some a, k) \<Rightarrow>
               (Some t, h\<lparr>km := k,
                  pt_mem := (pt_mem h)(t \<mapsto> \<lparr>ptes_block = a, ptes = (\<lambda>i. None)\<rparr>)\<rparr>)))"

text \<open>Reading and writing \<open>t->ptes[i]\<close>.\<close>

definition pt_slot :: "ptr \<Rightarrow> nat \<Rightarrow> pt_heap \<Rightarrow> ptr res" where
  "pt_slot t i h = (case t of
      None \<Rightarrow> Inl NullDeref
    | Some a \<Rightarrow> (case pt_mem h a of
        None \<Rightarrow> Inl BadPointer
      | Some pt \<Rightarrow> if i < ptes_count then Inr (ptes pt i) else Inl OutOfBounds))"

definition pt_slot_set :: "ptr \<Rightarrow> nat \<Rightarrow> ptr \<Rightarrow> pt_heap \<Rightarrow> pt_heap res" where
  "pt_slot_set t i p h = (case t of
      None \<Rightarrow> Inl NullDeref
    | Some a \<Rightarrow> (case pt_mem h a of
        None \<Rightarrow> Inl BadPointer
      | Some pt \<Rightarrow> if i < ptes_count
          then Inr (h\<lparr>pt_mem := (pt_mem h)(a \<mapsto> pt\<lparr>ptes := (ptes pt)(i := p)\<rparr>)\<rparr>)
          else Inl OutOfBounds))"

definition CSC369_PageTableSearch :: "ptr \<Rightarrow> u64 \<Rightarrow> pt_heap \<Rightarrow> ptr res" where
  "CSC369_PageTableSearch t va h =
     bindR (assertR (t \<noteq> None)) (\<lambda>_.
     bindR (pt_slot t (unat va div 2 ^ 36) h) (\<lambda>pte_1.
     if pte_1 = None then Inr None else
     bindR (pte_read pte_1 h) (\<lambda>e_1.
     if page_table e_1 = None then Inr None else
     bindR (pt_slot (page_table e_1) ((unat va div 2 ^ 24) mod 2 ^ 12) h) (\<lambda>pte_2.
     if pte_2 = None then Inr None else
     bindR (pte_read pte_2 h) (\<lambda>e_2.
     if page_table e_2 = None then Inr None else
     pt_slot (page_table e_2) ((unat va div 2 ^ 12) mod 2 ^ 24) h)))))"

text \<open>
  One level of \<open>CSC369_PageTableAllocate\<close>: create the entry of a slot that is NULL, and
  create the next table of an entry that has none.
\<close>

definition ensure_pte :: "ptr \<Rightarrow> nat \<Rightarrow> pt_heap \<Rightarrow> pt_heap res" where
  "ensure_pte t i h =
     bindR (pt_slot t i h) (\<lambda>s.
       if s = None then (case CSC369_PTECreate h of (p, h) \<Rightarrow> pt_slot_set t i p h)
       else Inr h)"

definition ensure_table :: "ptr \<Rightarrow> pt_heap \<Rightarrow> pt_heap res" where
  "ensure_table p h =
     bindR (pte_read p h) (\<lambda>e.
       if page_table e = None
       then (case CSC369_PageTableCreate h of (t, h) \<Rightarrow> pte_write p (\<lambda>e. e\<lparr>page_table := t\<rparr>) h)
       else Inr h)"

definition CSC369_PageTableAllocate :: "ptr \<Rightarrow> u64 \<Rightarrow> pt_heap \<Rightarrow> (ptr \<times> pt_heap) res" where
  "CSC369_PageTableAllocate t va h =
     bindR (assertR (t \<noteq> None)) (\<lambda>_.
     \<comment> \<open>level 1\<close>
     let page_number_1 = unat va div 2 ^ 36 in
     bindR (ensure_pte t page_number_1 h) (\<lambda>h.
     bindR (pt_slot t page_number_1 h) (\<lambda>pte_1.
     \<comment> \<open>level 2\<close>
     let page_number_2 = (unat va div 2 ^ 24) mod 2 ^ 12 in
     bindR (ensure_table pte_1 h) (\<lambda>h.
     bindR (pte_read pte_1 h) (\<lambda>e_1.
     let pt_2 = page_table e_1 in
     bindR (ensure_pte pt_2 page_number_2 h) (\<lambda>h.
     bindR (pt_slot pt_2 page_number_2 h) (\<lambda>pte_2.
     \<comment> \<open>level 3\<close>
     let page_number_3 = (unat va div 2 ^ 12) mod 2 ^ 12 in
     bindR (ensure_table pte_2 h) (\<lambda>h.
     bindR (pte_read pte_2 h) (\<lambda>e_2.
     let pt_3 = page_table e_2 in
     bindR (ensure_pte pt_3 page_number_3 h) (\<lambda>h.
     bindR (pt_slot pt_3 page_number_3 h) (\<lambda>pte.
     Inr (pte, h))))))))))))"

end
