(* ===== verification/Bitutil.thy ===== *)
theory Bitutil
  imports Prelude
begin

text \<open>
  \<open>csc369_bitutil.c\<close>: single-bit and multi-bit access to a 64-bit field, and the bitmap
  (after OS/161) that allocates the slots of the swap file.  A shift count of 64 or more
  is undefined in C and is the fault \<open>BadShift\<close>.  \<open>bm_used\<close> is the abstract view of a
  bitmap, the set of indices in use; \<open>bm_wf\<close> is its invariant: as many words as the bits
  need, with the leftover bits of the last word marked in use.
\<close>

unbundle bit_operations_syntax

section \<open>Bit fields\<close>

definition shift_left :: "u64 \<Rightarrow> nat \<Rightarrow> u64 res" where
  "shift_left w n = (if n < 64 then Inr (push_bit n w) else Inl BadShift)"

definition CSC369_CREATE_MASK :: "nat \<Rightarrow> nat \<Rightarrow> u64 res" where
  "CSC369_CREATE_MASK bit_count bit_start =
     bindR (shift_left 0xffffffffffffffff bit_count) (\<lambda>m. shift_left (NOT m) bit_start)"

definition CSC369_BitfieldGetBit :: "u64 \<Rightarrow> byte \<Rightarrow> bool res" where
  "CSC369_BitfieldGetBit bitfield b =
     bindR (shift_left 1 (unat b)) (\<lambda>mask. Inr (bitfield AND mask \<noteq> 0))"

definition CSC369_BitfieldSetBit :: "u64 \<Rightarrow> byte \<Rightarrow> bool \<Rightarrow> u64 res" where
  "CSC369_BitfieldSetBit bitfield b value =
     bindR (shift_left 1 (unat b)) (\<lambda>mask.
       Inr (if value then bitfield OR mask else bitfield AND NOT mask))"

definition CSC369_BitfieldGetBits :: "u64 \<Rightarrow> byte \<Rightarrow> byte \<Rightarrow> u64 res" where
  "CSC369_BitfieldGetBits bitfield count lsb =
     bindR (CSC369_CREATE_MASK (unat count) (unat lsb)) (\<lambda>mask.
       Inr (drop_bit (unat lsb) (bitfield AND mask)))"

definition CSC369_BitfieldSetBits :: "u64 \<Rightarrow> byte \<Rightarrow> byte \<Rightarrow> u64 \<Rightarrow> u64 res" where
  "CSC369_BitfieldSetBits bitfield count lsb value =
     bindR (CSC369_CREATE_MASK (unat count) (unat lsb)) (\<lambda>mask.
     bindR (shift_left value (unat lsb)) (\<lambda>shifted.
       Inr ((bitfield AND NOT mask) OR (shifted AND mask))))"

section \<open>The bitmap\<close>

definition bits_per_word :: u64 where
  "bits_per_word = 64"

definition word_all_bits :: u64 where
  "word_all_bits = - 1"

definition nwords_for_nbits :: "u64 \<Rightarrow> u64" where
  "nwords_for_nbits nbits = (nbits + bits_per_word - 1) div bits_per_word"

record csc369_bitmap =
  nbits :: u64
  bm_words :: "u64 list"

text \<open>The loop that marks the bits from \<open>overbits\<close> to 63 of the last word in use.\<close>

definition mark_leftover :: "nat \<Rightarrow> u64 \<Rightarrow> u64" where
  "mark_leftover overbits w = fold (\<lambda>j w. w OR push_bit j 1) [overbits..<64] w"

text \<open>
  The two flags say whether \<open>calloc\<close> returns memory for the struct and for the words;
  \<open>Inr None\<close> is the NULL result.
\<close>

definition CSC369_BitmapCreate :: "bool \<Rightarrow> bool \<Rightarrow> u64 \<Rightarrow> csc369_bitmap option res" where
  "CSC369_BitmapCreate calloc_struct calloc_words bit_count =
     (if \<not> calloc_struct then Inr None
      else if \<not> calloc_words then Inr None
      else let word_count = nwords_for_nbits bit_count;
               ws = replicate (unat word_count) 0
        in if bit_count div bits_per_word < word_count then
             let idx = word_count - 1; overbits = bit_count - idx * bits_per_word
             in bindR (assertR (bit_count div bits_per_word = word_count - 1)) (\<lambda>_.
                bindR (assertR (0 < overbits \<and> overbits < bits_per_word)) (\<lambda>_.
                Inr (Some \<lparr>nbits = bit_count,
                  bm_words = ws[unat idx := mark_leftover (unat overbits) (ws ! unat idx)]\<rparr>)))
           else Inr (Some \<lparr>nbits = bit_count, bm_words = ws\<rparr>))"

text \<open>The inner loop of the allocator: the first offset whose bit is clear.\<close>

definition first_clear :: "u64 \<Rightarrow> nat option" where
  "first_clear w = find (\<lambda>off. w AND push_bit off 1 = 0) [0..<64]"

text \<open>
  The outer loop.  \<open>Some index\<close> is the return value 0 with \<open>*index\<close> set, \<open>None\<close> the
  return value \<open>-1\<close>.
\<close>

function bitmap_alloc_from :: "csc369_bitmap \<Rightarrow> nat \<Rightarrow> nat \<Rightarrow> (nat option \<times> csc369_bitmap) res" where
  "bitmap_alloc_from b max_idx idx =
     (if idx < max_idx then
        if idx < length (bm_words b) then
          if bm_words b ! idx \<noteq> word_all_bits then
            (case first_clear (bm_words b ! idx) of
               None \<Rightarrow> Inl AssertFail
             | Some off \<Rightarrow>
                 bindR (assertR (idx * 64 + off < unat (nbits b))) (\<lambda>_.
                 Inr (Some (idx * 64 + off),
                   b\<lparr>bm_words := (bm_words b)[idx := bm_words b ! idx OR push_bit off 1]\<rparr>)))
          else bitmap_alloc_from b max_idx (Suc idx)
        else Inl OutOfBounds
      else Inr (None, b))"
  by pat_completeness auto
termination by (relation "measure (\<lambda>(b, max_idx, idx). max_idx - idx)") auto

declare bitmap_alloc_from.simps [simp del]

definition CSC369_BitmapAlloc :: "csc369_bitmap \<Rightarrow> (nat option \<times> csc369_bitmap) res" where
  "CSC369_BitmapAlloc b = bitmap_alloc_from b (unat (nwords_for_nbits (nbits b))) 0"

section \<open>Abstract view and invariant\<close>

definition bm_bit :: "csc369_bitmap \<Rightarrow> nat \<Rightarrow> bool" where
  "bm_bit b i = bit (bm_words b ! (i div 64)) (i mod 64)"

definition bm_used :: "csc369_bitmap \<Rightarrow> nat set" where
  "bm_used b = {i. i < unat (nbits b) \<and> bm_bit b i}"

definition bm_wf :: "csc369_bitmap \<Rightarrow> bool" where
  "bm_wf b \<longleftrightarrow> unat (nbits b) + 63 < 2 ^ 64 \<and>
     length (bm_words b) = (unat (nbits b) + 63) div 64 \<and>
     (\<forall>i. unat (nbits b) \<le> i \<and> i < 64 * length (bm_words b) \<longrightarrow> bm_bit b i)"

section \<open>Lemmas\<close>

lemma first_clear_Some:
  "first_clear w = Some n \<Longrightarrow> n < 64 \<and> \<not> bit w n \<and> (\<forall>m < n. bit w m)"
  by (auto simp: first_clear_def find_Some_iff and_exp_eq_0_iff_not_bit)

lemma first_clear_None: "first_clear w = None \<longleftrightarrow> w = word_all_bits"
proof -
  have "first_clear w = None \<longleftrightarrow> (\<forall>n < 64. bit w n)"
    by (auto simp: first_clear_def find_None_iff and_exp_eq_0_iff_not_bit)
  also have "\<dots> \<longleftrightarrow> w = word_all_bits"
    by (auto simp: word_all_bits_def bit_eq_iff)
  finally show ?thesis .
qed

lemma unat_nwords:
  assumes "unat n + 63 < 2 ^ 64"
  shows "unat (nwords_for_nbits n) = (unat n + 63) div 64"
proof -
  have "n + bits_per_word - 1 = n + 63" by (simp add: bits_per_word_def)
  moreover have "unat (n + 63) = unat n + 63"
    using assms by (subst unat_add_lem [THEN iffD1]) auto
  moreover have "unat (bits_per_word) = 64" by (simp add: bits_per_word_def)
  ultimately show ?thesis by (simp only: nwords_for_nbits_def unat_div)
qed

lemma bit_fold_or:
  "k < 64 \<Longrightarrow> bit (fold (\<lambda>j w. w OR 2 ^ j) js w) k \<longleftrightarrow> bit (w :: u64) k \<or> k \<in> set js"
  by (induction js arbitrary: w) (auto simp: bit_simps)

lemma bit_mark_leftover:
  "k < 64 \<Longrightarrow> bit (mark_leftover n w) k \<longleftrightarrow> bit w k \<or> n \<le> k"
  by (auto simp: mark_leftover_def bit_fold_or)

lemma bm_used_finite [simp]: "finite (bm_used b)"
  by (rule finite_subset [of _ "{..< unat (nbits b)}"]) (auto simp: bm_used_def)

text \<open>Setting one bit of the bitmap.\<close>

definition bm_set_bit :: "csc369_bitmap \<Rightarrow> nat \<Rightarrow> csc369_bitmap" where
  "bm_set_bit b n =
     b\<lparr>bm_words := (bm_words b)[n div 64 := bm_words b ! (n div 64) OR push_bit (n mod 64) 1]\<rparr>"

lemma nbits_bm_set_bit [simp]: "nbits (bm_set_bit b n) = nbits b"
  by (simp add: bm_set_bit_def)

lemma bm_bit_set_bit:
  assumes "n div 64 < length (bm_words b)"
  shows "bm_bit (bm_set_bit b n) i \<longleftrightarrow> i = n \<or> bm_bit b i"
proof (cases "i div 64 = n div 64")
  case True
  then have "i = n \<longleftrightarrow> i mod 64 = n mod 64" by (metis div_mult_mod_eq)
  with True assms show ?thesis
    by (auto simp: bm_bit_def bm_set_bit_def bit_simps)
next
  case False
  then show ?thesis by (auto simp: bm_bit_def bm_set_bit_def)
qed

lemma bm_wf_word_index: "bm_wf b \<Longrightarrow> n < unat (nbits b) \<Longrightarrow> n div 64 < length (bm_words b)"
  by (simp add: bm_wf_def)

lemma bm_used_set_bit:
  "bm_wf b \<Longrightarrow> n < unat (nbits b) \<Longrightarrow> bm_used (bm_set_bit b n) = insert n (bm_used b)"
  by (auto simp: bm_used_def bm_bit_set_bit [OF bm_wf_word_index])

lemma bm_wf_set_bit: "bm_wf b \<Longrightarrow> n < unat (nbits b) \<Longrightarrow> bm_wf (bm_set_bit b n)"
  using bm_bit_set_bit [OF bm_wf_word_index, of b n]
  by (simp add: bm_wf_def) (simp add: bm_set_bit_def)

lemma word_full:
  "(\<And>m. 64 * idx \<le> m \<Longrightarrow> m < 64 * idx + 64 \<Longrightarrow> bm_bit b m) \<Longrightarrow> bm_words b ! idx = word_all_bits"
proof -
  assume full: "\<And>m. 64 * idx \<le> m \<Longrightarrow> m < 64 * idx + 64 \<Longrightarrow> bm_bit b m"
  have "bit (bm_words b ! idx) k" if "k < 64" for k
    using full [of "64 * idx + k"] that by (simp add: bm_bit_def)
  then show ?thesis by (simp add: word_all_bits_def bit_eq_iff)
qed

lemma first_clear_unique:
  "off < 64 \<Longrightarrow> \<not> bit w off \<Longrightarrow> (\<forall>m < off. bit w m) \<Longrightarrow> first_clear w = Some off"
  using first_clear_Some [of w] first_clear_None [of w]
  by (cases "first_clear w") (auto simp: word_all_bits_def, metis linorder_neqE_nat)

lemma bitmap_alloc_from_first:
  assumes "n < unat (nbits b)" "\<not> bm_bit b n" "\<forall>m < n. bm_bit b m"
    and "64 * idx \<le> n" "n div 64 < max_idx" "max_idx = length (bm_words b)"
  shows "bitmap_alloc_from b max_idx idx = Inr (Some n, bm_set_bit b n)"
  using assms
proof (induction b max_idx idx rule: bitmap_alloc_from.induct)
  case (1 b max_idx idx)
  note prems = 1(2-7)
  show ?case
  proof (cases "n div 64 = idx")
    case True
    then have n: "n = idx * 64 + n mod 64" by (metis div_mult_mod_eq)
    have "first_clear (bm_words b ! idx) = Some (n mod 64)"
    proof (rule first_clear_unique)
      show "\<forall>m < n mod 64. bit (bm_words b ! idx) m"
      proof safe
        fix m assume m: "m < n mod 64"
        with n have "64 * idx + m < n" by simp
        with prems(3) have "bm_bit b (64 * idx + m)" by blast
        with m show "bit (bm_words b ! idx) m" by (simp add: bm_bit_def)
      qed
    qed (use prems(2) True in \<open>auto simp: bm_bit_def\<close>)
    moreover from this have "bm_words b ! idx \<noteq> word_all_bits"
      by (metis first_clear_None option.distinct(1))
    ultimately show ?thesis
      using True prems(1,5,6) n
      by (subst bitmap_alloc_from.simps) (simp add: bm_set_bit_def assertR_def)
  next
    case False
    with prems(4) have gt: "64 * Suc idx \<le> n" by simp
    have full: "bm_words b ! idx = word_all_bits"
      by (rule word_full) (use gt prems(3) in auto)
    have "idx < max_idx" using gt prems(5) by simp
    then have "bitmap_alloc_from b max_idx (Suc idx) = Inr (Some n, bm_set_bit b n)"
      using "1.IH" full gt prems by simp
    then show ?thesis
      using full \<open>idx < max_idx\<close> prems(6) by (subst bitmap_alloc_from.simps) simp
  qed
qed

lemma bitmap_alloc_from_full:
  assumes "\<forall>m < 64 * length (bm_words b). bm_bit b m" "max_idx = length (bm_words b)"
  shows "bitmap_alloc_from b max_idx idx = Inr (None, b)"
  using assms
proof (induction b max_idx idx rule: bitmap_alloc_from.induct)
  case (1 b max_idx idx)
  show ?case
  proof (cases "idx < max_idx")
    case True
    have "bm_words b ! idx = word_all_bits"
      by (rule word_full) (use True 1(2,3) in auto)
    with True 1 show ?thesis by (subst bitmap_alloc_from.simps) simp
  next
    case False
    then show ?thesis by (subst bitmap_alloc_from.simps) simp
  qed
qed

text \<open>What the allocator does: it takes the least free slot, or reports that there is none.\<close>

lemma BitmapAlloc_least:
  assumes "bm_wf b" "n < unat (nbits b)" "n \<notin> bm_used b" "\<forall>m < n. m \<in> bm_used b"
  shows "CSC369_BitmapAlloc b = Inr (Some n, bm_set_bit b n)"
  unfolding CSC369_BitmapAlloc_def
  by (rule bitmap_alloc_from_first)
     (use assms in \<open>auto simp: bm_used_def bm_wf_def unat_nwords bm_wf_word_index\<close>)

lemma BitmapAlloc_none:
  assumes "bm_wf b" "bm_used b = {..< unat (nbits b)}"
  shows "CSC369_BitmapAlloc b = Inr (None, b)"
  unfolding CSC369_BitmapAlloc_def
proof (rule bitmap_alloc_from_full)
  show "\<forall>m < 64 * length (bm_words b). bm_bit b m"
    using assms by (auto simp: bm_used_def bm_wf_def set_eq_iff not_le [symmetric])
qed (use assms in \<open>simp add: bm_wf_def unat_nwords\<close>)

lemma BitmapAlloc_some:
  assumes "bm_wf b" "card (bm_used b) < unat (nbits b)"
  obtains n where "n < unat (nbits b)" "n \<notin> bm_used b"
    "CSC369_BitmapAlloc b = Inr (Some n, bm_set_bit b n)"
proof -
  have "\<exists>n. n < unat (nbits b) \<and> n \<notin> bm_used b"
  proof (rule ccontr)
    assume "\<not> ?thesis"
    then have "{..< unat (nbits b)} \<subseteq> bm_used b" by auto
    then have "unat (nbits b) \<le> card (bm_used b)" using card_mono [of "bm_used b" "{..< unat (nbits b)}"] by simp
    with assms(2) show False by simp
  qed
  then obtain n where n: "n < unat (nbits b) \<and> n \<notin> bm_used b"
    and least: "\<forall>m < n. \<not> (m < unat (nbits b) \<and> m \<notin> bm_used b)"
    using exists_least_iff [of "\<lambda>n. n < unat (nbits b) \<and> n \<notin> bm_used b"] by blast
  then have "CSC369_BitmapAlloc b = Inr (Some n, bm_set_bit b n)"
    using assms(1) by (intro BitmapAlloc_least) auto
  with n show thesis using that by blast
qed

section \<open>Creation\<close>

lemma words_for_bits:
  fixes k :: nat
  shows "(k + 63) div 64 = k div 64 + (if k mod 64 = 0 then 0 else 1)"
proof -
  have "k + 63 = 64 * (k div 64) + (k mod 64 + 63)" by simp
  then have "(k + 63) div 64 = (64 * (k div 64) + (k mod 64 + 63)) div 64" by presburger
  also have "\<dots> = k div 64 + (k mod 64 + 63) div 64" by (rule div_mult_self4) simp
  also have "(k mod 64 + 63) div 64 = (if k mod 64 = 0 then 0 else 1)"
  proof (cases "k mod 64 = 0")
    case False
    moreover have "k mod 64 < 64" by simp
    ultimately have "64 \<le> k mod 64 + 63" "k mod 64 + 63 < 128" by arith+
    then have "(k mod 64 + 63) div 64 = 1" by (intro div_nat_eqI) simp_all
    with False show ?thesis by simp
  qed simp
  finally show ?thesis .
qed

lemma BitmapCreate_ok:
  assumes "unat n + 63 < 2 ^ 64"
  shows "\<exists>b. CSC369_BitmapCreate True True n = Inr (Some b) \<and> nbits b = n \<and> bm_wf b \<and> bm_used b = {}"
proof -
  define k where "k = unat n"
  define ws :: "u64 list" where "ws = replicate ((k + 63) div 64) 0"
  have wc: "unat (nwords_for_nbits n) = (k + 63) div 64" using assms by (simp add: unat_nwords k_def)
  have b64: "unat bits_per_word = 64" by (simp add: bits_per_word_def)
  have d: "unat (n div bits_per_word) = k div 64" by (simp add: unat_div b64 k_def)
  show ?thesis
  proof (cases "k mod 64 = 0")
    case True
    then have eq: "(k + 63) div 64 = k div 64" by (simp add: words_for_bits)
    then have "\<not> n div bits_per_word < nwords_for_nbits n" using wc d by (simp add: word_less_nat_alt)
    moreover have "64 * (k div 64) = k" using True by (metis add_cancel_right_right mult_div_mod_eq)
    then have "bm_wf \<lparr>nbits = n, bm_words = ws\<rparr>"
      using assms eq by (auto simp: bm_wf_def ws_def k_def [symmetric])
    moreover have "bm_used \<lparr>nbits = n, bm_words = ws\<rparr> = {}"
      using True by (auto simp: bm_used_def bm_bit_def ws_def k_def)
    ultimately show ?thesis using wc by (simp add: CSC369_BitmapCreate_def ws_def Let_def)
  next
    case False
    have eq: "(k + 63) div 64 = Suc (k div 64)" using False by (simp add: words_for_bits)
    have lt: "n div bits_per_word < nwords_for_nbits n" using wc d eq by (simp add: word_less_nat_alt)
    have w1: "unat (nwords_for_nbits n - 1) = k div 64"
    proof -
      have "1 \<le> nwords_for_nbits n" by (simp add: word_le_nat_alt wc eq)
      then show ?thesis using wc eq by (simp add: unat_sub)
    qed
    then have wd: "n div bits_per_word = nwords_for_nbits n - 1" using d by (simp add: word_unat_eq_iff)
    have over: "n - n div bits_per_word * bits_per_word = n mod bits_per_word"
      by (metis minus_div_mult_eq_mod)
    have um: "unat (n mod bits_per_word) = k mod 64" by (simp add: unat_mod b64 k_def)
    have ov: "0 < n mod bits_per_word" "n mod bits_per_word < bits_per_word"
      using um False b64 by (simp_all add: word_less_nat_alt)
    have wsn: "ws ! j = 0" if "j \<le> k div 64" for j
      unfolding ws_def eq by (rule nth_replicate) (use that in simp)
    have wsl: "length ws = Suc (k div 64)" unfolding ws_def eq by (rule length_replicate)
    note ws0 = wsn [OF order_refl]
    define b where "b = \<lparr>nbits = n, bm_words = ws[k div 64 := mark_leftover (k mod 64) 0]\<rparr>"
    have c: "CSC369_BitmapCreate True True n = Inr (Some b)"
      using lt ov ws0
      by (simp add: CSC369_BitmapCreate_def Let_def b_def wd [symmetric] d over um wc ws_def [symmetric])
    have bit: "bm_bit b i \<longleftrightarrow> k \<le> i" if "i div 64 \<le> k div 64" for i
    proof (cases "i div 64 = k div 64")
      case True
      then have "k mod 64 \<le> i mod 64 \<longleftrightarrow> k \<le> i" by (metis add_le_cancel_left div_mult_mod_eq)
      with True show ?thesis by (simp add: bm_bit_def b_def wsl bit_mark_leftover)
    next
      case False
      then have "i div 64 < k div 64" using that by simp
      then have "\<not> k \<le> i" by (meson div_le_mono not_le)
      with False that show ?thesis by (simp add: bm_bit_def b_def wsn)
    qed
    have "bm_wf b" unfolding bm_wf_def
    proof (intro conjI allI impI)
      fix i assume i: "unat (nbits b) \<le> i \<and> i < 64 * length (bm_words b)"
      then have "i div 64 \<le> k div 64" 
        by (auto simp: b_def wsl less_Suc_eq_le [symmetric] less_mult_imp_div_less)
      then show "bm_bit b i" using bit [of i] i by (simp add: b_def k_def)
    qed (use assms eq wsl in \<open>simp_all add: b_def k_def\<close>)
    moreover have "bm_used b = {}"
    proof -
      have "\<not> bm_bit b i" if "i < k" for i using bit [of i] that by (simp add: div_le_mono)
      then show ?thesis by (auto simp: bm_used_def b_def k_def)
    qed
    ultimately show ?thesis using c by (auto simp: b_def)
  qed
qed

section \<open>Bit fields\<close>

lemma mask_64: "n < 64 \<Longrightarrow> bit (push_bit n (0xffffffffffffffff :: u64)) k \<longleftrightarrow> n \<le> k \<and> k < 64"
proof -
  have "(0xffffffffffffffff :: u64) = - 1" by simp
  then show ?thesis by (auto simp only: bit_simps) auto
qed

lemma CREATE_MASK_eq:
  assumes "c < 64" "s < 64"
  obtains mask where "CSC369_CREATE_MASK c s = Inr mask" "\<And>k. k < 64 \<Longrightarrow> bit mask k \<longleftrightarrow> s \<le> k \<and> k < s + c"
proof -
  let ?m = "push_bit s (NOT (push_bit c 0xffffffffffffffff)) :: u64"
  have "CSC369_CREATE_MASK c s = Inr ?m" using assms by (simp add: CSC369_CREATE_MASK_def shift_left_def del: push_bit_numeral)
  moreover have "bit ?m k \<longleftrightarrow> s \<le> k \<and> k < s + c" if "k < 64" for k
    using that assms mask_64 [OF assms(1), of "k - s"] by (auto simp: bit_push_bit_iff bit_not_iff)
  ultimately show thesis using that by blast
qed

text \<open>Reading a field that was written gives the written bits and leaves the others alone.\<close>

lemma BitfieldSetBits_bits:
  assumes "unat c < 64" "unat s < 64"
  obtains w where "CSC369_BitfieldSetBits f c s v = Inr w"
    "\<And>k. k < 64 \<Longrightarrow> bit w k \<longleftrightarrow> (if unat s \<le> k \<and> k < unat s + unat c then bit v (k - unat s) else bit f k)"
proof -
  obtain mask where m: "CSC369_CREATE_MASK (unat c) (unat s) = Inr mask"
    "\<And>k. k < 64 \<Longrightarrow> bit mask k \<longleftrightarrow> unat s \<le> k \<and> k < unat s + unat c"
    using CREATE_MASK_eq [OF assms] by blast
  show thesis
  proof (rule that)
    show "CSC369_BitfieldSetBits f c s v = Inr ((f AND NOT mask) OR (push_bit (unat s) v AND mask))"
      using m(1) assms by (simp add: CSC369_BitfieldSetBits_def shift_left_def)
    show "bit ((f AND NOT mask) OR (push_bit (unat s) v AND mask)) k \<longleftrightarrow>
        (if unat s \<le> k \<and> k < unat s + unat c then bit v (k - unat s) else bit f k)" if "k < 64" for k
      using that m(2) [OF that] by (auto simp: bit_simps)
  qed
qed

lemma BitfieldGetBits_bits:
  assumes "unat c < 64" "unat s < 64"
  obtains w where "CSC369_BitfieldGetBits f c s = Inr w"
    "\<And>k. k < 64 \<Longrightarrow> bit w k \<longleftrightarrow> k < unat c \<and> unat s + k < 64 \<and> bit f (unat s + k)"
proof -
  obtain mask where m: "CSC369_CREATE_MASK (unat c) (unat s) = Inr mask"
    "\<And>k. k < 64 \<Longrightarrow> bit mask k \<longleftrightarrow> unat s \<le> k \<and> k < unat s + unat c"
    using CREATE_MASK_eq [OF assms] by blast
  show thesis
  proof (rule that)
    show "CSC369_BitfieldGetBits f c s = Inr (drop_bit (unat s) (f AND mask))"
      using m(1) by (simp add: CSC369_BitfieldGetBits_def)
    show "bit (drop_bit (unat s) (f AND mask)) k \<longleftrightarrow> k < unat c \<and> unat s + k < 64 \<and> bit f (unat s + k)"
      if "k < 64" for k
      using m(2) [of "unat s + k"] bit_imp_le_length [of f "unat s + k"]
      by (cases "unat s + k < 64") (auto simp: bit_simps)
  qed
qed

section \<open>Properties\<close>

text \<open>
  C32: a bitmap just created has the requested size, no bit in use, and every leftover bit of its
  last word marked.
\<close>

theorem bitmap_create_empty:
  "unat n + 63 < 2 ^ 64 \<Longrightarrow>
   \<exists>b. CSC369_BitmapCreate True True n = Inr (Some b) \<and> nbits b = n \<and> bm_wf b \<and> bm_used b = {}"
  by (rule BitmapCreate_ok)

theorem bitmap_create_empty_witness:
  "\<exists>b. CSC369_BitmapCreate True True 70 = Inr (Some b) \<and> nbits b = 70 \<and> bm_wf b \<and> bm_used b = {}"
  by (rule bitmap_create_empty) simp

text \<open>
  C28: allocation from a well-formed bitmap hands out the least free index and marks that index
  only; it reports failure exactly when every index is in use.
\<close>

theorem bitmap_alloc_least_free:
  assumes "bm_wf b"
  shows "(bm_used b = {..< unat (nbits b)} \<and> CSC369_BitmapAlloc b = Inr (None, b)) \<or>
    (\<exists>n b'. CSC369_BitmapAlloc b = Inr (Some n, b') \<and> n < unat (nbits b) \<and> n \<notin> bm_used b \<and>
       (\<forall>m < n. m \<in> bm_used b) \<and> bm_wf b' \<and> nbits b' = nbits b \<and> bm_used b' = insert n (bm_used b))"
proof (cases "\<exists>n. n < unat (nbits b) \<and> n \<notin> bm_used b")
  case True
  then obtain n where n: "n < unat (nbits b) \<and> n \<notin> bm_used b"
    and least: "\<forall>m < n. \<not> (m < unat (nbits b) \<and> m \<notin> bm_used b)"
    using exists_least_iff [of "\<lambda>n. n < unat (nbits b) \<and> n \<notin> bm_used b"] by blast
  then have low: "\<forall>m < n. m \<in> bm_used b" by auto
  have "CSC369_BitmapAlloc b = Inr (Some n, bm_set_bit b n)"
    using assms n low by (intro BitmapAlloc_least) auto
  then show ?thesis using n low bm_wf_set_bit [OF assms] bm_used_set_bit [OF assms] by auto
next
  case False
  then have "bm_used b = {..< unat (nbits b)}" by (auto simp: bm_used_def)
  then show ?thesis using BitmapAlloc_none [OF assms] by simp
qed

theorem bitmap_alloc_least_free_witness:
  "\<exists>b b'. CSC369_BitmapCreate True True 70 = Inr (Some b) \<and> CSC369_BitmapAlloc b = Inr (Some 0, b') \<and>
     bm_used b' = {0}"
proof -
  have "unat (70 :: u64) + 63 < 2 ^ 64" by simp
  from BitmapCreate_ok [OF this] obtain b where b: "CSC369_BitmapCreate True True 70 = Inr (Some b)"
    "nbits b = 70" "bm_wf b" "bm_used b = {}" by blast
  have "0 \<in> {..< unat (nbits b)}" using b(2) by simp
  then have "bm_used b \<noteq> {..< unat (nbits b)}" using b(4) by blast
  then obtain n b' where n: "CSC369_BitmapAlloc b = Inr (Some n, b')" "\<forall>m < n. m \<in> bm_used b"
    "bm_used b' = insert n (bm_used b)"
    using bitmap_alloc_least_free [OF b(3)] by blast
  then have "n = 0" using b(4) by (cases n) auto
  then show ?thesis using b n by auto
qed

text \<open>
  C33: a bit field that was written reads back as the low bits of the value, and the bits outside
  the field keep their value.
\<close>

theorem bitfield_write_read:
  assumes "unat c < 64" "unat s + unat c \<le> 64" "unat s < 64"
  shows "\<exists>w. CSC369_BitfieldSetBits f c s v = Inr w \<and> CSC369_BitfieldGetBits w c s = Inr (take_bit (unat c) v) \<and>
    (\<forall>k < 64. k < unat s \<or> unat s + unat c \<le> k \<longrightarrow> bit w k = bit f k)"
proof -
  obtain w where w: "CSC369_BitfieldSetBits f c s v = Inr w"
    "\<And>k. k < 64 \<Longrightarrow> bit w k \<longleftrightarrow> (if unat s \<le> k \<and> k < unat s + unat c then bit v (k - unat s) else bit f k)"
    using BitfieldSetBits_bits [OF assms(1,3)] by blast
  obtain g where g: "CSC369_BitfieldGetBits w c s = Inr g"
    "\<And>k. k < 64 \<Longrightarrow> bit g k \<longleftrightarrow> k < unat c \<and> unat s + k < 64 \<and> bit w (unat s + k)"
    using BitfieldGetBits_bits [OF assms(1,3)] by blast
  have "g = take_bit (unat c) v"
  proof (rule bit_word_eqI)
    fix k :: nat assume "k < LENGTH(64)"
    then show "bit g k = bit (take_bit (unat c) v) k"
      using g(2) [of k] w(2) [of "unat s + k"] assms(2) by (auto simp: bit_take_bit_iff)
  qed
  with w g(1) show ?thesis by auto
qed

theorem bitfield_write_read_witness:
  "\<exists>w. CSC369_BitfieldSetBits 0xFFFF 4 8 0x35 = Inr w \<and> CSC369_BitfieldGetBits w 4 8 = Inr 5"
proof -
  obtain w where "CSC369_BitfieldSetBits 0xFFFF 4 8 0x35 = Inr w"
    "CSC369_BitfieldGetBits w 4 8 = Inr (take_bit (unat (4 :: byte)) 0x35)"
    using bitfield_write_read [of 4 8 "0xFFFF" "0x35"] by auto
  moreover have "take_bit (unat (4 :: byte)) (0x35 :: u64) = 5" by (simp add: take_bit_eq_mod)
  ultimately show ?thesis by auto
qed

text \<open>
  A field as wide as the word cannot be read or written: the mask shifts by 64, which C
  leaves undefined.
\<close>

lemma bitfield_full_width_undefined:
  "64 \<le> unat c \<or> 64 \<le> unat s \<Longrightarrow>
   CSC369_BitfieldGetBits f c s = Inl BadShift \<and> CSC369_BitfieldSetBits f c s v = Inl BadShift"
  by (auto simp: CSC369_BitfieldGetBits_def CSC369_BitfieldSetBits_def CSC369_CREATE_MASK_def shift_left_def)

end
