(* ===== verification/Swap.thy ===== *)
theory Swap
  imports Defs Bitutil
begin

text \<open>
  \<open>csc369_swap.c\<close>: the swap file.  The manager owns the bitmap of slots and the temporary
  file.  The file is a byte sequence with the POSIX behaviour the code relies on:
  \<open>lseek\<close> with \<open>SEEK_SET\<close> refuses a negative offset; \<open>read\<close> returns the bytes that are
  there, fewer at the end of the file; \<open>write\<close> overwrites or extends the file, filling a
  gap with zeros, and stores only the bytes for which there is room below \<open>file_limit\<close>
  (the size limit of files and of the disk), failing when there is none.
  The simulated physical memory is passed along, since \<open>physmem\<close> is shared.
\<close>

section \<open>The file\<close>

definition file_lseek :: "u64 \<Rightarrow> u64" where
  "file_lseek offset = (if sint offset < 0 then -1 else offset)"

definition file_read :: "byte list \<Rightarrow> nat \<Rightarrow> nat \<Rightarrow> byte list" where
  "file_read f off n = slice f off n"

definition file_write :: "nat \<Rightarrow> byte list \<Rightarrow> nat \<Rightarrow> byte list \<Rightarrow> int \<times> byte list" where
  "file_write limit f off bs =
     (let n = min (length bs) (limit - off)
      in if n = 0 then (-1, f)
         else (int n, splice_at (f @ replicate (off - length f) 0) off (take n bs)))"

definition EINVAL :: int where
  "EINVAL = 22"

section \<open>The swap manager\<close>

definition CSC369_INVALID_SWAP :: u64 where
  "CSC369_INVALID_SWAP = -1"

record csc369_swap =
  swapmap :: csc369_bitmap
  swapfile :: "byte list"
  file_limit :: nat

text \<open>
  Creation: the flags say whether the three allocations and \<open>mkstemp\<close> succeed;
  the file is empty.  A failure yields the NULL result.
\<close>

definition CSC369_SwapCreate :: "bool \<Rightarrow> bool \<Rightarrow> bool \<Rightarrow> bool \<Rightarrow> nat \<Rightarrow> u64 \<Rightarrow> csc369_swap option res" where
  "CSC369_SwapCreate calloc_swap calloc_struct calloc_words mkstemp_ok limit sz =
     (if \<not> calloc_swap then Inr None
      else bindR (CSC369_BitmapCreate calloc_struct calloc_words sz) (\<lambda>b.
        case b of
          None \<Rightarrow> Inr None
        | Some bm \<Rightarrow>
            if \<not> mkstemp_ok then Inr None
            else Inr (Some \<lparr>swapmap = bm, swapfile = [], file_limit = limit\<rparr>)))"

text \<open>
  \<open>&swap->physmem[frame * CSC369_SIMULATED_FRAME_SIZE]\<close>: \<open>frame\<close> is an \<open>unsigned int\<close>,
  so the product is computed modulo \<open>2 ^ 32\<close>.
\<close>

definition frame_base :: "u32 \<Rightarrow> nat" where
  "frame_base frame = unat (frame * of_nat CSC369_SIMULATED_FRAME_SIZE)"

definition CSC369_SwapPageIn ::
  "csc369_swap \<Rightarrow> byte list \<Rightarrow> u32 \<Rightarrow> u64 \<Rightarrow> (int \<times> byte list) res" where
  "CSC369_SwapPageIn sw physmem frame offset =
     bindR (assertR (offset \<noteq> CSC369_INVALID_SWAP)) (\<lambda>_.
     let pos = file_lseek offset in
     if pos \<noteq> offset then
       bindR (assertR (pos = -1)) (\<lambda>_. Inr (- EINVAL, physmem))
     else
       let frame_ptr = frame_base frame;
           bs = file_read (swapfile sw) (unat pos) CSC369_SIMULATED_FRAME_SIZE
       in if length physmem < frame_ptr + length bs then Inl OutOfBounds
          else Inr (if length bs \<noteq> CSC369_SIMULATED_FRAME_SIZE then int (length bs) else 0,
                    splice_at physmem frame_ptr bs))"

text \<open>The first part of \<open>CSC369_SwapPageOut\<close>: the slot to write to, allocated if needed.\<close>

definition swap_slot :: "csc369_swap \<Rightarrow> u64 \<Rightarrow> (u64 option \<times> csc369_swap) res" where
  "swap_slot sw offset =
     (if offset = CSC369_INVALID_SWAP then
        bindR (CSC369_BitmapAlloc (swapmap sw)) (\<lambda>(idx, bm).
          case idx of
            None \<Rightarrow> Inr (None, sw)
          | Some i \<Rightarrow> Inr (Some (of_nat i * of_nat CSC369_SIMULATED_FRAME_SIZE), sw\<lparr>swapmap := bm\<rparr>))
      else Inr (Some offset, sw))"

definition CSC369_SwapPageOut ::
  "csc369_swap \<Rightarrow> byte list \<Rightarrow> u32 \<Rightarrow> u64 \<Rightarrow> (u64 \<times> csc369_swap) res" where
  "CSC369_SwapPageOut sw physmem frame offset =
     bindR (swap_slot sw offset) (\<lambda>(slot, sw).
     case slot of
       None \<Rightarrow> Inr (CSC369_INVALID_SWAP, sw)
     | Some offset \<Rightarrow>
         bindR (assertR (offset \<noteq> CSC369_INVALID_SWAP)) (\<lambda>_.
         let pos = file_lseek offset in
         if pos \<noteq> offset then
           bindR (assertR (pos = -1)) (\<lambda>_. Inr (CSC369_INVALID_SWAP, sw))
         else
           let frame_ptr = frame_base frame in
           if length physmem < frame_ptr + CSC369_SIMULATED_FRAME_SIZE then Inl OutOfBounds
           else (case file_write (file_limit sw) (swapfile sw) (unat pos)
                        (slice physmem frame_ptr CSC369_SIMULATED_FRAME_SIZE) of
                   (bytes_written, f) \<Rightarrow>
                     if bytes_written \<noteq> int CSC369_SIMULATED_FRAME_SIZE
                     then Inr (CSC369_INVALID_SWAP, sw\<lparr>swapfile := f\<rparr>)
                     else Inr (offset, sw\<lparr>swapfile := f\<rparr>))))"

section \<open>Slots\<close>

text \<open>Slot \<open>s\<close> of the file is the 16 bytes at offset \<open>16 * s\<close>.\<close>

definition slot_offset :: "nat \<Rightarrow> u64" where
  "slot_offset s = of_nat (16 * s)"

definition slot_bytes :: "csc369_swap \<Rightarrow> nat \<Rightarrow> byte list" where
  "slot_bytes sw s = slice (swapfile sw) (16 * s) 16"

definition swap_wf :: "csc369_swap \<Rightarrow> bool" where
  "swap_wf sw \<longleftrightarrow> bm_wf (swapmap sw) \<and> unat (nbits (swapmap sw)) < 2 ^ 59 \<and>
     16 * unat (nbits (swapmap sw)) \<le> file_limit sw"

definition frame_bytes :: "byte list \<Rightarrow> nat \<Rightarrow> byte list" where
  "frame_bytes physmem f = slice physmem (16 * f) 16"

lemma slot_offset_unat: "s < 2 ^ 59 \<Longrightarrow> unat (slot_offset s) = 16 * s"
  unfolding slot_offset_def by (rule unat_of_nat_u64) simp

lemma slot_offset_inj:
  assumes "s < 2 ^ 59" "t < 2 ^ 59"
  shows "slot_offset s = slot_offset t \<longleftrightarrow> s = t"
proof
  assume "slot_offset s = slot_offset t"
  then have "unat (slot_offset s) = unat (slot_offset t)" by simp
  with assms show "s = t" by (simp add: slot_offset_unat)
qed simp

lemma slot_offset_uint: "s < 2 ^ 59 \<Longrightarrow> uint (slot_offset s) = 16 * int s"
  using slot_offset_unat [of s] by (simp add: uint_nat)

lemma slot_offset_sint: "s < 2 ^ 59 \<Longrightarrow> sint (slot_offset s) = 16 * int s"
  using slot_offset_uint [of s] sint_small [of "slot_offset s"] by simp

lemma slot_offset_valid: "s < 2 ^ 59 \<Longrightarrow> slot_offset s \<noteq> CSC369_INVALID_SWAP"
  using slot_offset_sint [of s] by (auto simp: CSC369_INVALID_SWAP_def)

lemma slot_offset_lseek: "s < 2 ^ 59 \<Longrightarrow> file_lseek (slot_offset s) = slot_offset s"
  using slot_offset_sint [of s] by (simp add: file_lseek_def)

lemma frame_base_unat: "unat f < 2 ^ 28 \<Longrightarrow> frame_base f = 16 * unat f"
  by (simp add: frame_base_def unat_word_ariths)

text \<open>Writing a slot within the limit stores the bytes and changes no other slot.\<close>

lemma file_write_slot:
  assumes "16 * s + 16 \<le> limit" "length bs = 16"
  obtains f' where "file_write limit f (16 * s) bs = (16, f')"
    "slice f' (16 * s) 16 = bs" "length f \<le> length f'" "16 * s + 16 \<le> length f'"
    "\<forall>t. t \<noteq> s \<and> 16 * t + 16 \<le> length f \<longrightarrow> slice f' (16 * t) 16 = slice f (16 * t) 16"
proof -
  define g where "g = f @ replicate (16 * s - length f) 0"
  define f' where "f' = splice_at g (16 * s) bs"
  have g: "16 * s \<le> length g" by (simp add: g_def)
  have l: "length f' = max (length f) (16 * s + 16)"
    using assms(2) by (auto simp: f'_def g_def splice_at_def)
  have "slice f' (16 * t) 16 = slice f (16 * t) 16" if t: "t \<noteq> s" "16 * t + 16 \<le> length f" for t
  proof (rule nth_equalityI)
    show "length (slice f' (16 * t) 16) = length (slice f (16 * t) 16)" using t l by simp
  next
    fix i assume "i < length (slice f' (16 * t) 16)"
    then have i: "i < 16" using t l by simp
    from t(1) have "16 * t + 16 \<le> 16 * s \<or> 16 * s + 16 \<le> 16 * t" using blocks_disjoint by blast
    then have "f' ! (16 * t + i) = f ! (16 * t + i)"
      using i t(2) assms(2) nth_splice_at [OF g, of "16 * t + i" bs]
      by (auto simp: f'_def g_def nth_append)
    then show "slice f' (16 * t) 16 ! i = slice f (16 * t) 16 ! i" using i t l by simp
  qed
  moreover have "file_write limit f (16 * s) bs = (16, f')"
    using assms by (simp add: file_write_def f'_def g_def)
  moreover have "slice f' (16 * s) 16 = bs"
    using slice_splice_same [OF g, of bs] assms(2) by (simp add: f'_def)
  ultimately show thesis using that l by simp
qed

section \<open>Page in and page out\<close>

text \<open>The effect of a successful page-out to slot \<open>s\<close>.\<close>

definition paged_out :: "csc369_swap \<Rightarrow> byte list \<Rightarrow> nat \<Rightarrow> csc369_swap \<Rightarrow> bool" where
  "paged_out sw bs s sw' \<longleftrightarrow> s < unat (nbits (swapmap sw)) \<and>
     nbits (swapmap sw') = nbits (swapmap sw) \<and> swap_wf sw' \<and>
     bm_used (swapmap sw') = insert s (bm_used (swapmap sw)) \<and>
     slot_bytes sw' s = bs \<and> 16 * s + 16 \<le> length (swapfile sw') \<and>
     length (swapfile sw) \<le> length (swapfile sw') \<and>
     (\<forall>t. t \<noteq> s \<and> 16 * t + 16 \<le> length (swapfile sw) \<longrightarrow> slot_bytes sw' t = slot_bytes sw t)"

lemma SwapPageOut_slot:
  assumes "swap_slot sw offset = Inr (Some (slot_offset s), sw')" "swap_wf sw'"
    and "s \<in> bm_used (swapmap sw')" "unat f < 2 ^ 28" "16 * unat f + 16 \<le> length physmem"
    and "swapfile sw' = swapfile sw" "nbits (swapmap sw') = nbits (swapmap sw)"
    and "bm_used (swapmap sw') = insert s (bm_used (swapmap sw))"
  shows "\<exists>sw''. CSC369_SwapPageOut sw physmem f offset = Inr (slot_offset s, sw'') \<and>
     paged_out sw (frame_bytes physmem (unat f)) s sw''"
proof -
  have s: "s < unat (nbits (swapmap sw'))" using assms(3) by (simp add: bm_used_def)
  then have s59: "s < 2 ^ 59" and lim: "16 * s + 16 \<le> file_limit sw'"
    using assms(2) by (auto simp: swap_wf_def)
  have len: "length (slice physmem (16 * unat f) 16) = 16" using assms(5) by simp
  obtain f' where w: "file_write (file_limit sw') (swapfile sw') (16 * s) (slice physmem (16 * unat f) 16) = (16, f')"
    "slice f' (16 * s) 16 = slice physmem (16 * unat f) 16" "length (swapfile sw') \<le> length f'"
    "16 * s + 16 \<le> length f'"
    "\<forall>t. t \<noteq> s \<and> 16 * t + 16 \<le> length (swapfile sw') \<longrightarrow> slice f' (16 * t) 16 = slice (swapfile sw') (16 * t) 16"
    using file_write_slot [OF lim len] by blast
  have "CSC369_SwapPageOut sw physmem f offset = Inr (slot_offset s, sw'\<lparr>swapfile := f'\<rparr>)"
    using assms(1,5) w(1) s59
    by (simp add: CSC369_SwapPageOut_def slot_offset_valid slot_offset_lseek slot_offset_unat
        frame_base_unat [OF assms(4)] Let_def)
  moreover have "paged_out sw (frame_bytes physmem (unat f)) s (sw'\<lparr>swapfile := f'\<rparr>)"
    using assms(2,6-8) w s by (simp add: paged_out_def slot_bytes_def frame_bytes_def swap_wf_def)
  ultimately show ?thesis by blast
qed

lemma SwapPageOut_new:
  assumes "swap_wf sw" "card (bm_used (swapmap sw)) < unat (nbits (swapmap sw))"
    and "unat f < 2 ^ 28" "16 * unat f + 16 \<le> length physmem"
  obtains s sw' where "s \<notin> bm_used (swapmap sw)"
    "CSC369_SwapPageOut sw physmem f CSC369_INVALID_SWAP = Inr (slot_offset s, sw')"
    "paged_out sw (frame_bytes physmem (unat f)) s sw'"
proof -
  have wf: "bm_wf (swapmap sw)" using assms(1) by (simp add: swap_wf_def)
  obtain s where s: "s < unat (nbits (swapmap sw))" "s \<notin> bm_used (swapmap sw)"
    "CSC369_BitmapAlloc (swapmap sw) = Inr (Some s, bm_set_bit (swapmap sw) s)"
    using BitmapAlloc_some [OF wf assms(2)] by blast
  have "swap_slot sw CSC369_INVALID_SWAP =
      Inr (Some (slot_offset s), sw\<lparr>swapmap := bm_set_bit (swapmap sw) s\<rparr>)"
    using s(3) by (simp add: swap_slot_def slot_offset_def mult.commute)
  moreover have "swap_wf (sw\<lparr>swapmap := bm_set_bit (swapmap sw) s\<rparr>)"
    using assms(1) bm_wf_set_bit [OF wf s(1)] by (simp add: swap_wf_def)
  ultimately have "\<exists>sw''. CSC369_SwapPageOut sw physmem f CSC369_INVALID_SWAP = Inr (slot_offset s, sw'') \<and>
     paged_out sw (frame_bytes physmem (unat f)) s sw''"
    using assms(3,4) s(1)
    by (rule_tac SwapPageOut_slot [where sw' = "sw\<lparr>swapmap := bm_set_bit (swapmap sw) s\<rparr>"])
       (simp_all add: bm_used_set_bit [OF wf s(1)])
  then show thesis using that s(2) by blast
qed

lemma SwapPageOut_again:
  assumes "swap_wf sw" "s \<in> bm_used (swapmap sw)"
    and "unat f < 2 ^ 28" "16 * unat f + 16 \<le> length physmem"
  obtains sw' where "CSC369_SwapPageOut sw physmem f (slot_offset s) = Inr (slot_offset s, sw')"
    "paged_out sw (frame_bytes physmem (unat f)) s sw'"
proof -
  have "s < 2 ^ 59" using assms(1,2) by (auto simp: swap_wf_def bm_used_def)
  then have "swap_slot sw (slot_offset s) = Inr (Some (slot_offset s), sw)"
    by (simp add: swap_slot_def slot_offset_valid)
  then have "\<exists>sw''. CSC369_SwapPageOut sw physmem f (slot_offset s) = Inr (slot_offset s, sw'') \<and>
     paged_out sw (frame_bytes physmem (unat f)) s sw''"
    using assms by (rule_tac SwapPageOut_slot) (auto simp: insert_absorb)
  then show thesis using that by blast
qed

lemma SwapPageIn_slot:
  assumes "s < 2 ^ 59" "16 * s + 16 \<le> length (swapfile sw)"
    and "unat f < 2 ^ 28" "16 * unat f + 16 \<le> length physmem"
  shows "CSC369_SwapPageIn sw physmem f (slot_offset s) =
     Inr (0, splice_at physmem (16 * unat f) (slot_bytes sw s))"
  using assms
  by (simp add: CSC369_SwapPageIn_def slot_offset_valid slot_offset_lseek slot_offset_unat
      frame_base_unat file_read_def slot_bytes_def Let_def)

lemma frame_bytes_splice_same:
  "16 * f + 16 \<le> length pm \<Longrightarrow> length bs = 16 \<Longrightarrow> frame_bytes (splice_at pm (16 * f) bs) f = bs"
  using slice_splice_same [of "16 * f" pm bs] by (simp add: frame_bytes_def)

lemma frame_bytes_splice_other:
  "16 * f + 16 \<le> length pm \<Longrightarrow> length bs = 16 \<Longrightarrow> g \<noteq> f \<Longrightarrow>
   frame_bytes (splice_at pm (16 * f) bs) g = frame_bytes pm g"
  unfolding frame_bytes_def using blocks_disjoint [of g f 16]
  by (intro slice_splice_disjoint) auto

section \<open>Properties\<close>

definition two_slots :: csc369_swap where
  "two_slots = \<lparr>swapmap = \<lparr>nbits = 64, bm_words = [0]\<rparr>, swapfile = [], file_limit = 1024\<rparr>"

lemma two_slots_wf: "swap_wf two_slots" "bm_used (swapmap two_slots) = {}"
proof -
  show "swap_wf two_slots" by (auto simp: swap_wf_def bm_wf_def two_slots_def)
  show "bm_used (swapmap two_slots) = {}" by (auto simp: bm_used_def bm_bit_def two_slots_def)
qed

text \<open>
  C26: a frame paged out to a new slot and paged in to any frame brings back the same sixteen
  bytes; no other slot changes, and the slot was free before.
\<close>

theorem swap_out_in:
  assumes "swap_wf sw" "card (bm_used (swapmap sw)) < unat (nbits (swapmap sw))"
    and f: "unat f < 2 ^ 28" "16 * unat f + 16 \<le> length pm"
    and g: "unat g < 2 ^ 28" "16 * unat g + 16 \<le> length pm'"
  shows "\<exists>s sw' pm''. s \<notin> bm_used (swapmap sw) \<and>
    CSC369_SwapPageOut sw pm f CSC369_INVALID_SWAP = Inr (slot_offset s, sw') \<and> swap_wf sw' \<and>
    bm_used (swapmap sw') = insert s (bm_used (swapmap sw)) \<and>
    CSC369_SwapPageIn sw' pm' g (slot_offset s) = Inr (0, pm'') \<and>
    frame_bytes pm'' (unat g) = frame_bytes pm (unat f) \<and>
    (\<forall>h. h \<noteq> unat g \<longrightarrow> frame_bytes pm'' h = frame_bytes pm' h) \<and>
    (\<forall>t. t \<noteq> s \<and> 16 * t + 16 \<le> length (swapfile sw) \<longrightarrow> slot_bytes sw' t = slot_bytes sw t)"
proof -
  obtain s sw' where s: "s \<notin> bm_used (swapmap sw)"
    "CSC369_SwapPageOut sw pm f CSC369_INVALID_SWAP = Inr (slot_offset s, sw')"
    "paged_out sw (frame_bytes pm (unat f)) s sw'"
    using SwapPageOut_new [OF assms(1,2) f] by blast
  note o = s(3) [unfolded paged_out_def]
  have s59: "s < 2 ^ 59" using o assms(1) by (auto simp: swap_wf_def)
  have len: "length (slot_bytes sw' s) = 16" using o f(2) by (simp add: frame_bytes_def)
  have "CSC369_SwapPageIn sw' pm' g (slot_offset s) = Inr (0, splice_at pm' (16 * unat g) (slot_bytes sw' s))"
    by (rule SwapPageIn_slot) (use s59 o g in auto)
  moreover have "frame_bytes (splice_at pm' (16 * unat g) (slot_bytes sw' s)) (unat g) = frame_bytes pm (unat f)"
    using frame_bytes_splice_same [OF g(2) len] o by simp
  moreover have "\<forall>h. h \<noteq> unat g \<longrightarrow> frame_bytes (splice_at pm' (16 * unat g) (slot_bytes sw' s)) h = frame_bytes pm' h"
    using frame_bytes_splice_other [OF g(2) len] by blast
  ultimately show ?thesis using s o
    by (intro exI [of _ s] exI [of _ sw'] exI [of _ "splice_at pm' (16 * unat g) (slot_bytes sw' s)"] conjI) simp_all
qed

theorem swap_out_in_witness:
  "\<exists>s sw' pm''. CSC369_SwapPageOut two_slots (replicate 16 7) 0 CSC369_INVALID_SWAP = Inr (slot_offset s, sw') \<and>
     CSC369_SwapPageIn sw' (replicate 32 0) 1 (slot_offset s) = Inr (0, pm'') \<and>
     frame_bytes pm'' 1 = replicate 16 7"
proof -
  have "card (bm_used (swapmap two_slots)) < unat (nbits (swapmap two_slots))"
    unfolding two_slots_wf by (simp add: two_slots_def)
  from swap_out_in [OF two_slots_wf(1) this, of 0 "replicate 16 7" 1 "replicate 32 0"]
  show ?thesis by (auto simp: frame_bytes_def slice_replicate)
qed

text \<open>
  When every slot is in use, a page that has no slot is not written anywhere: the result is the
  invalid offset and the swap file is unchanged.
\<close>

lemma SwapPageOut_full:
  assumes "swap_wf sw" "bm_used (swapmap sw) = {..< unat (nbits (swapmap sw))}"
  shows "CSC369_SwapPageOut sw pm f CSC369_INVALID_SWAP = Inr (CSC369_INVALID_SWAP, sw)"
  using BitmapAlloc_none [OF _ assms(2)] assms(1)
  by (simp add: swap_wf_def CSC369_SwapPageOut_def swap_slot_def)

text \<open>
  A page-in from beyond the end of the swap file reports success although it read nothing.
\<close>

lemma swap_in_past_end_succeeds:
  assumes "s < 2 ^ 59" "length (swapfile sw) \<le> 16 * s" "frame_base f \<le> length pm"
  shows "CSC369_SwapPageIn sw pm f (slot_offset s) = Inr (0, pm)"
  using assms
  by (simp add: CSC369_SwapPageIn_def slot_offset_valid slot_offset_lseek slot_offset_unat
      file_read_def slice_def splice_at_def Let_def)

lemma swap_in_past_end_succeeds_sample:
  "CSC369_SwapPageIn two_slots (replicate 16 7) 0 (slot_offset 5) = Inr (0, replicate 16 7)"
  by (rule swap_in_past_end_succeeds) (simp_all add: two_slots_def frame_base_def)

text \<open>
  The byte address of a frame is computed in 32 bits: from frame 268435456 on it wraps around
  and the swap code accesses the bytes of another frame.
\<close>

lemma swap_frame_address_wraps: "frame_base f = 16 * (unat f mod 2 ^ 28)"
proof -
  have "frame_base f = (unat f * 16) mod 2 ^ 32"
    by (simp add: frame_base_def unat_word_ariths)
  also have "\<dots> = 16 * (unat f mod 2 ^ 28)" using mult_mod_right [of 16 "unat f" "2 ^ 28"] by (simp add: mult.commute)
  finally show ?thesis .
qed

end
