(* ===== verification/Clist.thy ===== *)
theory Clist
  imports Prelude
begin

text \<open>
  \<open>list.h\<close>: the circular doubly-linked list adapted from the Linux kernel.  Entries
  live in a store \<open>'p \<Rightarrow> 'p list_entry\<close> indexed by entry pointers \<open>'p\<close>; a NULL link
  is \<open>None\<close>.  A list head is itself an entry.  The operations follow the order of the
  assignments of the C code, which matters when the entries alias.
  \<open>dlist h a xs\<close> is the abstraction: starting at the head \<open>a\<close> the \<open>nxt\<close> links visit
  exactly the distinct entries \<open>xs\<close> and return to \<open>a\<close>, and the \<open>prv\<close> links go back the
  same way.
\<close>

section \<open>Model\<close>

record 'p list_entry =
  nxt :: "'p option"
  prv :: "'p option"

type_synonym 'p links = "'p \<Rightarrow> 'p list_entry"

definition unlinked :: "'p list_entry" where
  "unlinked = \<lparr>nxt = None, prv = None\<rparr>"

definition set_nxt :: "'p option \<Rightarrow> 'p option \<Rightarrow> 'p links \<Rightarrow> 'p links res" where
  "set_nxt p v h = (case p of None \<Rightarrow> Inl NullDeref | Some e \<Rightarrow> Inr (h(e := (h e)\<lparr>nxt := v\<rparr>)))"

definition set_prv :: "'p option \<Rightarrow> 'p option \<Rightarrow> 'p links \<Rightarrow> 'p links res" where
  "set_prv p v h = (case p of None \<Rightarrow> Inl NullDeref | Some e \<Rightarrow> Inr (h(e := (h e)\<lparr>prv := v\<rparr>)))"

definition list_init :: "'p \<Rightarrow> 'p links \<Rightarrow> 'p links" where
  "list_init head h = h(head := \<lparr>nxt = Some head, prv = Some head\<rparr>)"

definition list_entry_init :: "'p \<Rightarrow> 'p links \<Rightarrow> 'p links" where
  "list_entry_init e h = h(e := unlinked)"

definition list_entry_is_linked :: "'p \<Rightarrow> 'p links \<Rightarrow> bool" where
  "list_entry_is_linked e h \<longleftrightarrow> nxt (h e) \<noteq> None"

definition list_insert :: "'p \<Rightarrow> 'p option \<Rightarrow> 'p option \<Rightarrow> 'p links \<Rightarrow> 'p links res" where
  "list_insert e prev next h =
     bindR (set_prv next (Some e) h) (\<lambda>h.
     bindR (set_nxt (Some e) next h) (\<lambda>h.
     bindR (set_prv (Some e) prev h) (\<lambda>h.
     set_nxt prev (Some e) h)))"

definition list_add_head :: "'p \<Rightarrow> 'p \<Rightarrow> 'p links \<Rightarrow> 'p links res" where
  "list_add_head head e h = list_insert e (Some head) (nxt (h head)) h"

definition list_add_tail :: "'p \<Rightarrow> 'p \<Rightarrow> 'p links \<Rightarrow> 'p links res" where
  "list_add_tail head e h = list_insert e (prv (h head)) (Some head) h"

definition list_del :: "'p \<Rightarrow> 'p links \<Rightarrow> 'p links res" where
  "list_del e h =
     bindR (set_prv (nxt (h e)) (prv (h e)) h) (\<lambda>h.
     bindR (set_nxt (prv (h e)) (nxt (h e)) h) (\<lambda>h.
     Inr (list_entry_init e h)))"

definition list_first_entry :: "'p \<Rightarrow> 'p links \<Rightarrow> 'p option" where
  "list_first_entry head h = nxt (h head)"

definition list_last_entry :: "'p \<Rightarrow> 'p links \<Rightarrow> 'p option" where
  "list_last_entry head h = prv (h head)"

text \<open>
  \<open>list_for_each\<close> with a loop body that counts, the only use of the macro: it need not
  terminate on links that do not lead back to the head.
\<close>

partial_function (option) list_count_from :: "'p \<Rightarrow> 'p links \<Rightarrow> 'p option \<Rightarrow> nat \<Rightarrow> nat res option" where
  "list_count_from head h pos i =
     (case pos of
        None \<Rightarrow> Some (Inl NullDeref)
      | Some p \<Rightarrow> if p = head then Some (Inr i) else list_count_from head h (nxt (h p)) (Suc i))"

definition list_count :: "'p \<Rightarrow> 'p links \<Rightarrow> nat res" where
  "list_count head h =
     (case list_count_from head h (list_first_entry head h) 0 of None \<Rightarrow> Inl Diverges | Some r \<Rightarrow> r)"

section \<open>Segments and lists\<close>

text \<open>\<open>seg h a xs b\<close>: from \<open>a\<close> the links lead through \<open>xs\<close> to \<open>b\<close> and back.\<close>

fun seg :: "'p links \<Rightarrow> 'p \<Rightarrow> 'p list \<Rightarrow> 'p \<Rightarrow> bool" where
  "seg h a [] b \<longleftrightarrow> nxt (h a) = Some b \<and> prv (h b) = Some a"
| "seg h a (x # xs) b \<longleftrightarrow> nxt (h a) = Some x \<and> prv (h x) = Some a \<and> seg h x xs b"

definition dlist :: "'p links \<Rightarrow> 'p \<Rightarrow> 'p list \<Rightarrow> bool" where
  "dlist h head xs \<longleftrightarrow> seg h head xs head \<and> distinct (head # xs)"

lemma seg_append:
  "seg h a (xs @ y # ys) b \<longleftrightarrow> seg h a xs y \<and> seg h y ys b"
  by (induction xs arbitrary: a) auto

lemma seg_cong:
  assumes "\<And>p. p \<in> set (a # xs) \<Longrightarrow> nxt (h' p) = nxt (h p)"
    and "\<And>p. p \<in> set (xs @ [b]) \<Longrightarrow> prv (h' p) = prv (h p)"
  shows "seg h' a xs b = seg h a xs b"
  using assms by (induction xs arbitrary: a) auto

lemma seg_nxt: "seg h a xs b \<Longrightarrow> nxt (h a) = Some (hd (xs @ [b]))"
  by (cases xs) auto

lemma seg_prv: "seg h a xs b \<Longrightarrow> prv (h b) = Some (last (a # xs))"
  by (induction xs arbitrary: a) auto

lemma dlist_cong:
  "(\<And>p. p \<in> set (a # xs) \<Longrightarrow> h' p = h p) \<Longrightarrow> dlist h' a xs = dlist h a xs"
  unfolding dlist_def using seg_cong [of a xs h' h a] by auto

lemma dlist_linked: "dlist h a xs \<Longrightarrow> p \<in> set (a # xs) \<Longrightarrow> list_entry_is_linked p h"
proof -
  assume d: "dlist h a xs" and p: "p \<in> set (a # xs)"
  show ?thesis
  proof (cases "p = a")
    case True
    with d show ?thesis by (auto simp: dlist_def list_entry_is_linked_def dest: seg_nxt)
  next
    case False
    with p obtain ys zs where "xs = ys @ p # zs" by (auto dest: split_list)
    with d show ?thesis
      by (auto simp: dlist_def list_entry_is_linked_def seg_append dest: seg_nxt)
  qed
qed

text \<open>The head may be moved: any entry of a circular list can serve as its head.\<close>

lemma dlist_rotate: "dlist h a (us @ e # vs) \<longleftrightarrow> dlist h e (vs @ a # us)"
  by (auto simp: dlist_def seg_append)

section \<open>What the operations do to the abstract list\<close>

lemma dlist_init: "dlist (list_init a h) a []"
  by (simp add: dlist_def list_init_def)

lemma list_init_other [simp]: "p \<noteq> a \<Longrightarrow> list_init a h p = h p"
  by (simp add: list_init_def)

lemma list_entry_init_simps [simp]:
  "list_entry_init e h e = unlinked"
  "p \<noteq> e \<Longrightarrow> list_entry_init e h p = h p"
  by (simp_all add: list_entry_init_def)

lemma not_linked_unlinked [simp]: "h e = unlinked \<Longrightarrow> \<not> list_entry_is_linked e h"
  by (simp add: list_entry_is_linked_def unlinked_def)

text \<open>Insertion between two adjacent entries: everything outside the two and the new one is kept.\<close>

lemma list_insert_eq:
  assumes "e \<noteq> p" "e \<noteq> n"
  shows "\<exists>h'. list_insert e (Some p) (Some n) h = Inr h' \<and>
     nxt (h' e) = Some n \<and> prv (h' e) = Some p \<and>
     nxt (h' p) = Some e \<and> prv (h' n) = Some e \<and>
     (p \<noteq> n \<longrightarrow> prv (h' p) = prv (h p) \<and> nxt (h' n) = nxt (h n)) \<and>
     (\<forall>q. q \<notin> {e, p, n} \<longrightarrow> h' q = h q)"
  using assms by (auto simp: list_insert_def set_nxt_def set_prv_def)

lemma list_insert_mid:
  assumes d: "dlist h a (us @ vs)" and e: "e \<notin> set (a # us @ vs)"
    and p: "p = last (a # us)" and n: "n = hd (vs @ [a])"
  shows "\<exists>h'. list_insert e (Some p) (Some n) h = Inr h' \<and> dlist h' a (us @ e # vs) \<and>
    (\<forall>q. q \<notin> set (e # a # us @ vs) \<longrightarrow> h' q = h q)"
proof -
  have pm: "p \<in> set (a # us)" and nm: "n \<in> set (vs @ [a])"
    using p n by (auto simp: hd_append)
  have ne: "e \<noteq> p" "e \<noteq> n" using e pm nm by auto
  obtain h' where ins: "list_insert e (Some p) (Some n) h = Inr h'"
    and h': "nxt (h' e) = Some n" "prv (h' e) = Some p" "nxt (h' p) = Some e" "prv (h' n) = Some e"
      "p \<noteq> n \<longrightarrow> prv (h' p) = prv (h p) \<and> nxt (h' n) = nxt (h n)"
      "\<forall>q. q \<notin> {e, p, n} \<longrightarrow> h' q = h q"
    using list_insert_eq [OF ne] by blast
  have nxt': "nxt (h' q) = nxt (h q)" if "q \<noteq> p" "q \<noteq> e" for q
    using that h'(5,6) by (cases "q = n") auto
  have prv': "prv (h' q) = prv (h q)" if "q \<noteq> n" "q \<noteq> e" for q
    using that h'(5,6) by (cases "q = p") auto
  have dist: "distinct (a # us @ vs)" and sg: "seg h a (us @ vs) a"
    using d by (auto simp: dlist_def)
  have left: "seg h' a us e"
  proof (cases us rule: rev_exhaust)
    case Nil
    with p h' show ?thesis by simp
  next
    case (snoc us' u)
    with p have u: "u = p" by simp
    have "seg h a us' p" using sg snoc u by (simp add: seg_append)
    moreover have "seg h' a us' p = seg h a us' p"
      by (rule seg_cong) (use dist e snoc u nm in \<open>auto intro!: nxt' prv'\<close>)
    ultimately show ?thesis using snoc u h' by (simp add: seg_append)
  qed
  have right: "seg h' e vs a"
  proof (cases vs)
    case Nil
    with n h' show ?thesis by simp
  next
    case (Cons v vs')
    with n have v: "v = n" by simp
    have "seg h n vs' a" using sg Cons v by (simp add: seg_append)
    moreover have "seg h' n vs' a = seg h n vs' a"
      by (rule seg_cong) (use dist e Cons v pm in \<open>auto intro!: nxt' prv'\<close>)
    ultimately show ?thesis using Cons v h' by simp
  qed
  have "dlist h' a (us @ e # vs)"
    using left right dist e by (auto simp: dlist_def seg_append)
  moreover have "\<forall>q. q \<notin> set (e # a # us @ vs) \<longrightarrow> h' q = h q"
    using h'(6) pm nm by auto
  ultimately show ?thesis using ins by blast
qed

lemma list_add_tail_spec:
  assumes "dlist h a xs" "e \<notin> set (a # xs)"
  shows "\<exists>h'. list_add_tail a e h = Inr h' \<and> dlist h' a (xs @ [e]) \<and>
    (\<forall>q. q \<notin> set (e # a # xs) \<longrightarrow> h' q = h q)"
proof -
  have "prv (h a) = Some (last (a # xs))"
    using assms(1) by (auto simp: dlist_def dest: seg_prv)
  then show ?thesis
    using list_insert_mid [of h a xs "[]" e "last (a # xs)" a] assms
    by (simp add: list_add_tail_def)
qed

lemma list_add_head_spec:
  assumes "dlist h a xs" "e \<notin> set (a # xs)"
  shows "\<exists>h'. list_add_head a e h = Inr h' \<and> dlist h' a (e # xs) \<and>
    (\<forall>q. q \<notin> set (e # a # xs) \<longrightarrow> h' q = h q)"
proof -
  have "nxt (h a) = Some (hd (xs @ [a]))"
    using assms(1) by (auto simp: dlist_def dest: seg_nxt)
  then show ?thesis
    using list_insert_mid [of h a "[]" xs e a "hd (xs @ [a])"] assms
    by (simp add: list_add_head_def)
qed

text \<open>Deletion joins the neighbours and leaves the entry unlinked.\<close>

lemma list_del_eq:
  assumes "nxt (h e) = Some n" "prv (h e) = Some p" "e \<noteq> p" "e \<noteq> n"
  shows "\<exists>h'. list_del e h = Inr h' \<and> h' e = unlinked \<and>
     nxt (h' p) = Some n \<and> prv (h' n) = Some p \<and>
     (p \<noteq> n \<longrightarrow> prv (h' p) = prv (h p) \<and> nxt (h' n) = nxt (h n)) \<and>
     (\<forall>q. q \<notin> {e, p, n} \<longrightarrow> h' q = h q)"
  using assms by (auto simp: list_del_def set_nxt_def set_prv_def)

lemma list_del_spec:
  assumes d: "dlist h a (us @ e # vs)"
  shows "\<exists>h'. list_del e h = Inr h' \<and> dlist h' a (us @ vs) \<and> h' e = unlinked \<and>
    (\<forall>q. q \<notin> set (e # a # us @ vs) \<longrightarrow> h' q = h q)"
proof -
  define p n where "p = last (a # us)" and "n = hd (vs @ [a])"
  have pm: "p \<in> set (a # us)" and nm: "n \<in> set (vs @ [a])"
    by (auto simp: p_def n_def hd_append)
  have dist: "distinct (a # us @ e # vs)" and sl: "seg h a us e" and sr: "seg h e vs a"
    using d by (auto simp: dlist_def seg_append)
  have ne: "e \<noteq> p" "e \<noteq> n" using dist pm nm by auto
  have "nxt (h e) = Some n" "prv (h e) = Some p"
    using seg_nxt [OF sr] seg_prv [OF sl] by (simp_all add: p_def n_def)
  from list_del_eq [of h e, OF this ne] obtain h' where del: "list_del e h = Inr h'" "h' e = unlinked"
    and h': "nxt (h' p) = Some n" "prv (h' n) = Some p"
      "p \<noteq> n \<longrightarrow> prv (h' p) = prv (h p) \<and> nxt (h' n) = nxt (h n)"
      "\<forall>q. q \<notin> {e, p, n} \<longrightarrow> h' q = h q"
    by auto
  have nxt': "nxt (h' q) = nxt (h q)" if "q \<noteq> p" "q \<noteq> e" for q
    using that h'(3,4) by (cases "q = n") auto
  have prv': "prv (h' q) = prv (h q)" if "q \<noteq> n" "q \<noteq> e" for q
    using that h'(3,4) by (cases "q = p") auto
  have left: "seg h' a us' p" if us: "us = us' @ [p]" for us'
  proof -
    have "seg h a us' p" using sl us by (simp add: seg_append)
    moreover have "seg h' a us' p = seg h a us' p"
      by (rule seg_cong) (use dist us nm in \<open>auto intro!: nxt' prv'\<close>)
    ultimately show ?thesis by simp
  qed
  have right: "seg h' n vs' a" if vs: "vs = n # vs'" for vs'
  proof -
    have "seg h n vs' a" using sr vs by simp
    moreover have "seg h' n vs' a = seg h n vs' a"
      by (rule seg_cong) (use dist vs pm in \<open>auto intro!: nxt' prv'\<close>)
    ultimately show ?thesis by simp
  qed
  have "seg h' a (us @ vs) a"
  proof (cases us rule: rev_exhaust)
    case Nil
    then have "p = a" by (simp add: p_def)
    with Nil right h' show ?thesis by (cases vs) (auto simp: n_def)
  next
    case (snoc us' u)
    then have u: "us = us' @ [p]" by (simp add: p_def)
    have "seg h' p vs a" using right h' by (cases vs) (auto simp: n_def)
    with left [OF u] u show ?thesis by (simp add: seg_append)
  qed
  then have "dlist h' a (us @ vs)" using dist by (auto simp: dlist_def)
  moreover have "\<forall>q. q \<notin> set (e # a # us @ vs) \<longrightarrow> h' q = h q"
    using h'(4) pm nm by auto
  ultimately show ?thesis using del by blast
qed

section \<open>Reading a list\<close>

lemma list_first_entry_spec: "dlist h a xs \<Longrightarrow> list_first_entry a h = Some (hd (xs @ [a]))"
  by (auto simp: list_first_entry_def dlist_def dest: seg_nxt)

lemma list_last_entry_spec: "dlist h a xs \<Longrightarrow> list_last_entry a h = Some (last (a # xs))"
  by (auto simp: list_last_entry_def dlist_def dest: seg_prv)

lemma list_count_from_seg:
  "seg h b xs a \<Longrightarrow> a \<notin> set xs \<Longrightarrow> list_count_from a h (nxt (h b)) i = Some (Inr (i + length xs))"
  by (induction xs arbitrary: b i) (auto simp: list_count_from.simps)

lemma list_count_spec: "dlist h a xs \<Longrightarrow> list_count a h = Inr (length xs)"
  using list_count_from_seg [of h a xs a 0]
  by (simp add: list_count_def list_first_entry_def dlist_def)

section \<open>Properties\<close>

text \<open>
  Adding an entry to a circular list, at the head or at the tail, succeeds and does to the
  sequence what it says; every entry outside the list keeps its links.
\<close>

lemma list_add_refines:
  assumes "dlist h a xs" "e \<notin> set (a # xs)"
  shows "(\<exists>h'. list_add_head a e h = Inr h' \<and> dlist h' a (e # xs) \<and> (\<forall>q. q \<notin> set (e # a # xs) \<longrightarrow> h' q = h q)) \<and>
    (\<exists>h'. list_add_tail a e h = Inr h' \<and> dlist h' a (xs @ [e]) \<and> (\<forall>q. q \<notin> set (e # a # xs) \<longrightarrow> h' q = h q))"
  using list_add_head_spec [OF assms] list_add_tail_spec [OF assms] by blast

lemma list_add_refines_sample:
  "\<exists>h'. list_add_tail 0 (1 :: nat) (list_init 0 (\<lambda>_. unlinked)) = Inr h' \<and> dlist h' 0 [1]"
proof -
  have "dlist (list_init 0 (\<lambda>_. unlinked)) (0 :: nat) []" by (rule dlist_init)
  from list_add_refines [OF this, of 1] show ?thesis by auto
qed

text \<open>
  C29: deleting an entry from wherever it is in a circular list joins its neighbours, leaves it
  unlinked, and touches no entry outside the list.
\<close>

theorem list_del_refines:
  assumes "dlist h a (us @ e # vs)"
  shows "\<exists>h'. list_del e h = Inr h' \<and> dlist h' a (us @ vs) \<and> \<not> list_entry_is_linked e h' \<and>
    (\<forall>q. q \<notin> set (e # a # us @ vs) \<longrightarrow> h' q = h q)"
  using list_del_spec [OF assms] by (metis not_linked_unlinked)

definition two_entries :: "nat links" where
  "two_entries = (\<lambda>_. unlinked)(0 := \<lparr>nxt = Some 1, prv = Some 2\<rparr>, 1 := \<lparr>nxt = Some 2, prv = Some 0\<rparr>,
     2 := \<lparr>nxt = Some 0, prv = Some 1\<rparr>)"

lemma two_entries_dlist: "dlist two_entries 0 [1, 2]"
  by (simp add: two_entries_def dlist_def)

theorem list_del_refines_witness: "\<exists>h'. list_del 1 two_entries = Inr h' \<and> dlist h' 0 [2]"
  using list_del_refines [of two_entries 0 "[]" 1 "[2]"] two_entries_dlist by auto

text \<open>
  Counting a circular list with \<open>list_for_each\<close> terminates and gives its length, and the
  first and last entry are those of the sequence.
\<close>

lemma list_read_refines:
  assumes "dlist h a xs"
  shows "list_count a h = Inr (length xs) \<and> list_first_entry a h = Some (hd (xs @ [a])) \<and>
    list_last_entry a h = Some (last (a # xs))"
  using list_count_spec [OF assms] list_first_entry_spec [OF assms] list_last_entry_spec [OF assms] by simp

lemma list_read_refines_sample: "list_count 0 two_entries = Inr 2 \<and> list_last_entry 0 two_entries = Some 2"
  using list_read_refines [OF two_entries_dlist] by simp

end
