(* ===== verification/Machine.thy ===== *)
theory Machine
  imports PageTable Swap Clist
begin

text \<open>
  The state of the whole simulator: the page-table heap and the root table of the memory
  manager (\<open>csc369_mm_t\<close>), the coremap (\<open>csc369_coremap_t\<close>, \<open>csc369_frame_t\<close>), the swap
  manager, the simulated physical memory, the statistics, the global memory size, and the
  static variables of the four replacement policies.  The \<open>framelist_entry\<close> of frame \<open>i\<close>
  is the list entry at \<open>Frame_Entry i\<close>; the two list heads of S2Q are entries of their own.
  A \<open>CSC369_Frame*\<close> is the index of the frame in \<open>coremap->frames\<close>.
\<close>

section \<open>Frames and list entries\<close>

record csc369_frame =
  free :: bool
  pte :: ptr

datatype lnode = Frame_Entry nat | A1_Head | Am_Head

definition container_of_frame :: "lnode \<Rightarrow> nat res" where
  "container_of_frame e = (case e of Frame_Entry i \<Rightarrow> Inr i | _ \<Rightarrow> Inl BadPointer)"

lemma container_of_frame_simps [simp]:
  "container_of_frame (Frame_Entry i) = Inr i"
  by (simp add: container_of_frame_def)

section \<open>The machine\<close>

record machine =
  heap :: pt_heap
  mm_struct :: ptr                \<comment> \<open>\<open>simulation->mm\<close>\<close>
  mm_root :: ptr                  \<comment> \<open>\<open>mm->page_table\<close>\<close>
  frames :: "csc369_frame list"   \<comment> \<open>\<open>coremap->frames\<close>\<close>
  frame_count :: nat              \<comment> \<open>\<open>coremap->frame_count\<close>\<close>
  mswap :: csc369_swap
  physmem :: "byte list"
  stats :: CSC369_MMStats         \<comment> \<open>\<open>CSC369_GLOBAL_STATS\<close>\<close>
  memsize :: nat                  \<comment> \<open>\<open>CSC369_GLOBAL_MEMSIZE\<close>\<close>
  links :: "lnode links"
  clock_list :: "lnode option"    \<comment> \<open>\<open>static list_head* list\<close>\<close>
  clock_hand :: "lnode option"    \<comment> \<open>\<open>static list_entry* hand\<close>\<close>
  rr_next :: u64                  \<comment> \<open>\<open>static uint64_t i\<close> of the RR policy\<close>
  rnd :: "nat \<Rightarrow> nat"             \<comment> \<open>the values \<open>random()\<close> returns\<close>
  rnd_calls :: nat

definition with_heap :: "(pt_heap \<Rightarrow> pt_heap res) \<Rightarrow> machine \<Rightarrow> machine res" where
  "with_heap f m = bindR (f (heap m)) (\<lambda>h. Inr (m\<lparr>heap := h\<rparr>))"

definition with_links :: "(lnode links \<Rightarrow> lnode links res) \<Rightarrow> machine \<Rightarrow> machine res" where
  "with_links f m = bindR (f (links m)) (\<lambda>l. Inr (m\<lparr>links := l\<rparr>))"

definition frame_read :: "nat \<Rightarrow> machine \<Rightarrow> csc369_frame res" where
  "frame_read i m = (if i < length (frames m) then Inr (frames m ! i) else Inl OutOfBounds)"

lemma with_heap_Inr [simp]: "f (heap m) = Inr h \<Longrightarrow> with_heap f m = Inr (m\<lparr>heap := h\<rparr>)"
  by (simp add: with_heap_def)

lemma with_links_Inr [simp]: "f (links m) = Inr l \<Longrightarrow> with_links f m = Inr (m\<lparr>links := l\<rparr>)"
  by (simp add: with_links_def)

lemma frame_read_Inr [simp]: "i < length (frames m) \<Longrightarrow> frame_read i m = Inr (frames m ! i)"
  by (simp add: frame_read_def)

end
