(* ===== verification/Coremap.thy ===== *)
theory Coremap
  imports Machine
begin

text \<open>
  \<open>csc369_coremap.c\<close> and the eviction handler of \<open>csc369_mm.c\<close> that it calls.  The
  replacement policy is the argument \<open>evict\<close>, as \<open>CSC369_Evict\<close> is a function pointer in
  the code.
\<close>

section \<open>Creation and frame lookup\<close>

definition coremap_frames :: "nat \<Rightarrow> csc369_frame list" where
  "coremap_frames num_frames =
     foldl (\<lambda>fs i. fs[i := (fs ! i)\<lparr>free := True\<rparr>])
       (replicate num_frames \<lparr>free = False, pte = None\<rparr>) [0..<num_frames]"

text \<open>\<open>Some\<close> of the frame array, or the NULL result when one of the two \<open>calloc\<close>s fails.\<close>

definition CSC369_CoremapCreate :: "bool \<Rightarrow> bool \<Rightarrow> nat \<Rightarrow> (csc369_frame list \<times> nat) option" where
  "CSC369_CoremapCreate calloc_coremap calloc_frames num_frames =
     (if \<not> calloc_coremap then None
      else if \<not> calloc_frames then None
      else Some (coremap_frames num_frames, num_frames))"

definition CSC369_CoremapGetFrame :: "u64 \<Rightarrow> machine \<Rightarrow> nat res" where
  "CSC369_CoremapGetFrame fnum m =
     bindR (assertR (unat fnum < memsize m)) (\<lambda>_. Inr (unat fnum))"

function find_free_from :: "machine \<Rightarrow> nat \<Rightarrow> nat option res" where
  "find_free_from m i =
     (if i < frame_count m then
        bindR (frame_read i m) (\<lambda>f. if free f then Inr (Some i) else find_free_from m (Suc i))
      else Inr None)"
  by pat_completeness auto
termination by (relation "measure (\<lambda>(m, i). frame_count m - i)") auto

declare find_free_from.simps [simp del]

definition FindFreeFrame :: "machine \<Rightarrow> nat option res" where
  "FindFreeFrame m = find_free_from m 0"

definition CSC369_CoremapClearFrame :: "u64 \<Rightarrow> machine \<Rightarrow> machine res" where
  "CSC369_CoremapClearFrame fnum m =
     bindR (assertR (unat fnum < memsize m)) (\<lambda>_.
     let mem_ptr = unat (fnum * of_nat CSC369_SIMULATED_FRAME_SIZE)
     in if length (physmem m) < mem_ptr + CSC369_SIMULATED_FRAME_SIZE then Inl OutOfBounds
        else Inr (m\<lparr>physmem := splice_at (physmem m) mem_ptr (replicate CSC369_SIMULATED_FRAME_SIZE 0)\<rparr>))"

section \<open>Eviction\<close>

definition CSC369_MMHandleEviction :: "ptr \<Rightarrow> machine \<Rightarrow> machine res" where
  "CSC369_MMHandleEviction victim m =
     bindR (assertR (victim \<noteq> None)) (\<lambda>_.
     bindR (CSC369_PTEIsDirty victim (heap m)) (\<lambda>d.
     let m = (if d then m\<lparr>stats := stats m\<lparr>evict_dirty_count := evict_dirty_count (stats m) + 1\<rparr>\<rparr>
              else m\<lparr>stats := stats m\<lparr>evict_clean_count := evict_clean_count (stats m) + 1\<rparr>\<rparr>) in
     bindR (CSC369_PTEGetFrameNumber victim (heap m)) (\<lambda>frame.
     bindR (CSC369_PTEGetSwapOffset victim (heap m)) (\<lambda>old_offset.
     bindR (CSC369_SwapPageOut (mswap m) (physmem m) (ucast frame) old_offset) (\<lambda>(offset, sw).
     let m = m\<lparr>mswap := sw\<rparr> in
     bindR (with_heap (CSC369_PTESetDirty victim False) m) (\<lambda>m.
     bindR (with_heap (CSC369_PTESetValid victim False) m) (\<lambda>m.
     bindR (with_heap (CSC369_PTESetOnSwap victim True) m) (\<lambda>m.
     with_heap (CSC369_PTESetSwapOffset victim offset) m))))))))"

section \<open>Allocation of a frame\<close>

text \<open>The frame to use: a free one, or the one the policy evicts.\<close>

definition choose_frame :: "(machine \<Rightarrow> (u64 \<times> machine) res) \<Rightarrow> machine \<Rightarrow> (u64 \<times> machine) res" where
  "choose_frame evict m =
     bindR (FindFreeFrame m) (\<lambda>found.
     case found of
       Some i \<Rightarrow> Inr (of_nat i, m)
     | None \<Rightarrow>
         bindR (evict m) (\<lambda>(fnum, m).
         bindR (frame_read (unat fnum) m) (\<lambda>f.
         bindR (assertR (pte f \<noteq> None)) (\<lambda>_.
         bindR (CSC369_MMHandleEviction (pte f) m) (\<lambda>m.
         Inr (fnum, m))))))"

definition CSC369_CoremapAllocateFrame ::
  "(machine \<Rightarrow> (u64 \<times> machine) res) \<Rightarrow> ptr \<Rightarrow> machine \<Rightarrow> (u64 \<times> machine) res" where
  "CSC369_CoremapAllocateFrame evict p m =
     bindR (assertR (p \<noteq> None)) (\<lambda>_.
     bindR (choose_frame evict m) (\<lambda>(fnum, m).
     bindR (frame_read (unat fnum) m) (\<lambda>f.
     Inr (fnum,
       m\<lparr>frames := (frames m)[unat fnum := f\<lparr>free := False, pte := p\<rparr>]\<rparr>))))"

section \<open>Search for a free frame\<close>

lemma find_free_from_spec:
  assumes "length (frames m) = frame_count m" "i \<le> frame_count m"
  shows "find_free_from m i = Inr (if \<exists>j. i \<le> j \<and> j < frame_count m \<and> free (frames m ! j)
     then Some (LEAST j. i \<le> j \<and> j < frame_count m \<and> free (frames m ! j)) else None)"
  using assms(2)
proof (induction "frame_count m - i" arbitrary: i)
  case 0
  then show ?case by (subst find_free_from.simps) auto
next
  case (Suc n)
  then have i: "i < frame_count m" by simp
  show ?case
  proof (cases "free (frames m ! i)")
    case True
    then have "(LEAST j. i \<le> j \<and> j < frame_count m \<and> free (frames m ! j)) = i"
      using i by (intro Least_equality) auto
    then show ?thesis using i True assms(1) by (subst find_free_from.simps) auto
  next
    case False
    have le: "(i \<le> j \<and> j < frame_count m \<and> free (frames m ! j)) \<longleftrightarrow>
        (Suc i \<le> j \<and> j < frame_count m \<and> free (frames m ! j))" for j
      using False by (cases "j = i") auto
    have "find_free_from m i = find_free_from m (Suc i)"
      using i False assms(1) by (subst find_free_from.simps) simp
    then show ?thesis unfolding le using Suc(1) [of "Suc i"] Suc(2) i by simp
  qed
qed

section \<open>Properties\<close>

text \<open>
  The search for a free frame terminates and returns the lowest free frame, or none when
  every frame is in use.
\<close>

lemma find_free_frame_least:
  assumes "length (frames m) = frame_count m"
  shows "FindFreeFrame m = Inr (if \<exists>j < frame_count m. free (frames m ! j)
     then Some (LEAST j. j < frame_count m \<and> free (frames m ! j)) else None)"
  using find_free_from_spec [OF assms, of 0] by (simp add: FindFreeFrame_def)

definition three_frames :: machine where
  "three_frames = \<lparr>heap = \<lparr>km = CSC369_MallocInit (\<lambda>n. Some n), pte_mem = Map.empty, pt_mem = Map.empty\<rparr>,
     mm_struct = None, mm_root = None, frames = [\<lparr>free = False, pte = Some 0\<rparr>, \<lparr>free = True, pte = None\<rparr>, \<lparr>free = True, pte = None\<rparr>],
     frame_count = 3, mswap = \<lparr>swapmap = \<lparr>nbits = 0, bm_words = []\<rparr>, swapfile = [], file_limit = 0\<rparr>,
     physmem = replicate 48 0,
     stats = \<lparr>ref_count = 0, hit_count = 0, miss_count = 0, evict_clean_count = 0, evict_dirty_count = 0\<rparr>,
     memsize = 3, links = (\<lambda>e. unlinked), clock_list = None, clock_hand = None, rr_next = 0,
     rnd = (\<lambda>n. n), rnd_calls = 0\<rparr>"

lemma find_free_frame_least_sample: "FindFreeFrame three_frames = Inr (Some 1)"
proof -
  have "(LEAST j. j < frame_count three_frames \<and> free (frames three_frames ! j)) = 1"
  proof (rule Least_equality)
    show "1 \<le> y" if "y < frame_count three_frames \<and> free (frames three_frames ! y)" for y
      using that by (cases y) (simp_all add: three_frames_def)
  qed (simp add: three_frames_def)
  moreover have "\<exists>j < frame_count three_frames. free (frames three_frames ! j)"
    by (rule exI [of _ 1]) (simp add: three_frames_def)
  ultimately show ?thesis using find_free_frame_least [of three_frames] by (simp add: three_frames_def)
qed

end
