(* ===== verification/MM.thy ===== *)
theory MM
  imports Coremap
begin

text \<open>
  \<open>csc369_mm.c\<close>: the address translation with demand paging.  \<open>CSC369_MMHandleEviction\<close>
  is in theory \<open>Coremap\<close>, which calls it.
\<close>

definition sizeof_mm :: u64 where
  "sizeof_mm = 32"

text \<open>
  Creation: the \<open>CSC369_MM\<close> struct and the root table; the NULL result is a root of
  \<open>None\<close> paired with the heap as the failure left it.
\<close>

definition CSC369_MMCreate :: "pt_heap \<Rightarrow> ptr \<times> ptr \<times> pt_heap" where
  "CSC369_MMCreate h =
     (case CSC369_malloc sizeof_mm (km h) of
        (None, k) \<Rightarrow> (None, None, h\<lparr>km := k\<rparr>)
      | (Some mm, k) \<Rightarrow>
          (case CSC369_PageTableCreate (h\<lparr>km := k\<rparr>) of
             (None, h) \<Rightarrow> (None, None, h)
           | (Some t, h) \<Rightarrow> (Some mm, Some t, h)))"

text \<open>The fill of a newly allocated frame: zeros for a new page, the swapped-out bytes otherwise.\<close>

definition fill_frame :: "ptr \<Rightarrow> u64 \<Rightarrow> machine \<Rightarrow> machine res" where
  "fill_frame p fnum m =
     bindR (CSC369_PTEIsOnSwap p (heap m)) (\<lambda>sw.
     if \<not> sw then
       bindR (CSC369_CoremapClearFrame fnum m) (\<lambda>m.
       with_heap (CSC369_PTESetDirty p True) m)
     else
       bindR (CSC369_PTEGetSwapOffset p (heap m)) (\<lambda>offset.
       bindR (CSC369_SwapPageIn (mswap m) (physmem m) (ucast fnum) offset) (\<lambda>(swap_result, pm).
       with_heap (CSC369_PTESetOnSwap p False) (m\<lparr>physmem := pm\<rparr>))))"

definition CSC369_MMGetFrameNumber ::
  "(machine \<Rightarrow> (u64 \<times> machine) res) \<Rightarrow> CSC369_MemAccess \<Rightarrow> machine \<Rightarrow> (u64 \<times> machine) res" where
  "CSC369_MMGetFrameNumber evict access m =
     bindR (CSC369_PageTableAllocate (mm_root m) (virtual_address access) (heap m)) (\<lambda>(p, h).
     let m = m\<lparr>heap := h\<rparr> in
     bindR (CSC369_PTEIsValid p (heap m)) (\<lambda>v.
     bindR
       (if \<not> v then
          let m = m\<lparr>stats := stats m\<lparr>miss_count := miss_count (stats m) + 1\<rparr>\<rparr> in
          bindR (CSC369_CoremapAllocateFrame evict p m) (\<lambda>(fnum, m).
          bindR (with_heap (CSC369_PTESetFrameNumber p fnum) m) (\<lambda>m.
          bindR (fill_frame p fnum m) (\<lambda>m.
          bindR (with_heap (CSC369_PTESetValid p True) m) (\<lambda>m.
          Inr (fnum, m)))))
        else
          let m = m\<lparr>stats := stats m\<lparr>hit_count := hit_count (stats m) + 1\<rparr>\<rparr> in
          bindR (CSC369_PTEGetFrameNumber p (heap m)) (\<lambda>fnum.
          Inr (fnum, m)))
       (\<lambda>(fnum, m).
     bindR (if is_write access then with_heap (CSC369_PTESetDirty p True) m else Inr m) (\<lambda>m.
     Inr (fnum, m\<lparr>stats := stats m\<lparr>ref_count := ref_count (stats m) + 1\<rparr>\<rparr>)))))"

definition CSC369_MMGetPageTable :: "machine \<Rightarrow> ptr res" where
  "CSC369_MMGetPageTable m = bindR (assertR (mm_struct m \<noteq> None)) (\<lambda>_. Inr (mm_root m))"

end
