(* ===== verification/PageTableInv.thy ===== *)
theory PageTableInv
  imports PageTable
begin

text \<open>
  The page table as a partial map.  \<open>tslot\<close> and \<open>subt\<close> are the two kinds of edges of
  the heap (table to entry, entry to next table), \<open>pte_at h r path\<close> follows a path of
  indices from the table \<open>r\<close>, and \<open>page_path va\<close> is the path of a virtual address.  The
  invariant \<open>pt_wf\<close> makes the reachable objects a tree; the lemmas show that
  \<open>ensure_pte\<close>, \<open>ensure_table\<close> and \<open>CSC369_PageTableAllocate\<close> keep it and extend the
  map at one path only.
\<close>

section \<open>Edges, paths and the invariant\<close>

definition tslot :: "pt_heap \<Rightarrow> addr \<Rightarrow> nat \<Rightarrow> ptr" where
  "tslot h t i = (case pt_mem h t of None \<Rightarrow> None | Some pt \<Rightarrow> ptes pt i)"

definition subt :: "pt_heap \<Rightarrow> addr \<Rightarrow> ptr" where
  "subt h p = (case pte_mem h p of None \<Rightarrow> None | Some e \<Rightarrow> page_table e)"

fun pte_at :: "pt_heap \<Rightarrow> addr \<Rightarrow> nat list \<Rightarrow> ptr" where
  "pte_at h t [] = None"
| "pte_at h t [i] = tslot h t i"
| "pte_at h t (i # j # js) =
     (case tslot h t i of
        None \<Rightarrow> None
      | Some p \<Rightarrow> (case subt h p of None \<Rightarrow> None | Some t' \<Rightarrow> pte_at h t' (j # js)))"

definition page_path :: "u64 \<Rightarrow> nat list" where
  "page_path va = [unat va div 2 ^ 36, (unat va div 2 ^ 24) mod 2 ^ 12, (unat va div 2 ^ 12) mod 2 ^ 12]"

definition pt_wf :: "pt_heap \<Rightarrow> addr \<Rightarrow> bool" where
  "pt_wf h r \<longleftrightarrow>
     libc_ok (libc (km h)) \<and> 0 \<le> bytes_malloced (km h) \<and>
     dom (pte_mem h) \<union> dom (pt_mem h) \<subseteq> handed_out (km h) \<and>
     r \<in> dom (pt_mem h) \<and>
     (\<forall>t i p. tslot h t i = Some p \<longrightarrow> i < ptes_count \<and> p \<in> dom (pte_mem h)) \<and>
     (\<forall>p t. subt h p = Some t \<longrightarrow> t \<in> dom (pt_mem h) \<and> t \<noteq> r) \<and>
     (\<forall>t i t' i' p. tslot h t i = Some p \<and> tslot h t' i' = Some p \<longrightarrow> t = t' \<and> i = i') \<and>
     (\<forall>p p' t. subt h p = Some t \<and> subt h p' = Some t \<longrightarrow> p = p')"

lemma ptes_count_eq [simp]: "ptes_count = 4096"
  by (simp add: ptes_count_def geometry_defs)

lemma length_page_path [simp]: "length (page_path va) = 3"
  by (simp add: page_path_def)

lemma pt_slot_eq [simp]:
  "t \<in> dom (pt_mem h) \<Longrightarrow> i < ptes_count \<Longrightarrow> pt_slot (Some t) i h = Inr (tslot h t i)"
  by (auto simp: pt_slot_def tslot_def)

lemma pte_at_snoc:
  "pte_at h t (xs @ [i]) =
     (if xs = [] then tslot h t i
      else case pte_at h t xs of
             None \<Rightarrow> None
           | Some p \<Rightarrow> (case subt h p of None \<Rightarrow> None | Some t' \<Rightarrow> tslot h t' i))"
  by (induction h t xs rule: pte_at.induct) (auto split: option.splits)

lemma pte_at_dom: "pt_wf h r \<Longrightarrow> pte_at h r xs = Some p \<Longrightarrow> p \<in> dom (pte_mem h)"
  by (cases xs rule: rev_exhaust) (auto simp: pte_at_snoc pt_wf_def split: option.splits if_splits)

text \<open>In a well-formed heap an entry is reached by one path only.\<close>

lemma pte_at_inj:
  assumes wf: "pt_wf h r"
  shows "pte_at h r xs = Some p \<Longrightarrow> pte_at h r ys = Some p \<Longrightarrow> xs = ys"
proof (induction xs arbitrary: ys p rule: rev_induct)
  case Nil
  then show ?case by simp
next
  case (snoc i xs)
  from snoc.prems(2) obtain j zs where ys: "ys = zs @ [j]"
    by (cases ys rule: rev_exhaust) auto
  have slot: "t = t' \<and> a = b" if "tslot h t a = Some p" "tslot h t' b = Some p" for t a t' b
    using wf that unfolding pt_wf_def by blast
  have root: "t \<noteq> r" if "subt h q = Some t" for q t
    using wf that unfolding pt_wf_def by blast
  have sub: "q = q'" if "subt h q = Some t" "subt h q' = Some t" for q q' t
    using wf that unfolding pt_wf_def by blast
  have edge: "(zs' = [] \<and> tslot h r k = Some p) \<or>
      (\<exists>q t. zs' \<noteq> [] \<and> pte_at h r zs' = Some q \<and> subt h q = Some t \<and> tslot h t k = Some p)"
    if "pte_at h r (zs' @ [k]) = Some p" for zs' k
    using that by (auto simp: pte_at_snoc split: option.splits if_splits)
  from edge [OF snoc.prems(1)] edge [of zs j] snoc.prems(2) ys
  consider "xs = []" "zs = []" "i = j"
    | q t where "subt h q = Some t" "t = r"
    | q t q' where "pte_at h r xs = Some q" "pte_at h r zs = Some q'" "subt h q = Some t"
        "subt h q' = Some t" "i = j"
    using slot by (elim disjE exE conjE) metis+
  then show ?case
  proof cases
    case 1
    then show ?thesis by (simp add: ys)
  next
    case 2
    then show ?thesis using root by blast
  next
    case 3
    with sub have "q = q'" by blast
    with 3 snoc.IH have "xs = zs" by blast
    with 3 show ?thesis by (simp add: ys)
  qed
qed

text \<open>The path of a valid address has indices below 4096.\<close>

lemma page_path_bounds: "unat va < 2 ^ 48 \<Longrightarrow> \<forall>i \<in> set (page_path va). i < ptes_count"
  by (simp add: page_path_def less_mult_imp_div_less)

text \<open>Two addresses have the same path when they are on the same page.\<close>

lemma page_path_digits:
  "page_path va = (let q = unat va div 4096 in [q div 4096 div 4096, (q div 4096) mod 4096, q mod 4096])"
  by (simp add: page_path_def Let_def div_mult2_eq [symmetric])

lemma page_path_page:
  "page_path va = page_path vb \<longleftrightarrow> unat va div 4096 = unat vb div 4096" (is "?l = ?r")
proof
  define q q' where "q = unat va div 4096" and "q' = unat vb div 4096"
  assume ?l
  then have "q div 4096 div 4096 = q' div 4096 div 4096" "(q div 4096) mod 4096 = (q' div 4096) mod 4096"
    and low: "q mod 4096 = q' mod 4096"
    by (simp_all add: page_path_digits Let_def q_def q'_def)
  then have "q div 4096 = q' div 4096" by (metis div_mult_mod_eq)
  with low have "q = q'" by (metis div_mult_mod_eq)
  then show ?r by (simp add: q_def q'_def)
qed (simp add: page_path_digits)

section \<open>One level: the entry of a slot, the table of an entry\<close>

lemma tslot_simps:
  "tslot (h\<lparr>km := k\<rparr>) = tslot h"
  "tslot (h\<lparr>pte_mem := m\<rparr>) = tslot h"
  by (simp_all add: tslot_def fun_eq_iff)

lemma subt_simps:
  "subt (h\<lparr>km := k\<rparr>) = subt h"
  "subt (h\<lparr>pt_mem := m\<rparr>) = subt h"
  by (simp_all add: subt_def fun_eq_iff)

text \<open>Adding an edge from a slot to an entry without a table adds that entry and nothing else.\<close>

lemma pte_at_new_slot:
  assumes "tslot h' = (\<lambda>u j. if u = t \<and> j = i then Some p else tslot h u j)"
    and "subt h' = subt h" and "subt h p = None" and "tslot h t i = None"
  shows "pte_at h' s xs = pte_at h s xs \<or> pte_at h' s xs = Some p"
  using assms
proof (induction h s xs rule: pte_at.induct)
  case (3 h s a b bs)
  then show ?case by (cases "s = t \<and> a = i") (auto split: option.splits)
qed auto

lemma pte_at_new_slot_mono:
  assumes "tslot h' = (\<lambda>u j. if u = t \<and> j = i then Some p else tslot h u j)"
    and "subt h' = subt h" and "tslot h t i = None"
  shows "pte_at h s xs = Some q \<Longrightarrow> pte_at h' s xs = Some q"
  using assms
  by (induction h s xs rule: pte_at.induct) (auto split: option.splits)

text \<open>Adding an empty table below an entry changes no lookup.\<close>

lemma pte_at_new_table:
  assumes "subt h' = (subt h)(p \<mapsto> t)" and "tslot h' = tslot h"
    and "\<forall>i. tslot h t i = None" and "subt h p = None"
  shows "pte_at h' s xs = pte_at h s xs"
  using assms
proof (induction h s xs rule: pte_at.induct)
  case (3 h s a b bs)
  have "pte_at h t (b # bs) = None"
    using "3.prems"(3) by (cases bs) auto
  moreover have "pte_at h' t (b # bs) = None"
    using "3.prems"(2,3) by (cases bs) auto
  ultimately show ?case using 3 by (auto split: option.splits)
qed auto

section \<open>Extensions of the table\<close>

text \<open>
  \<open>pt_ext N C n h h' r\<close>: \<open>h'\<close> extends \<open>h\<close>; lookups gain only entries of \<open>N\<close>, the
  contents of old entries change only within \<open>C\<close>, and at most \<open>n\<close> bytes were allocated.
\<close>

definition pt_ext :: "addr set \<Rightarrow> addr set \<Rightarrow> int \<Rightarrow> pt_heap \<Rightarrow> pt_heap \<Rightarrow> addr \<Rightarrow> bool" where
  "pt_ext N C n h h' r \<longleftrightarrow> pt_wf h' r \<and>
     dom (pt_mem h) \<subseteq> dom (pt_mem h') \<and> dom (pte_mem h) \<subseteq> dom (pte_mem h') \<and>
     N \<inter> dom (pte_mem h) = {} \<and>
     (\<forall>xs q. pte_at h r xs = Some q \<longrightarrow> pte_at h' r xs = Some q) \<and>
     (\<forall>xs q. pte_at h' r xs = Some q \<longrightarrow> pte_at h r xs = Some q \<or> q \<in> N) \<and>
     (\<forall>a \<in> dom (pte_mem h) - C. pte_mem h' a = pte_mem h a) \<and>
     bytes_malloced (km h') \<le> bytes_malloced (km h) + n"

lemma pt_ext_refl: "pt_wf h r \<Longrightarrow> 0 \<le> n \<Longrightarrow> pt_ext {} C n h h r"
  by (simp add: pt_ext_def)

lemma pt_ext_trans:
  assumes "pt_ext N C m h h1 r" "pt_ext N' C' n h1 h2 r"
  shows "pt_ext (N \<union> N') (C \<union> C') (m + n) h h2 r"
proof -
  note e1 = assms(1) [unfolded pt_ext_def] and e2 = assms(2) [unfolded pt_ext_def]
  have d1: "dom (pte_mem h) \<subseteq> dom (pte_mem h1)" and d2: "dom (pte_mem h1) \<subseteq> dom (pte_mem h2)"
    using e1 e2 by blast+
  have "pt_wf h2 r" using e2 by blast
  moreover have "dom (pt_mem h) \<subseteq> dom (pt_mem h2)" using e1 e2 by (meson order_trans)
  moreover have "dom (pte_mem h) \<subseteq> dom (pte_mem h2)" using d1 d2 by (rule order_trans)
  moreover have "(N \<union> N') \<inter> dom (pte_mem h) = {}"
  proof -
    have "N \<inter> dom (pte_mem h) = {}" "N' \<inter> dom (pte_mem h1) = {}" using e1 e2 by blast+
    with d1 show ?thesis by blast
  qed
  moreover have "\<forall>xs q. pte_at h r xs = Some q \<longrightarrow> pte_at h2 r xs = Some q" using e1 e2 by blast
  moreover have "\<forall>xs q. pte_at h2 r xs = Some q \<longrightarrow> pte_at h r xs = Some q \<or> q \<in> N \<union> N'"
    using e1 e2 by blast
  moreover have "\<forall>a \<in> dom (pte_mem h) - (C \<union> C'). pte_mem h2 a = pte_mem h a"
  proof
    fix a assume "a \<in> dom (pte_mem h) - (C \<union> C')"
    with d1 have "a \<in> dom (pte_mem h) - C" "a \<in> dom (pte_mem h1) - C'" by blast+
    moreover have "\<forall>a \<in> dom (pte_mem h) - C. pte_mem h1 a = pte_mem h a"
      "\<forall>a \<in> dom (pte_mem h1) - C'. pte_mem h2 a = pte_mem h1 a" using e1 e2 by blast+
    ultimately show "pte_mem h2 a = pte_mem h a" by simp
  qed
  moreover have "bytes_malloced (km h2) \<le> bytes_malloced (km h) + (m + n)" using e1 e2 by linarith
  ultimately show ?thesis unfolding pt_ext_def by (intro conjI)
qed

lemma pt_ext_wf: "pt_ext N C n h h' r \<Longrightarrow> pt_wf h' r"
  by (simp add: pt_ext_def)

lemma pt_ext_new:
  "pt_ext N C n h h' r \<Longrightarrow> pte_at h' r xs = Some q \<Longrightarrow> pte_at h r xs = Some q \<or> q \<in> N"
  unfolding pt_ext_def by blast

lemma handed_out_Suc:
  "libc k (libc_calls k) = Some a \<Longrightarrow> libc k' = libc k \<Longrightarrow> libc_calls k' = Suc (libc_calls k) \<Longrightarrow>
   handed_out k' = insert a (handed_out k)"
  by (auto simp: handed_out_def less_Suc_eq)

lemma PTECreate_ok:
  assumes "pt_wf h r" "bytes_malloced (km h) + 32 \<le> 2 ^ 31"
  obtains p k where "CSC369_PTECreate h = (Some p, h\<lparr>km := k, pte_mem := (pte_mem h)(p \<mapsto> init_pte)\<rparr>)"
    and "p \<notin> handed_out (km h)" "handed_out k = insert p (handed_out (km h))"
    and "libc k = libc (km h)" "bytes_malloced k = bytes_malloced (km h) + 32"
proof -
  have q: "libc_ok (libc (km h))" "0 \<le> bytes_malloced (km h)" using assms(1) by (auto simp: pt_wf_def)
  obtain a where a: "CSC369_malloc sizeof_pte (km h) = (Some a, (km h)\<lparr>
      num_mallocs := num_mallocs (km h) + 1,
      bytes_malloced := bytes_malloced (km h) + uint sizeof_pte,
      malloc_map := (malloc_map (km h))(a \<mapsto> sizeof_pte), libc_calls := Suc (libc_calls (km h))\<rparr>)"
      (is "_ = (_, ?k)")
    and l: "libc (km h) (libc_calls (km h)) = Some a" "a \<notin> handed_out (km h)"
    using malloc_succeeds [OF q, of sizeof_pte] assms(2)
    by (auto simp: sizeof_pte_def KMALLOC_MAX_eq)
  show thesis
    by (rule that [of a ?k]) (use a l in \<open>auto simp: CSC369_PTECreate_def sizeof_pte_def handed_out_Suc [OF l(1)]\<close>)
qed

lemma PageTableCreate_ok:
  assumes q: "libc_ok (libc (km h))" "0 \<le> bytes_malloced (km h)"
    and quota: "bytes_malloced (km h) + 32776 \<le> 2 ^ 31"
  obtains t a k where "CSC369_PageTableCreate h =
      (Some t, h\<lparr>km := k, pt_mem := (pt_mem h)(t \<mapsto> \<lparr>ptes_block = a, ptes = (\<lambda>i. None)\<rparr>)\<rparr>)"
    and "t \<notin> handed_out (km h)" "handed_out k = {t, a} \<union> handed_out (km h)"
    and "libc k = libc (km h)" "bytes_malloced k = bytes_malloced (km h) + 32776"
proof -
  obtain t where t: "CSC369_malloc sizeof_page_table (km h) = (Some t, (km h)\<lparr>
      num_mallocs := num_mallocs (km h) + 1,
      bytes_malloced := bytes_malloced (km h) + uint sizeof_page_table,
      malloc_map := (malloc_map (km h))(t \<mapsto> sizeof_page_table),
      libc_calls := Suc (libc_calls (km h))\<rparr>)" (is "_ = (_, ?k)")
    and lt: "libc (km h) (libc_calls (km h)) = Some t" "t \<notin> handed_out (km h)"
    using malloc_succeeds [OF q, of sizeof_page_table] quota
    by (auto simp: sizeof_page_table_def KMALLOC_MAX_eq)
  obtain a where a: "CSC369_malloc (8 * of_nat ptes_count) ?k = (Some a, ?k\<lparr>
      num_mallocs := num_mallocs ?k + 1, bytes_malloced := bytes_malloced ?k + uint (8 * of_nat ptes_count :: u64),
      malloc_map := (malloc_map ?k)(a \<mapsto> 8 * of_nat ptes_count),
      libc_calls := Suc (libc_calls ?k)\<rparr>)" (is "_ = (_, ?k2)")
    and la: "libc ?k (libc_calls ?k) = Some a"
    using malloc_succeeds [of ?k "8 * of_nat ptes_count"] q quota
    by (auto simp: sizeof_page_table_def KMALLOC_MAX_eq)
  have "handed_out ?k = insert t (handed_out (km h))" by (rule handed_out_Suc [OF lt(1)]) auto
  moreover have "handed_out ?k2 = insert a (handed_out ?k)" by (rule handed_out_Suc [OF la]) auto
  ultimately have ho: "handed_out ?k2 = {t, a} \<union> handed_out (km h)" by auto
  show thesis
  proof (rule that [of t a ?k2])
    show "CSC369_PageTableCreate h =
        (Some t, h\<lparr>km := ?k2, pt_mem := (pt_mem h)(t \<mapsto> \<lparr>ptes_block = a, ptes = (\<lambda>i. None)\<rparr>)\<rparr>)"
      unfolding CSC369_PageTableCreate_def t by (simp only: a prod.case option.case)
  qed (use ho lt in \<open>simp_all add: sizeof_page_table_def\<close>)
qed

lemma ensure_pte_ext:
  assumes wf: "pt_wf h r" and t: "t \<in> dom (pt_mem h)" and i: "i < ptes_count"
    and quota: "bytes_malloced (km h) + 32 \<le> 2 ^ 31"
  obtains h' p where "ensure_pte (Some t) i h = Inr h'" "tslot h' t i = Some p"
    "pt_ext (if tslot h t i = None then {p} else {}) {} 32 h h' r"
    "tslot h t i = None \<longrightarrow> pte_mem h' p = Some init_pte"
proof (cases "tslot h t i")
  case (Some p)
  show thesis
    by (rule that [of h p])
       (use Some t i wf in \<open>auto simp: ensure_pte_def intro: pt_ext_refl\<close>)
next
  case None
  obtain p k where c: "CSC369_PTECreate h = (Some p, h\<lparr>km := k, pte_mem := (pte_mem h)(p \<mapsto> init_pte)\<rparr>)"
    and p: "p \<notin> handed_out (km h)" "handed_out k = insert p (handed_out (km h))"
    and k: "libc k = libc (km h)" "bytes_malloced k = bytes_malloced (km h) + 32"
    using PTECreate_ok [OF wf quota] by metis
  obtain pt where pt: "pt_mem h t = Some pt" using t by auto
  define h' where "h' = h\<lparr>km := k, pte_mem := (pte_mem h)(p \<mapsto> init_pte),
    pt_mem := (pt_mem h)(t \<mapsto> pt\<lparr>ptes := (ptes pt)(i := Some p)\<rparr>)\<rparr>"
  have e: "ensure_pte (Some t) i h = Inr h'"
    using None t i c pt by (simp add: ensure_pte_def pt_slot_set_def h'_def)
  have fresh: "p \<notin> dom (pte_mem h)" "p \<notin> dom (pt_mem h)" using wf p(1) by (auto simp: pt_wf_def)
  have ts: "tslot h' = (\<lambda>u j. if u = t \<and> j = i then Some p else tslot h u j)"
    using pt by (auto simp: tslot_def h'_def fun_eq_iff)
  have su: "subt h' = subt h"
    using fresh by (auto simp: subt_def h'_def fun_eq_iff init_pte_def split: option.splits)
  have old: "tslot h u j \<noteq> Some p" for u j
    using wf fresh unfolding pt_wf_def by blast
  have wf': "pt_wf h' r"
    unfolding pt_wf_def
  proof (intro conjI)
    show "libc_ok (libc (km h'))" "0 \<le> bytes_malloced (km h')"
      using wf k by (auto simp: pt_wf_def h'_def)
    show "dom (pte_mem h') \<union> dom (pt_mem h') \<subseteq> handed_out (km h')" "r \<in> dom (pt_mem h')"
      using wf p pt by (auto simp: pt_wf_def h'_def)
    show "\<forall>u j q. tslot h' u j = Some q \<longrightarrow> j < ptes_count \<and> q \<in> dom (pte_mem h')"
      using wf i unfolding ts pt_wf_def by (auto simp: h'_def)
    show "\<forall>q u. subt h' q = Some u \<longrightarrow> u \<in> dom (pt_mem h') \<and> u \<noteq> r"
      using wf unfolding su pt_wf_def by (auto simp: h'_def)
    show "\<forall>u j u' j' q. tslot h' u j = Some q \<and> tslot h' u' j' = Some q \<longrightarrow> u = u' \<and> j = j'"
    proof (intro allI impI, elim conjE)
      fix u j u' j' q assume "tslot h' u j = Some q" "tslot h' u' j' = Some q"
      then consider "u = t \<and> j = i \<and> u' = t \<and> j' = i" | "tslot h u j = Some q \<and> tslot h u' j' = Some q"
        using old [of u j] old [of u' j'] unfolding ts by (auto split: if_splits)
      then show "u = u' \<and> j = j'" using wf unfolding pt_wf_def by cases blast+
    qed
    show "\<forall>q q' u. subt h' q = Some u \<and> subt h' q' = Some u \<longrightarrow> q = q'"
      using wf unfolding su pt_wf_def by blast
  qed
  have np: "subt h p = None" using fresh by (auto simp: subt_def split: option.splits)
  have "pt_ext {p} {} 32 h h' r"
    unfolding pt_ext_def
  proof (intro conjI allI impI)
    show "pte_at h' r xs = Some q" if "pte_at h r xs = Some q" for xs q
      using pte_at_new_slot_mono [OF ts su None that] .
    show "pte_at h r xs = Some q \<or> q \<in> {p}" if "pte_at h' r xs = Some q" for xs q
      using pte_at_new_slot [OF ts su np None, of r xs] that by auto
  qed (use wf' fresh k in \<open>auto simp: h'_def\<close>)
  then show thesis
    using that [of h' p] e ts None by (simp add: h'_def)
qed

lemma ensure_table_ext:
  assumes wf: "pt_wf h r" and q: "pte_mem h q = Some e"
    and quota: "bytes_malloced (km h) + 32776 \<le> 2 ^ 31"
  obtains h' t e' where "ensure_table (Some q) h = Inr h'" "pte_mem h' q = Some e'" "page_table e' = Some t"
    "t \<in> dom (pt_mem h')" "subt h' q = Some t" "pt_ext {} {q} 32776 h h' r"
proof (cases "page_table e")
  case (Some t)
  then have s: "subt h q = Some t" using q by (simp add: subt_def)
  with wf have "t \<in> dom (pt_mem h)" unfolding pt_wf_def by blast
  show thesis
    by (rule that [of h e t])
       (use Some q wf s \<open>t \<in> dom (pt_mem h)\<close> in \<open>auto simp: ensure_table_def intro: pt_ext_refl\<close>)
next
  case None
  obtain t a k where c: "CSC369_PageTableCreate h =
      (Some t, h\<lparr>km := k, pt_mem := (pt_mem h)(t \<mapsto> \<lparr>ptes_block = a, ptes = (\<lambda>i. None)\<rparr>)\<rparr>)"
    and t: "t \<notin> handed_out (km h)" "handed_out k = {t, a} \<union> handed_out (km h)"
    and k: "libc k = libc (km h)" "bytes_malloced k = bytes_malloced (km h) + 32776"
    using PageTableCreate_ok [OF wf [unfolded pt_wf_def, THEN conjunct1]
      wf [unfolded pt_wf_def, THEN conjunct2, THEN conjunct1] quota] by metis
  define h' where "h' = h\<lparr>km := k, pt_mem := (pt_mem h)(t \<mapsto> \<lparr>ptes_block = a, ptes = (\<lambda>i. None)\<rparr>),
    pte_mem := (pte_mem h)(q \<mapsto> e\<lparr>page_table := Some t\<rparr>)\<rparr>"
  have en: "ensure_table (Some q) h = Inr h'"
    using None q c by (simp add: ensure_table_def h'_def)
  have fresh: "t \<notin> dom (pte_mem h)" "t \<notin> dom (pt_mem h)" using wf t(1) by (auto simp: pt_wf_def)
  have ts: "tslot h' = tslot h"
    using fresh by (auto simp: tslot_def h'_def fun_eq_iff split: option.splits)
  have su: "subt h' = (subt h)(q \<mapsto> t)"
    by (auto simp: subt_def h'_def fun_eq_iff)
  have nos: "\<forall>i. tslot h t i = None" using fresh by (auto simp: tslot_def split: option.splits)
  have noq: "subt h q = None" using q None by (simp add: subt_def)
  have old: "subt h p \<noteq> Some t" for p
    using wf fresh unfolding pt_wf_def by blast
  have rt: "t \<noteq> r" using wf fresh unfolding pt_wf_def by blast
  have wf': "pt_wf h' r"
    unfolding pt_wf_def
  proof (intro conjI)
    show "libc_ok (libc (km h'))" "0 \<le> bytes_malloced (km h')"
      using wf k by (auto simp: pt_wf_def h'_def)
    show "dom (pte_mem h') \<union> dom (pt_mem h') \<subseteq> handed_out (km h')" "r \<in> dom (pt_mem h')"
      using wf t q by (auto simp: pt_wf_def h'_def)
    show "\<forall>u j p. tslot h' u j = Some p \<longrightarrow> j < ptes_count \<and> p \<in> dom (pte_mem h')"
      using wf unfolding ts pt_wf_def by (auto simp: h'_def)
    show "\<forall>p u. subt h' p = Some u \<longrightarrow> u \<in> dom (pt_mem h') \<and> u \<noteq> r"
      using wf rt unfolding su pt_wf_def by (auto simp: h'_def)
    show "\<forall>u j u' j' p. tslot h' u j = Some p \<and> tslot h' u' j' = Some p \<longrightarrow> u = u' \<and> j = j'"
      using wf unfolding ts pt_wf_def by blast
    show "\<forall>p p' u. subt h' p = Some u \<and> subt h' p' = Some u \<longrightarrow> p = p'"
    proof (intro allI impI, elim conjE)
      fix p p' u assume "subt h' p = Some u" "subt h' p' = Some u"
      then consider "p = q \<and> p' = q" | "subt h p = Some u \<and> subt h p' = Some u"
        using old [of p] old [of p'] unfolding su by (auto split: if_splits)
      then show "p = p'" using wf unfolding pt_wf_def by cases blast+
    qed
  qed
  have "pt_ext {} {q} 32776 h h' r"
    unfolding pt_ext_def pte_at_new_table [OF su ts nos noq]
    using wf' k by (auto simp: h'_def)
  then show thesis
    using that [of h' "e\<lparr>page_table := Some t\<rparr>" t] en su by (auto simp: h'_def)
qed

section \<open>Allocation of an entry\<close>

definition pt_alloc_bytes :: int where
  "pt_alloc_bytes = 3 * 32 + 2 * 32776"

lemma pte_at_path2: "pte_at h r [i] = Some p \<Longrightarrow> subt h p = Some t \<Longrightarrow> pte_at h r [i, j] = tslot h t j"
  by simp

lemma pte_at_path3:
  "pte_at h r [i, j] = Some p \<Longrightarrow> subt h p = Some t \<Longrightarrow> pte_at h r [i, j, k] = tslot h t k"
  using pte_at_snoc [of h r "[i, j]" k] by (simp del: pte_at.simps)

text \<open>
  Within the quota, allocation succeeds for every 48-bit address: it returns the entry of
  the address's page, keeps all other pages' entries and the bits of the existing ones,
  and a new entry is the initial one.
\<close>

lemma PageTableAllocate_spec:
  assumes wf: "pt_wf h r" and va: "unat va < 2 ^ 48"
    and quota: "bytes_malloced (km h) + pt_alloc_bytes \<le> 2 ^ 31"
  obtains p h' where "CSC369_PageTableAllocate (Some r) va h = Inr (Some p, h')" "pt_wf h' r"
    "pte_at h' r (page_path va) = Some p"
    "\<forall>xs. length xs = 3 \<and> xs \<noteq> page_path va \<longrightarrow> pte_at h' r xs = pte_at h r xs"
    "pte_at h r (page_path va) \<noteq> None \<longrightarrow> pte_at h r (page_path va) = Some p"
    "\<forall>xs q. length xs = 3 \<and> pte_at h r xs = Some q \<longrightarrow> pte_mem h' q = pte_mem h q"
    "pte_at h r (page_path va) = None \<longrightarrow> pte_mem h' p = Some init_pte"
    "bytes_malloced (km h') \<le> bytes_malloced (km h) + pt_alloc_bytes"
proof -
  define i1 i2 i3 where "i1 = unat va div 2 ^ 36" and "i2 = (unat va div 2 ^ 24) mod 2 ^ 12"
    and "i3 = (unat va div 2 ^ 12) mod 2 ^ 12"
  have path: "page_path va = [i1, i2, i3]" by (simp add: page_path_def i1_def i2_def i3_def)
  have b: "i1 < ptes_count" "i2 < ptes_count" "i3 < ptes_count"
    using page_path_bounds [OF va] by (simp_all add: path)
  note q = quota [unfolded pt_alloc_bytes_def]
  have r: "r \<in> dom (pt_mem h)" using wf by (simp add: pt_wf_def)
  obtain h1 p1 where s1: "ensure_pte (Some r) i1 h = Inr h1" "tslot h1 r i1 = Some p1"
    "pt_ext (if tslot h r i1 = None then {p1} else {}) {} 32 h h1 r"
    by (rule ensure_pte_ext [OF wf r b(1)]) (use q in auto)
  have wf1: "pt_wf h1 r" and r1: "r \<in> dom (pt_mem h1)" using s1(3) by (auto simp: pt_ext_def pt_wf_def)
  have "pte_at h1 r [i1] = Some p1" using s1(2) by simp
  then obtain e1 where e1: "pte_mem h1 p1 = Some e1" using pte_at_dom [OF wf1] by blast
  have m1: "bytes_malloced (km h1) \<le> bytes_malloced (km h) + 32" using s1(3) by (simp add: pt_ext_def)
  obtain h2 t2 e1' where s2: "ensure_table (Some p1) h1 = Inr h2" "pte_mem h2 p1 = Some e1'"
    "page_table e1' = Some t2" "t2 \<in> dom (pt_mem h2)" "subt h2 p1 = Some t2"
    "pt_ext {} {p1} 32776 h1 h2 r"
    by (rule ensure_table_ext [OF wf1 e1]) (use m1 q in auto)
  note x2 = pt_ext_trans [OF s1(3) s2(6), simplified]
  have wf2: "pt_wf h2 r" and m2: "bytes_malloced (km h2) \<le> bytes_malloced (km h) + 32808"
    using x2 by (auto simp: pt_ext_def)
  obtain h3 p2 where s3: "ensure_pte (Some t2) i2 h2 = Inr h3" "tslot h3 t2 i2 = Some p2"
    "pt_ext (if tslot h2 t2 i2 = None then {p2} else {}) {} 32 h2 h3 r"
    by (rule ensure_pte_ext [OF wf2 s2(4) b(2)]) (use m2 q in auto)
  note x3 = pt_ext_trans [OF x2 s3(3), simplified]
  have wf3: "pt_wf h3 r" and m3: "bytes_malloced (km h3) \<le> bytes_malloced (km h) + 32840"
    and t23: "t2 \<in> dom (pt_mem h3)" using x3 s3(3) s2(4) by (auto simp: pt_ext_def)
  have at1: "pte_at h1 r [i1] = Some p1" using s1(2) by simp
  then have at2: "pte_at h2 r [i1] = Some p1" using s2(6) unfolding pt_ext_def by blast
  then have at3: "pte_at h3 r [i1] = Some p1" using s3(3) unfolding pt_ext_def by blast
  have "p1 \<in> dom (pte_mem h2) - {}" using s2(2) by auto
  then have "pte_mem h3 p1 = pte_mem h2 p1" using s3(3) unfolding pt_ext_def by blast
  then have sub3: "subt h3 p1 = Some t2" using s2(2,3) by (simp add: subt_def)
  then have at32: "pte_at h3 r [i1, i2] = Some p2" using at3 s3(2) by (simp add: pte_at_path2)
  then obtain e2 where e2: "pte_mem h3 p2 = Some e2" using pte_at_dom [OF wf3] by blast
  obtain h4 t3 e2' where s4: "ensure_table (Some p2) h3 = Inr h4" "pte_mem h4 p2 = Some e2'"
    "page_table e2' = Some t3" "t3 \<in> dom (pt_mem h4)" "subt h4 p2 = Some t3"
    "pt_ext {} {p2} 32776 h3 h4 r"
    by (rule ensure_table_ext [OF wf3 e2]) (use m3 q in auto)
  note x4 = pt_ext_trans [OF x3 s4(6), simplified]
  have wf4: "pt_wf h4 r" and m4: "bytes_malloced (km h4) \<le> bytes_malloced (km h) + 65616"
    using x4 by (auto simp: pt_ext_def)
  obtain h5 p3 where s5: "ensure_pte (Some t3) i3 h4 = Inr h5" "tslot h5 t3 i3 = Some p3"
    "pt_ext (if tslot h4 t3 i3 = None then {p3} else {}) {} 32 h4 h5 r"
    "tslot h4 t3 i3 = None \<longrightarrow> pte_mem h5 p3 = Some init_pte"
    by (rule ensure_pte_ext [OF wf4 s4(4) b(3)]) (use m4 q in auto)
  note x5 = pt_ext_trans [OF x4 s5(3), simplified]
  have wf5: "pt_wf h5 r" and m5: "bytes_malloced (km h5) \<le> bytes_malloced (km h) + 65648"
    and t35: "t3 \<in> dom (pt_mem h5)" using x5 s5(3) s4(4) by (auto simp: pt_ext_def)
  have at41: "pte_at h4 r [i1] = Some p1" and at42: "pte_at h4 r [i1, i2] = Some p2"
    using s4(6) at3 at32 unfolding pt_ext_def by blast+
  then have at51: "pte_at h5 r [i1] = Some p1" and at52: "pte_at h5 r [i1, i2] = Some p2"
    using s5(3) unfolding pt_ext_def by blast+
  have "p2 \<in> dom (pte_mem h4) - {}" using s4(2) by auto
  then have "pte_mem h5 p2 = pte_mem h4 p2" using s5(3) unfolding pt_ext_def by blast
  then have sub5: "subt h5 p2 = Some t3" using s4(2,3) by (simp add: subt_def)
  then have at53: "pte_at h5 r [i1, i2, i3] = Some p3" using at52 s5(2) by (simp only: pte_at_path3)
  have at43: "pte_at h4 r [i1, i2, i3] = tslot h4 t3 i3" using at42 s4(5) by (simp only: pte_at_path3)
  have neq: "q \<noteq> p1 \<and> q \<noteq> p2" if "length xs = 3" "pte_at h5 r xs = Some q" for xs q
    using that pte_at_inj [OF wf5, of xs q "[i1]"] pte_at_inj [OF wf5, of xs q "[i1, i2]"] at51 at52
    by auto
  have neq4: "q \<noteq> p1 \<and> q \<noteq> p2" if "length xs = 3" "pte_at h4 r xs = Some q" for xs q
    using that pte_at_inj [OF wf4, of xs q "[i1]"] pte_at_inj [OF wf4, of xs q "[i1, i2]"] at41 at42
    by auto
  have mono: "pte_at h5 r xs = Some q" if "pte_at h r xs = Some q" for xs q
    using x5 that unfolding pt_ext_def by blast
  have new: "pte_at h r xs = Some q \<or> q \<in> {p1, p2, p3}" if "pte_at h5 r xs = Some q" for xs q
    using pt_ext_new [OF x5 that] by (auto split: if_splits)
  have new4: "pte_at h r xs = Some q \<or> q \<in> {p1, p2}" if "pte_at h4 r xs = Some q" for xs q
    using pt_ext_new [OF x4 that] by (auto split: if_splits)
  have sl: "pt_slot (Some r) i1 h1 = Inr (Some p1)" "pt_slot (Some t2) i2 h3 = Inr (Some p2)"
    "pt_slot (Some t3) i3 h5 = Inr (Some p3)"
    using s1(2) s3(2) s5(2) pt_slot_eq [OF r1 b(1)] pt_slot_eq [OF t23 b(2)] pt_slot_eq [OF t35 b(3)]
    by simp_all
  have rd: "pte_read (Some p1) h2 = Inr e1'" "pte_read (Some p2) h4 = Inr e2'"
    using s2(2) s4(2) by simp_all
  show thesis
  proof (rule that [of p3 h5])
    show "CSC369_PageTableAllocate (Some r) va h = Inr (Some p3, h5)"
      unfolding CSC369_PageTableAllocate_def Let_def i1_def [symmetric] i2_def [symmetric] i3_def [symmetric]
      by (simp only: s1(1) s2(1,3) s3(1) s4(1,3) s5(1) sl rd bindR_simps prod.case assertR_simps
        option.distinct not_False_eq_True)
    show "pt_wf h5 r" by (rule wf5)
    show "pte_at h5 r (page_path va) = Some p3" unfolding path by (rule at53)
    show "\<forall>xs. length xs = 3 \<and> xs \<noteq> page_path va \<longrightarrow> pte_at h5 r xs = pte_at h r xs"
    proof (intro allI impI, elim conjE)
      fix xs assume xs: "length xs = 3" "xs \<noteq> page_path va"
      show "pte_at h5 r xs = pte_at h r xs"
      proof (cases "pte_at h5 r xs")
        case None
        then show ?thesis using mono [of xs] by (cases "pte_at h r xs") auto
      next
        case (Some q)
        then have "q \<noteq> p3" using pte_at_inj [OF wf5 _ at53, of xs] xs path by auto
        with Some new neq xs(1) show ?thesis by fastforce
      qed
    qed
    show "pte_at h r (page_path va) \<noteq> None \<longrightarrow> pte_at h r (page_path va) = Some p3"
      using mono at53 path by fastforce
    show "\<forall>xs q. length xs = 3 \<and> pte_at h r xs = Some q \<longrightarrow> pte_mem h5 q = pte_mem h q"
    proof (intro allI impI, elim conjE)
      fix xs q assume xs: "length xs = 3" "pte_at h r xs = Some q"
      then have "q \<in> dom (pte_mem h)" "q \<noteq> p1 \<and> q \<noteq> p2"
        using pte_at_dom [OF wf] mono neq by blast+
      then show "pte_mem h5 q = pte_mem h q" using x5 unfolding pt_ext_def by simp
    qed
    show "pte_at h r (page_path va) = None \<longrightarrow> pte_mem h5 p3 = Some init_pte"
    proof
      assume none: "pte_at h r (page_path va) = None"
      have "tslot h4 t3 i3 = None"
      proof (cases "tslot h4 t3 i3")
        case (Some q)
        with at43 new4 [of "[i1, i2, i3]" q] neq4 [of "[i1, i2, i3]" q] none path show ?thesis by auto
      qed
      then show "pte_mem h5 p3 = Some init_pte" using s5(4) by simp
    qed
    show "bytes_malloced (km h5) \<le> bytes_malloced (km h) + pt_alloc_bytes"
      using m5 by (simp add: pt_alloc_bytes_def)
  qed
qed

text \<open>An entry that exists is found without any allocation.\<close>

lemma PageTableAllocate_hit:
  assumes wf: "pt_wf h r" and at: "pte_at h r (page_path va) = Some p"
  shows "CSC369_PageTableAllocate (Some r) va h = Inr (Some p, h)"
proof -
  let ?i1 = "unat va div 2 ^ 36" and ?i2 = "(unat va div 2 ^ 24) mod 2 ^ 12"
    and ?i3 = "(unat va div 2 ^ 12) mod 2 ^ 12"
  from at obtain p1 t1 p2 t2 where a: "tslot h r ?i1 = Some p1" "subt h p1 = Some t1"
    "tslot h t1 ?i2 = Some p2" "subt h p2 = Some t2" "tslot h t2 ?i3 = Some p"
    by (auto simp: page_path_def split: option.splits)
  have slot: "pt_slot (Some t) i h = Inr (Some q)" if "tslot h t i = Some q" for t i q
  proof -
    have "i < ptes_count" using wf that unfolding pt_wf_def by blast
    moreover have "t \<in> dom (pt_mem h)" using that by (auto simp: tslot_def split: option.splits)
    ultimately show ?thesis using that by (simp only: pt_slot_eq)
  qed
  obtain e1 e2 where e: "pte_mem h p1 = Some e1" "page_table e1 = Some t1"
    "pte_mem h p2 = Some e2" "page_table e2 = Some t2"
    using a(2,4) by (auto simp: subt_def split: option.splits)
  have en: "ensure_pte (Some t) i h = Inr h" if "tslot h t i = Some q" for t i q
    using slot [OF that] by (simp add: ensure_pte_def)
  have et: "ensure_table (Some p1) h = Inr h" "ensure_table (Some p2) h = Inr h"
    using e by (simp_all add: ensure_table_def)
  show ?thesis
    unfolding CSC369_PageTableAllocate_def Let_def
    using e by (simp only: en [OF a(1)] en [OF a(3)] en [OF a(5)] et slot [OF a(1)] slot [OF a(3)]
      slot [OF a(5)] bindR_simps assertR_simps pte_read_Some option.distinct not_False_eq_True)
qed

text \<open>Changing the contents of entries, but not their tables, keeps the tree.\<close>

definition same_tree :: "pt_heap \<Rightarrow> pt_heap \<Rightarrow> bool" where
  "same_tree h h' \<longleftrightarrow> km h' = km h \<and> pt_mem h' = pt_mem h \<and> dom (pte_mem h') = dom (pte_mem h) \<and>
     subt h' = subt h"

lemma same_tree_tslot: "same_tree h h' \<Longrightarrow> tslot h' = tslot h"
  by (simp add: same_tree_def tslot_def fun_eq_iff)

lemma same_tree_at:
  assumes s: "same_tree h h'"
  shows "pte_at h' t xs = pte_at h t xs"
proof (induction xs arbitrary: t rule: rev_induct)
  case (snoc i xs)
  have "subt h' = subt h" using s by (simp add: same_tree_def)
  then show ?case by (simp only: pte_at_snoc snoc.IH same_tree_tslot [OF s])
qed simp

lemma same_tree_wf: "same_tree h h' \<Longrightarrow> pt_wf h r \<Longrightarrow> pt_wf h' r"
  using same_tree_tslot [of h h'] by (simp add: same_tree_def pt_wf_def)

lemma same_tree_upd:
  "pte_mem h p = Some e \<Longrightarrow> page_table e' = page_table e \<Longrightarrow>
   same_tree h (h\<lparr>pte_mem := (pte_mem h)(p \<mapsto> e')\<rparr>)"
  by (auto simp: same_tree_def subt_def fun_eq_iff)

section \<open>Search\<close>

text \<open>The walk of \<open>CSC369_PageTableSearch\<close> as far as the last level, whose index is the bug below.\<close>

lemma slot_Some:
  assumes "pt_wf h r" "tslot h t i = Some q"
  shows "pt_slot (Some t) i h = Inr (Some q)" "\<exists>e. pte_mem h q = Some e"
proof -
  have "i < ptes_count" "q \<in> dom (pte_mem h)" using assms unfolding pt_wf_def by blast+
  moreover have "t \<in> dom (pt_mem h)" using assms(2) by (auto simp: tslot_def split: option.splits)
  ultimately show "pt_slot (Some t) i h = Inr (Some q)" "\<exists>e. pte_mem h q = Some e"
    using assms(2) by (auto simp del: ptes_count_eq)
qed

lemma search_step:
  assumes wf: "pt_wf h r" and t: "t \<in> dom (pt_mem h)" and i: "i < ptes_count"
  shows "bindR (pt_slot (Some t) i h) (\<lambda>p. if p = None then Inr None else
      bindR (pte_read p h) (\<lambda>e. if page_table e = None then Inr None else f (page_table e))) =
    (case tslot h t i of None \<Rightarrow> Inr None | Some p \<Rightarrow>
      (case subt h p of None \<Rightarrow> Inr None | Some t' \<Rightarrow> f (Some t')))"
proof (cases "tslot h t i")
  case None
  then show ?thesis using t i by (simp del: ptes_count_eq)
next
  case (Some p)
  then obtain e where "pte_mem h p = Some e" using slot_Some(2) [OF wf] by blast
  then show ?thesis using Some t i by (cases "page_table e") (simp_all add: subt_def del: ptes_count_eq)
qed

lemma PageTableSearch_walk:
  assumes wf: "pt_wf h r" and va: "unat va < 2 ^ 48"
  shows "CSC369_PageTableSearch (Some r) va h =
    (case tslot h r (unat va div 2 ^ 36) of None \<Rightarrow> Inr None | Some p1 \<Rightarrow>
      (case subt h p1 of None \<Rightarrow> Inr None | Some t1 \<Rightarrow>
        (case tslot h t1 ((unat va div 2 ^ 24) mod 2 ^ 12) of None \<Rightarrow> Inr None | Some p2 \<Rightarrow>
          (case subt h p2 of None \<Rightarrow> Inr None | Some t2 \<Rightarrow>
            pt_slot (Some t2) ((unat va div 2 ^ 12) mod 2 ^ 24) h))))"
proof -
  define i1 i2 i3 where "i1 = unat va div 2 ^ 36" and "i2 = (unat va div 2 ^ 24) mod 2 ^ 12"
    and "i3 = (unat va div 2 ^ 12) mod 2 ^ 24"
  have b: "i1 < ptes_count" "i2 < ptes_count"
    using va by (simp_all add: less_mult_imp_div_less i1_def i2_def)
  have r: "r \<in> dom (pt_mem h)" using wf by (simp add: pt_wf_def)
  have t1: "t1 \<in> dom (pt_mem h)" if "subt h p1 = Some t1" for p1 t1
    using wf that unfolding pt_wf_def by blast
  let ?f2 = "\<lambda>t2. pt_slot t2 i3 h"
  let ?f1 = "\<lambda>t1. bindR (pt_slot t1 i2 h) (\<lambda>p. if p = None then Inr None else
    bindR (pte_read p h) (\<lambda>e. if page_table e = None then Inr None else ?f2 (page_table e)))"
  have s1: "CSC369_PageTableSearch (Some r) va h =
      (case tslot h r i1 of None \<Rightarrow> Inr None | Some p \<Rightarrow>
        (case subt h p of None \<Rightarrow> Inr None | Some t \<Rightarrow> ?f1 (Some t)))"
    unfolding CSC369_PageTableSearch_def i1_def [symmetric] i2_def [symmetric] i3_def [symmetric]
    using search_step [OF wf r b(1), of ?f1] by simp
  have s2: "?f1 (Some t) = (case tslot h t i2 of None \<Rightarrow> Inr None | Some p \<Rightarrow>
      (case subt h p of None \<Rightarrow> Inr None | Some t' \<Rightarrow> ?f2 (Some t')))" if "subt h q = Some t" for q t
    by (rule search_step [OF wf t1 [OF that] b(2)])
  show ?thesis
    unfolding s1 i1_def [symmetric] i2_def [symmetric] i3_def [symmetric]
  proof (cases "tslot h r i1")
    case (Some p)
    then show "(case tslot h r i1 of None \<Rightarrow> Inr None | Some p \<Rightarrow>
        (case subt h p of None \<Rightarrow> Inr None | Some t \<Rightarrow> ?f1 (Some t))) =
      (case tslot h r i1 of None \<Rightarrow> Inr None | Some p1 \<Rightarrow>
      (case subt h p1 of None \<Rightarrow> Inr None | Some t1 \<Rightarrow>
        (case tslot h t1 i2 of None \<Rightarrow> Inr None | Some p2 \<Rightarrow>
          (case subt h p2 of None \<Rightarrow> Inr None | Some t2 \<Rightarrow> ?f2 (Some t2)))))"
      using s2 [of p] by (cases "subt h p") (simp_all only: option.case)
  qed simp
qed

section \<open>Properties\<close>

definition empty_table :: pt_heap where
  "empty_table = \<lparr>km = (CSC369_MallocInit (\<lambda>n. Some n))\<lparr>libc_calls := 2\<rparr>, pte_mem = Map.empty,
     pt_mem = [0 \<mapsto> \<lparr>ptes_block = 1, ptes = (\<lambda>i. None)\<rparr>]\<rparr>"

lemma empty_table_wf: "pt_wf empty_table 0"
proof -
  have "tslot empty_table t i = None" "subt empty_table p = None" for t i p
    by (simp_all add: tslot_def subt_def empty_table_def)
  then show ?thesis
    unfolding pt_wf_def by (simp add: empty_table_def CSC369_MallocInit_def libc_ok_def handed_out_def)
qed

lemma empty_table_quota: "bytes_malloced (km empty_table) + pt_alloc_bytes \<le> 2 ^ 31"
  by (simp add: empty_table_def CSC369_MallocInit_def pt_alloc_bytes_def)

lemma empty_table_at: "pte_at empty_table 0 (page_path va) = None"
  by (simp add: page_path_def tslot_def empty_table_def)

text \<open>
  C20: allocation of the entry of a 48-bit address succeeds within the quota.  The table stays a
  tree, the address then has that entry, the entries of all other pages are what they were, a
  page that had no entry gets the initial one, and for a page that had one nothing changes.
\<close>

theorem page_table_allocate:
  assumes "pt_wf h r" "unat va < 2 ^ 48" "bytes_malloced (km h) + pt_alloc_bytes \<le> 2 ^ 31"
  shows "\<exists>p h'. CSC369_PageTableAllocate (Some r) va h = Inr (Some p, h') \<and> pt_wf h' r \<and>
    pte_at h' r (page_path va) = Some p \<and>
    (\<forall>vb. page_path vb \<noteq> page_path va \<longrightarrow> pte_at h' r (page_path vb) = pte_at h r (page_path vb)) \<and>
    (if pte_at h r (page_path va) = None then pte_mem h' p = Some init_pte else h' = h)"
proof (cases "pte_at h r (page_path va)")
  case (Some p)
  then show ?thesis using PageTableAllocate_hit [OF assms(1) Some] assms(1) by auto
next
  case None
  obtain p h' where "CSC369_PageTableAllocate (Some r) va h = Inr (Some p, h')" "pt_wf h' r"
    "pte_at h' r (page_path va) = Some p"
    "\<forall>xs. length xs = 3 \<and> xs \<noteq> page_path va \<longrightarrow> pte_at h' r xs = pte_at h r xs"
    "pte_at h r (page_path va) = None \<longrightarrow> pte_mem h' p = Some init_pte"
    using PageTableAllocate_spec [OF assms] by metis
  then show ?thesis using None by auto
qed

theorem page_table_allocate_witness:
  "\<exists>p h'. CSC369_PageTableAllocate (Some 0) 0x7fff1234567 empty_table = Inr (Some p, h') \<and>
     pte_at h' 0 (page_path 0x7fff1234567) = Some p \<and> pte_mem h' p = Some init_pte"
  using page_table_allocate [OF empty_table_wf _ empty_table_quota, of "0x7fff1234567"] empty_table_at by auto

text \<open>
  C21: two allocations, one after the other, give the same entry exactly when the two addresses
  are on the same page.
\<close>

theorem page_table_injective:
  assumes "pt_wf h r" "unat va < 2 ^ 48" "unat vb < 2 ^ 48"
    "bytes_malloced (km h) + 2 * pt_alloc_bytes \<le> 2 ^ 31"
  shows "\<exists>p q h1 h2. CSC369_PageTableAllocate (Some r) va h = Inr (Some p, h1) \<and>
     CSC369_PageTableAllocate (Some r) vb h1 = Inr (Some q, h2) \<and>
     (p = q \<longleftrightarrow> unat va div CSC369_PAGE_SIZE = unat vb div CSC369_PAGE_SIZE)"
proof -
  have "bytes_malloced (km h) + pt_alloc_bytes \<le> 2 ^ 31" using assms(4) by (simp add: pt_alloc_bytes_def)
  from PageTableAllocate_spec [OF assms(1,2) this] obtain p h1 where
    a: "CSC369_PageTableAllocate (Some r) va h = Inr (Some p, h1)" "pt_wf h1 r"
      "pte_at h1 r (page_path va) = Some p" "bytes_malloced (km h1) \<le> bytes_malloced (km h) + pt_alloc_bytes"
    by metis
  have "bytes_malloced (km h1) + pt_alloc_bytes \<le> 2 ^ 31" using assms(4) a(4) by simp
  from PageTableAllocate_spec [OF a(2) assms(3) this] obtain q h2 where
    b: "CSC369_PageTableAllocate (Some r) vb h1 = Inr (Some q, h2)" "pt_wf h2 r"
      "pte_at h2 r (page_path vb) = Some q"
      "\<forall>xs. length xs = 3 \<and> xs \<noteq> page_path vb \<longrightarrow> pte_at h2 r xs = pte_at h1 r xs"
      "pte_at h1 r (page_path vb) \<noteq> None \<longrightarrow> pte_at h1 r (page_path vb) = Some q"
    by metis
  have "p = q \<longleftrightarrow> page_path va = page_path vb"
  proof
    assume "page_path va = page_path vb"
    then show "p = q" using a(3) b(5) by simp
  next
    assume pq: "p = q"
    show "page_path va = page_path vb"
    proof (rule ccontr)
      assume n: "page_path va \<noteq> page_path vb"
      then have "pte_at h2 r (page_path va) = Some q" using a(3) b(4) pq by simp
      then show False using pte_at_inj [OF b(2) _ b(3)] n by blast
    qed
  qed
  then show ?thesis using a(1) b(1) page_path_page by auto
qed

theorem page_table_injective_witness:
  "\<exists>p q h1 h2. CSC369_PageTableAllocate (Some 0) 0x5001 empty_table = Inr (Some p, h1) \<and>
     CSC369_PageTableAllocate (Some 0) 0x7fff00005001 h1 = Inr (Some q, h2) \<and> p \<noteq> q"
proof -
  have "bytes_malloced (km empty_table) + 2 * pt_alloc_bytes \<le> 2 ^ 31"
    by (simp add: empty_table_def pt_alloc_bytes_def CSC369_MallocInit_def)
  then show ?thesis using page_table_injective [OF empty_table_wf, of "0x5001" "0x7fff00005001"] by auto
qed

text \<open>The last-level table on the way to the entry of an address.\<close>

definition last_table :: "pt_heap \<Rightarrow> addr \<Rightarrow> u64 \<Rightarrow> ptr" where
  "last_table h r va =
     (case tslot h r (unat va div 2 ^ 36) of None \<Rightarrow> None | Some p1 \<Rightarrow>
       (case subt h p1 of None \<Rightarrow> None | Some t1 \<Rightarrow>
         (case tslot h t1 ((unat va div 2 ^ 24) mod 2 ^ 12) of None \<Rightarrow> None | Some p2 \<Rightarrow> subt h p2)))"

lemma pte_at_last_table:
  "pte_at h r (page_path va) =
     (case last_table h r va of None \<Rightarrow> None | Some t \<Rightarrow> tslot h t ((unat va div 2 ^ 12) mod 2 ^ 12))"
  by (auto simp: last_table_def page_path_def split: option.splits)

lemma PageTableSearch_last:
  assumes wf: "pt_wf h r" and va: "unat va < 2 ^ 48"
  shows "CSC369_PageTableSearch (Some r) va h =
    (case last_table h r va of None \<Rightarrow> Inr None
     | Some t \<Rightarrow> if (unat va div 2 ^ 24) mod 2 ^ 12 = 0 then Inr (tslot h t ((unat va div 2 ^ 12) mod 2 ^ 12))
         else Inl OutOfBounds)"
proof -
  define i j k where "i = (unat va div 2 ^ 12) mod 2 ^ 12" and "j = (unat va div 2 ^ 24) mod 2 ^ 12"
    and "k = (unat va div 2 ^ 12) mod 2 ^ 24"
  have k: "k = i + 2 ^ 12 * j"
    using mod_mult2_eq [of "unat va div 2 ^ 12" "2 ^ 12" "2 ^ 12"] by (simp add: i_def j_def k_def div_mult2_eq [symmetric])
  have b: "i < ptes_count" "k < ptes_count \<longleftrightarrow> j = 0" by (auto simp: k i_def)
  have s: "pt_slot (Some t) k h = (if j = 0 then Inr (tslot h t i) else Inl OutOfBounds)"
    if "subt h p = Some t" for p t
  proof -
    have "t \<in> dom (pt_mem h)" using wf that unfolding pt_wf_def by blast
    then show ?thesis using b by (cases "j = 0") (auto simp: k pt_slot_def tslot_def simp del: ptes_count_eq)
  qed
  show ?thesis
    unfolding PageTableSearch_walk [OF wf va] last_table_def i_def [symmetric] j_def [symmetric] k_def [symmetric]
    by (simp add: s del: power_numeral split: option.split)
qed

lemma PageTableSearch_low:
  assumes "pt_wf h r" "unat va < 2 ^ 48" "(unat va div 2 ^ 24) mod 2 ^ 12 = 0"
  shows "CSC369_PageTableSearch (Some r) va h = Inr (pte_at h r (page_path va))"
  unfolding PageTableSearch_last [OF assms(1,2)] pte_at_last_table using assms(3) by (simp split: option.split)

text \<open>
  C34: what the search returns for every address of 48 bits.  It agrees with the table, mapped
  address or not, except when there is a last-level table for the address and its bits 24 to 35
  are not all zero: then it reads past the end of that table.
\<close>

theorem page_table_search:
  assumes wf: "pt_wf h r" and va: "unat va < 2 ^ 48"
  shows "CSC369_PageTableSearch (Some r) va h =
    (if last_table h r va \<noteq> None \<and> (unat va div 2 ^ 24) mod 2 ^ 12 \<noteq> 0 then Inl OutOfBounds
     else Inr (pte_at h r (page_path va)))"
  unfolding PageTableSearch_last [OF assms] pte_at_last_table by (auto split: option.splits)

theorem page_table_search_witness:
  "CSC369_PageTableSearch (Some 0) 0x5000 empty_table = Inr None"
  using page_table_search [OF empty_table_wf, of "0x5000"] empty_table_at by simp



text \<open>
  An address of more than 48 bits indexes past the root table: nothing checks it.
\<close>

lemma page_table_address_unchecked:
  assumes "pt_wf h r" "2 ^ 48 \<le> unat va"
  shows "CSC369_PageTableAllocate (Some r) va h = Inl OutOfBounds \<and> CSC369_PageTableSearch (Some r) va h = Inl OutOfBounds"
proof -
  have "2 ^ 48 div 2 ^ 36 \<le> unat va div 2 ^ 36" using assms(2) by (rule div_le_mono)
  then have "\<not> unat va div 2 ^ 36 < ptes_count" by simp
  moreover obtain pt where "pt_mem h r = Some pt" using assms(1) by (auto simp: pt_wf_def)
  ultimately have "pt_slot (Some r) (unat va div 2 ^ 36) h = Inl OutOfBounds"
    by (simp add: pt_slot_def del: ptes_count_eq)
  then show ?thesis
    by (simp add: CSC369_PageTableAllocate_def CSC369_PageTableSearch_def ensure_pte_def Let_def
        del: ptes_count_eq power_numeral)
qed

lemma page_table_address_unchecked_sample:
  "CSC369_PageTableAllocate (Some 0) 0x1000000000000 empty_table = Inl OutOfBounds"
  using page_table_address_unchecked [OF empty_table_wf, of "0x1000000000000"] by simp

section \<open>An exhausted quota\<close>

lemma malloc_over_quota:
  assumes "0 \<le> bytes_malloced k" "bytes_malloced k \<le> 2 ^ 31" "2 ^ 31 < bytes_malloced k + uint s" "s \<le> 2 ^ 31"
  shows "CSC369_malloc s k = (None, k)"
proof -
  have s: "uint s \<le> 2 ^ 31" using assms(4) by (simp add: word_le_def)
  have "uint (of_int (bytes_malloced k) + s) = (bytes_malloced k + uint s) mod 2 ^ 64"
    by (simp add: uint_word_ariths uint_word_of_int mod_simps)
  also have "\<dots> = bytes_malloced k + uint s" using assms(1,2) s by (intro mod_pos_pos_trivial) auto
  finally have "CSC369_KMALLOC_MAX < of_int (bytes_malloced k) + s"
    using assms(3) by (simp add: KMALLOC_MAX_eq word_less_alt)
  then show ?thesis by (simp add: CSC369_malloc_def)
qed

lemma PTECreate_over_quota:
  assumes "0 \<le> bytes_malloced (km h)" "bytes_malloced (km h) \<le> 2 ^ 31" "2 ^ 31 < bytes_malloced (km h) + 32"
  shows "CSC369_PTECreate h = (None, h)"
  using malloc_over_quota [of "km h" sizeof_pte] assms by (simp add: CSC369_PTECreate_def sizeof_pte_def)

text \<open>A table needs a block of its own for the entries, whether or not its struct still fits.\<close>

lemma PageTableCreate_over_quota:
  assumes "0 \<le> bytes_malloced (km h)" "bytes_malloced (km h) \<le> 2 ^ 31" "2 ^ 31 < bytes_malloced (km h) + 32"
  obtains k where "CSC369_PageTableCreate h = (None, h\<lparr>km := k\<rparr>)"
proof -
  obtain t k where m: "CSC369_malloc sizeof_page_table (km h) = (t, k)" by fastforce
  show thesis
  proof (cases t)
    case None
    then show thesis using that m by (simp add: CSC369_PageTableCreate_def)
  next
    case (Some a)
    then have le: "bytes_malloced (km h) + 8 \<le> 2 ^ 31"
      using m assms(1,2) malloc_over_quota [of "km h" sizeof_page_table]
      by (cases "2 ^ 31 < bytes_malloced (km h) + 8") (auto simp: sizeof_page_table_def)
    have "bytes_malloced k = bytes_malloced (km h) + 8"
      using m Some by (auto simp: CSC369_malloc_def sizeof_page_table_def libc_malloc_def Let_def split: option.splits if_splits)
    with le have "bytes_malloced k = bytes_malloced (km h) + 8" "bytes_malloced k \<le> 2 ^ 31" by simp_all
    then have "CSC369_malloc (8 * of_nat ptes_count) k = (None, k)"
      using assms by (intro malloc_over_quota) simp_all
    then show thesis using that m Some by (simp add: CSC369_PageTableCreate_def del: ptes_count_eq)
  qed
qed

lemma ensure_pte_over_quota:
  assumes "t \<in> dom (pt_mem h)" "i < ptes_count" "CSC369_PTECreate h = (None, h)"
  shows "ensure_pte (Some t) i h = Inr h"
proof -
  obtain pt where pt: "pt_mem h t = Some pt" using assms(1) by blast
  have "pt\<lparr>ptes := (ptes pt)(i := None)\<rparr> = pt" if "ptes pt i = None" using that by (simp add: fun_upd_idem)
  then have "h\<lparr>pt_mem := (pt_mem h)(t \<mapsto> pt\<lparr>ptes := (ptes pt)(i := None)\<rparr>)\<rparr> = h" if "ptes pt i = None"
    using that pt by (simp add: fun_upd_idem)
  then show ?thesis
    using pt assms(2,3) by (cases "ptes pt i") (simp_all add: ensure_pte_def pt_slot_def pt_slot_set_def del: ptes_count_eq)
qed

text \<open>One level of the allocation: what is missing stays missing, and is dereferenced.\<close>

lemma level_over_quota:
  assumes wf: "pt_wf h r" and t: "t \<in> dom (pt_mem h)" and i: "i < ptes_count"
    and quota: "bytes_malloced (km h) \<le> 2 ^ 31" "2 ^ 31 < bytes_malloced (km h) + 32"
    and f: "\<And>k. f None (h\<lparr>km := k\<rparr>) = Inl NullDeref"
  shows "bindR (ensure_pte (Some t) i h) (\<lambda>h. bindR (pt_slot (Some t) i h) (\<lambda>p.
      bindR (ensure_table p h) (\<lambda>h. bindR (pte_read p h) (\<lambda>e. f (page_table e) h)))) =
    (case tslot h t i of None \<Rightarrow> Inl NullDeref | Some p \<Rightarrow>
      (case subt h p of None \<Rightarrow> Inl NullDeref | Some t' \<Rightarrow> f (Some t') h))"
proof -
  have nn: "0 \<le> bytes_malloced (km h)" using wf by (simp add: pt_wf_def)
  note e = ensure_pte_over_quota [OF t i PTECreate_over_quota [OF nn quota]]
  show ?thesis
  proof (cases "tslot h t i")
    case None
    then show ?thesis using t i by (simp add: e ensure_table_def pte_read_def del: ptes_count_eq)
  next
    case (Some p)
    then obtain d where d: "pte_mem h p = Some d" using slot_Some(2) [OF wf] by blast
    obtain k where k: "CSC369_PageTableCreate h = (None, h\<lparr>km := k\<rparr>)"
      by (rule PageTableCreate_over_quota [OF nn quota])
    have "(pte_mem h)(p \<mapsto> d\<lparr>page_table := None\<rparr>) = pte_mem h" if "page_table d = None"
      using that d by (simp add: fun_upd_idem)
    then have "ensure_table (Some p) h = Inr (if page_table d = None then h\<lparr>km := k\<rparr> else h)"
      using d k by (simp add: ensure_table_def pte_write_def)
    then show ?thesis using Some t i d f by (cases "page_table d") (simp_all add: e subt_def del: ptes_count_eq)
  qed
qed

text \<open>
  With less than the size of an entry left under the quota, the allocation for a page without an
  entry dereferences a NULL that it has stored itself, or returns NULL when only the entry in
  the last table is missing.
\<close>

lemma PageTableAllocate_over_quota:
  assumes wf: "pt_wf h r" and va: "unat va < 2 ^ 48" and none: "pte_at h r (page_path va) = None"
    and quota: "bytes_malloced (km h) \<le> 2 ^ 31" "2 ^ 31 < bytes_malloced (km h) + 32"
  shows "CSC369_PageTableAllocate (Some r) va h =
    (if last_table h r va = None then Inl NullDeref else Inr (None, h))"
proof -
  define i1 i2 i3 where "i1 = unat va div 2 ^ 36" and "i2 = (unat va div 2 ^ 24) mod 2 ^ 12"
    and "i3 = (unat va div 2 ^ 12) mod 2 ^ 12"
  have b: "i1 < ptes_count" "i2 < ptes_count" "i3 < ptes_count"
    using va by (simp_all add: less_mult_imp_div_less i1_def i2_def i3_def)
  have nn: "0 \<le> bytes_malloced (km h)" using wf by (simp add: pt_wf_def)
  have r: "r \<in> dom (pt_mem h)" using wf by (simp add: pt_wf_def)
  have d: "t \<in> dom (pt_mem h)" if "subt h p = Some t" for p t
    using wf that unfolding pt_wf_def by blast
  define f3 where "f3 = (\<lambda>t h. bindR (ensure_pte t i3 h) (\<lambda>h. bindR (pt_slot t i3 h) (\<lambda>pte. Inr (pte, h))))"
  define f2 where "f2 = (\<lambda>t h. bindR (ensure_pte t i2 h) (\<lambda>h. bindR (pt_slot t i2 h) (\<lambda>p.
    bindR (ensure_table p h) (\<lambda>h. bindR (pte_read p h) (\<lambda>e. f3 (page_table e) h)))))"
  have f: "f2 None h' = Inl NullDeref" "f3 None h' = Inl NullDeref" for h'
    by (simp_all add: f2_def f3_def ensure_pte_def pt_slot_def)
  have 1: "CSC369_PageTableAllocate (Some r) va h = (case tslot h r i1 of None \<Rightarrow> Inl NullDeref | Some p \<Rightarrow>
      (case subt h p of None \<Rightarrow> Inl NullDeref | Some t' \<Rightarrow> f2 (Some t') h))"
    using level_over_quota [where f = f2, OF wf r b(1) quota f(1)]
    by (simp add: CSC369_PageTableAllocate_def Let_def f2_def f3_def i1_def [symmetric] i2_def [symmetric] i3_def [symmetric]
        del: power_numeral bindR_eq_Inr)
  have 2: "f2 (Some t) h = (case tslot h t i2 of None \<Rightarrow> Inl NullDeref | Some p \<Rightarrow>
      (case subt h p of None \<Rightarrow> Inl NullDeref | Some t' \<Rightarrow> f3 (Some t') h))" if "subt h q = Some t" for q t
    using level_over_quota [where f = f3, OF wf d [OF that] b(2) quota f(2)] by (simp only: f2_def)
  have 3: "f3 (Some t) h = Inr (tslot h t i3, h)" if "subt h q = Some t" for q t
    using ensure_pte_over_quota [OF d [OF that] b(3) PTECreate_over_quota [OF nn quota]] d [OF that] b(3)
    by (simp add: f3_def del: ptes_count_eq)
  show ?thesis
    using none unfolding 1 pte_at_last_table last_table_def i1_def [symmetric] i2_def [symmetric] i3_def [symmetric]
    by (auto simp: 2 3 split: option.splits)
qed

end
