(* ===== verification/Policy.thy ===== *)
theory Policy
  imports Coremap
begin

text \<open>
  \<open>csc369_policy.h\<close>: the interface of the replacement policies.  A policy is a record of
  functions, as in the code.  What the memory manager relies on is the locale
  \<open>replacement_policy\<close>: with every frame in use, \<open>evict\<close> returns a frame of the coremap and
  leaves its page unreferenced; \<open>on_ref\<close> of a frame in use succeeds; neither touches anything
  but the policy's own variables and the reference bits of resident pages.  The invariant
  \<open>inv U\<close> says that the policy tracks exactly the frames \<open>U\<close>: a frame leaves \<open>U\<close> when it is
  evicted and enters it when it is referenced.
\<close>

section \<open>The policy record\<close>

record CSC369_Policy =
  policy_name :: string
  CSC369_PolicyInit :: "machine \<Rightarrow> machine"
  CSC369_PolicyCleanup :: "machine \<Rightarrow> machine"
  CSC369_PolicyOnRef :: "nat \<Rightarrow> machine \<Rightarrow> machine res"
  CSC369_PolicyEvict :: "machine \<Rightarrow> (u64 \<times> machine) res"

section \<open>Frames in use and their reference bits\<close>

definition used :: "machine \<Rightarrow> nat set" where
  "used m = {i. i < memsize m \<and> \<not> free (frames m ! i)}"

definition frames_ok :: "machine \<Rightarrow> bool" where
  "frames_ok m \<longleftrightarrow> length (frames m) = memsize m \<and> frame_count m = memsize m \<and>
     (\<forall>i \<in> used m. \<exists>p e. pte (frames m ! i) = Some p \<and> pte_mem (heap m) p = Some e \<and>
        unat (frame_number e) = i)"

definition frame_ref :: "machine \<Rightarrow> nat \<Rightarrow> bool" where
  "frame_ref m i = (case pte (frames m ! i) of
      None \<Rightarrow> False
    | Some p \<Rightarrow> (case pte_mem (heap m) p of None \<Rightarrow> False | Some e \<Rightarrow> reference e))"

text \<open>The reference bits of the pages in the frames \<open>S\<close> set to \<open>b\<close>.\<close>

definition frame_ptes :: "machine \<Rightarrow> nat set \<Rightarrow> addr set" where
  "frame_ptes m S = {a. \<exists>i \<in> S. pte (frames m ! i) = Some a}"

definition refs_map :: "bool \<Rightarrow> addr set \<Rightarrow> (addr \<rightharpoonup> csc369_pte) \<Rightarrow> (addr \<rightharpoonup> csc369_pte)" where
  "refs_map b A pm = (\<lambda>a. map_option (\<lambda>e. if a \<in> A then e\<lparr>reference := b\<rparr> else e) (pm a))"

definition set_refs :: "bool \<Rightarrow> nat set \<Rightarrow> machine \<Rightarrow> machine" where
  "set_refs b S m =
     m\<lparr>heap := (heap m)\<lparr>pte_mem := refs_map b (frame_ptes m S) (pte_mem (heap m))\<rparr>\<rparr>"

text \<open>What a policy may change.\<close>

definition ref_change :: "machine \<Rightarrow> (addr \<rightharpoonup> csc369_pte) \<Rightarrow> bool" where
  "ref_change m pm \<longleftrightarrow> (\<forall>a. pm a = pte_mem (heap m) a \<or>
     (\<exists>i \<in> used m. pte (frames m ! i) = Some a \<and>
        (\<exists>e b. pte_mem (heap m) a = Some e \<and> pm a = Some (e\<lparr>reference := b\<rparr>))))"

definition core_eq :: "machine \<Rightarrow> machine \<Rightarrow> bool" where
  "core_eq m m' \<longleftrightarrow> km (heap m') = km (heap m) \<and> pt_mem (heap m') = pt_mem (heap m) \<and>
     mm_root m' = mm_root m \<and> frames m' = frames m \<and> frame_count m' = frame_count m \<and>
     mswap m' = mswap m \<and> physmem m' = physmem m \<and> stats m' = stats m \<and>
     memsize m' = memsize m \<and> rnd m' = rnd m \<and> ref_change m (pte_mem (heap m'))"

definition policy_same :: "machine \<Rightarrow> machine \<Rightarrow> bool" where
  "policy_same m m' \<longleftrightarrow> links m' = links m \<and> clock_list m' = clock_list m \<and>
     clock_hand m' = clock_hand m \<and> rr_next m' = rr_next m \<and> memsize m' = memsize m \<and>
     rnd m' = rnd m \<and> rnd_calls m' = rnd_calls m"

definition policy_fresh :: "machine \<Rightarrow> bool" where
  "policy_fresh m \<longleftrightarrow> (\<forall>i. links m (Frame_Entry i) = unlinked) \<and> clock_list m = None \<and> rr_next m = 0 \<and> rnd_calls m = 0"

section \<open>The contract\<close>

locale replacement_policy =
  fixes init :: "machine \<Rightarrow> machine"
    and on_ref :: "nat \<Rightarrow> machine \<Rightarrow> machine res"
    and evict :: "machine \<Rightarrow> (u64 \<times> machine) res"
    and inv :: "nat set \<Rightarrow> machine \<Rightarrow> bool"
  assumes init_ok:
    "policy_fresh m \<Longrightarrow> 0 < memsize m \<Longrightarrow> core_eq m (init m) \<and> inv {} (init m)"
  assumes evict_ok:
    "frames_ok m \<Longrightarrow> 0 < memsize m \<Longrightarrow> memsize m \<le> 2 ^ 28 \<Longrightarrow> used m = {..<memsize m} \<Longrightarrow>
     inv {..<memsize m} m \<Longrightarrow>
     \<exists>v m'. evict m = Inr (v, m') \<and> unat v < memsize m \<and> core_eq m m' \<and>
       inv ({..<memsize m} - {unat v}) m' \<and> \<not> frame_ref m' (unat v)"
  assumes on_ref_ok:
    "frames_ok m \<Longrightarrow> f \<in> used m \<Longrightarrow> U \<subseteq> used m \<Longrightarrow> f \<in> U \<or> \<not> frame_ref m f \<Longrightarrow> inv U m \<Longrightarrow>
     \<exists>m'. on_ref f m = Inr m' \<and> core_eq m m' \<and> inv (insert f U) m'"
  assumes inv_cong:
    "inv U m \<Longrightarrow> policy_same m m' \<Longrightarrow> (\<And>i. i \<in> U \<Longrightarrow> frame_ref m' i = frame_ref m i) \<Longrightarrow> inv U m'"

section \<open>Lemmas on reference bits\<close>

lemma refs_map_simps [simp]:
  "refs_map b {} pm = pm"
  "refs_map b A (refs_map b B pm) = refs_map b (A \<union> B) pm"
  "pm a = Some e \<Longrightarrow> refs_map b A pm a = Some (if a \<in> A then e\<lparr>reference := b\<rparr> else e)"
  "refs_map b A pm a = None \<longleftrightarrow> pm a = None"
  by (auto simp: refs_map_def option.map_ident fun_eq_iff option.map_comp comp_def intro!: option.map_cong)

lemma frame_ptes_simps [simp]:
  "frame_ptes m {} = {}"
  "frame_ptes m (S \<union> T) = frame_ptes m S \<union> frame_ptes m T"
  by (auto simp: frame_ptes_def)

lemma set_refs_simps [simp]:
  "frames (set_refs b S m) = frames m" "links (set_refs b S m) = links m"
  "clock_list (set_refs b S m) = clock_list m" "clock_hand (set_refs b S m) = clock_hand m"
  "rr_next (set_refs b S m) = rr_next m" "memsize (set_refs b S m) = memsize m"
  "frame_count (set_refs b S m) = frame_count m" "used (set_refs b S m) = used m"
  "frame_ptes (set_refs b S m) T = frame_ptes m T"
  by (simp_all add: set_refs_def used_def frame_ptes_def)

lemma frames_ok_pte:
  assumes "frames_ok m" "i \<in> used m"
  obtains p e where "pte (frames m ! i) = Some p" "pte_mem (heap m) p = Some e"
    "unat (frame_number e) = i" "i < length (frames m)"
  using assms by (force simp: frames_ok_def used_def)

lemma frames_ok_set_refs: "frames_ok m \<Longrightarrow> frames_ok (set_refs b S m)"
proof -
  assume ok: "frames_ok m"
  show ?thesis
    unfolding frames_ok_def set_refs_simps
  proof (intro conjI ballI)
    fix i assume "i \<in> used m"
    then obtain p e where "pte (frames m ! i) = Some p" "pte_mem (heap m) p = Some e" "unat (frame_number e) = i"
      using ok frames_ok_pte by blast
    then show "\<exists>p e. pte (frames m ! i) = Some p \<and> pte_mem (heap (set_refs b S m)) p = Some e \<and>
        unat (frame_number e) = i"
      by (simp add: set_refs_def)
  qed (use ok in \<open>simp_all add: frames_ok_def\<close>)
qed

lemma frames_ok_inj:
  assumes "frames_ok m" "i \<in> used m" "j \<in> used m" "pte (frames m ! i) = pte (frames m ! j)"
  shows "i = j"
proof -
  obtain p e where "pte (frames m ! i) = Some p" "pte_mem (heap m) p = Some e" "unat (frame_number e) = i"
    using assms(1,2) by (rule frames_ok_pte)
  moreover obtain q d where "pte (frames m ! j) = Some q" "pte_mem (heap m) q = Some d" "unat (frame_number d) = j"
    using assms(1,3) by (rule frames_ok_pte)
  ultimately show ?thesis using assms(4) by simp
qed

lemma frame_ref_set_refs:
  assumes "frames_ok m" "i \<in> used m" "S \<subseteq> used m"
  shows "frame_ref (set_refs b S m) i = (if i \<in> S then b else frame_ref m i)"
proof -
  obtain p e where i: "pte (frames m ! i) = Some p" "pte_mem (heap m) p = Some e"
    using assms(1,2) by (rule frames_ok_pte)
  have "p \<in> frame_ptes m S \<longleftrightarrow> i \<in> S"
  proof
    assume "p \<in> frame_ptes m S"
    then obtain j where j: "j \<in> S" "pte (frames m ! j) = Some p" by (auto simp: frame_ptes_def)
    then have "i = j" using frames_ok_inj [OF assms(1,2), of j] assms(3) i(1) by auto
    with j show "i \<in> S" by simp
  qed (use i(1) in \<open>auto simp: frame_ptes_def\<close>)
  then show ?thesis using i by (simp add: frame_ref_def set_refs_def)
qed

lemma set_refs_empty [simp]: "set_refs b {} m = m"
  by (simp add: set_refs_def)

lemma set_refs_Un: "set_refs b S (set_refs b T m) = set_refs b (S \<union> T) m"
proof -
  have "frame_ptes (set_refs b T m) S = frame_ptes m S" by simp
  then show ?thesis by (simp add: set_refs_def)
qed

lemma SetReferenced_frame:
  assumes "frames_ok m" "i \<in> used m"
  shows "with_heap (CSC369_PTESetReferenced (pte (frames m ! i)) b) m = Inr (set_refs b {i} m)"
proof -
  obtain p e where p: "pte (frames m ! i) = Some p" "pte_mem (heap m) p = Some e"
    using assms by (rule frames_ok_pte)
  then have "refs_map b (frame_ptes m {i}) (pte_mem (heap m)) = (pte_mem (heap m))(p \<mapsto> e\<lparr>reference := b\<rparr>)"
    by (auto simp: refs_map_def frame_ptes_def fun_eq_iff option.map_ident)
  with p show ?thesis
    by (simp add: with_heap_def CSC369_PTESetReferenced_def set_refs_def)
qed

lemma IsReferenced_frame:
  assumes "frames_ok m" "i \<in> used m"
  shows "CSC369_PTEIsReferenced (pte (frames m ! i)) (heap m) = Inr (frame_ref m i)"
proof -
  obtain p e where "pte (frames m ! i) = Some p" "pte_mem (heap m) p = Some e"
    using assms by (rule frames_ok_pte)
  then show ?thesis by (simp add: CSC369_PTEIsReferenced_def frame_ref_def)
qed

lemma GetFrameNumber_frame:
  assumes "frames_ok m" "i \<in> used m"
  obtains v where "CSC369_PTEGetFrameNumber (pte (frames m ! i)) (heap m) = Inr v" "unat v = i"
proof -
  obtain p e where "pte (frames m ! i) = Some p" "pte_mem (heap m) p = Some e" "unat (frame_number e) = i"
    using assms by (rule frames_ok_pte)
  then show thesis using that by (simp add: CSC369_PTEGetFrameNumber_def)
qed

section \<open>Lemmas on what a policy may change\<close>

lemma core_eq_refl [simp]: "core_eq m m"
  by (simp add: core_eq_def ref_change_def)

lemma core_eq_frames: "core_eq m m1 \<Longrightarrow> frames m1 = frames m"
  by (simp add: core_eq_def)

lemma ref_change_refs:
  assumes "ref_change m pm" "S \<subseteq> used m"
  shows "ref_change m (refs_map b (frame_ptes m S) pm)"
  unfolding ref_change_def
proof
  fix a
  let ?pm = "refs_map b (frame_ptes m S) pm"
  from assms(1) consider "pm a = pte_mem (heap m) a"
    | i e c where "i \<in> used m" "pte (frames m ! i) = Some a" "pte_mem (heap m) a = Some e"
        "pm a = Some (e\<lparr>reference := c\<rparr>)"
    unfolding ref_change_def by blast
  then show "?pm a = pte_mem (heap m) a \<or> (\<exists>i \<in> used m. pte (frames m ! i) = Some a \<and>
      (\<exists>e b. pte_mem (heap m) a = Some e \<and> ?pm a = Some (e\<lparr>reference := b\<rparr>)))"
  proof cases
    case 1
    then show ?thesis using assms(2)
      by (cases "pte_mem (heap m) a") (auto simp: frame_ptes_def refs_map_def)
  next
    case 2
    then have "\<exists>d. ?pm a = Some (e\<lparr>reference := d\<rparr>)" by auto
    with 2 show ?thesis by blast
  qed
qed

lemma core_eq_refs: "core_eq m m1 \<Longrightarrow> S \<subseteq> used m \<Longrightarrow> core_eq m (set_refs b S m1)"
  using ref_change_refs [of m "pte_mem (heap m1)" S b]
  by (simp add: core_eq_def set_refs_def frame_ptes_def)

lemma core_eq_policy [simp]:
  "core_eq m (m1\<lparr>links := l\<rparr>) = core_eq m m1"
  "core_eq m (m1\<lparr>clock_list := cl\<rparr>) = core_eq m m1"
  "core_eq m (m1\<lparr>clock_hand := ch\<rparr>) = core_eq m m1"
  "core_eq m (m1\<lparr>rr_next := rr\<rparr>) = core_eq m m1"
  "core_eq m (m1\<lparr>rnd_calls := rc\<rparr>) = core_eq m m1"
  by (simp_all add: core_eq_def)

lemma frame_ref_policy [simp]:
  "frame_ref (m\<lparr>links := l\<rparr>) i = frame_ref m i"
  "frame_ref (m\<lparr>clock_list := cl\<rparr>) i = frame_ref m i"
  "frame_ref (m\<lparr>clock_hand := ch\<rparr>) i = frame_ref m i"
  "frame_ref (m\<lparr>rr_next := rr\<rparr>) i = frame_ref m i"
  "frame_ref (m\<lparr>rnd_calls := rc\<rparr>) i = frame_ref m i"
  by (simp_all add: frame_ref_def cong: option.case_cong)

lemma used_policy [simp]:
  "used (m\<lparr>links := l\<rparr>) = used m" "used (m\<lparr>clock_list := cl\<rparr>) = used m"
  "used (m\<lparr>clock_hand := ch\<rparr>) = used m" "used (m\<lparr>rr_next := rr\<rparr>) = used m"
  "used (m\<lparr>rnd_calls := rc\<rparr>) = used m"
  by (simp_all add: used_def)

lemma frames_ok_policy [simp]:
  "frames_ok (m\<lparr>links := l\<rparr>) = frames_ok m" "frames_ok (m\<lparr>clock_list := cl\<rparr>) = frames_ok m"
  "frames_ok (m\<lparr>clock_hand := ch\<rparr>) = frames_ok m"
  by (simp_all add: frames_ok_def)

lemma set_refs_links: "set_refs b S (m\<lparr>links := l\<rparr>) = (set_refs b S m)\<lparr>links := l\<rparr>"
  by (simp add: set_refs_def frame_ptes_def)

section \<open>A machine with every frame in use\<close>

text \<open>Frame \<open>i\<close> holds the page of entry \<open>i\<close>; used to instantiate the properties of the policies.\<close>

definition full_machine :: "nat \<Rightarrow> machine" where
  "full_machine n = \<lparr>heap = \<lparr>km = CSC369_MallocInit (\<lambda>n. Some n),
       pte_mem = (\<lambda>a. if a < n then Some (init_pte\<lparr>frame_number := of_nat a, valid := True\<rparr>) else None),
       pt_mem = Map.empty\<rparr>,
     mm_struct = None, mm_root = None, frames = map (\<lambda>i. \<lparr>free = False, pte = Some i\<rparr>) [0..<n], frame_count = n,
     mswap = \<lparr>swapmap = \<lparr>nbits = 0, bm_words = []\<rparr>, swapfile = [], file_limit = 0\<rparr>,
     physmem = replicate (16 * n) 0,
     stats = \<lparr>ref_count = 0, hit_count = 0, miss_count = 0, evict_clean_count = 0, evict_dirty_count = 0\<rparr>,
     memsize = n, links = (\<lambda>e. unlinked), clock_list = None, clock_hand = None, rr_next = 0,
     rnd = (\<lambda>n. 7 + n), rnd_calls = 0\<rparr>"

lemma full_machine_simps [simp]:
  "memsize (full_machine n) = n" "rr_next (full_machine n) = 0" "rnd (full_machine n) = (\<lambda>n. 7 + n)"
  "rnd_calls (full_machine n) = 0" "links (full_machine n) = (\<lambda>e. unlinked)"
  by (simp_all add: full_machine_def)

lemma full_machine_used [simp]: "used (full_machine n) = {..<n}"
  by (auto simp: used_def full_machine_def)

lemma full_machine_ok: "n \<le> 2 ^ 28 \<Longrightarrow> frames_ok (full_machine n)"
  unfolding frames_ok_def full_machine_used by (auto simp: full_machine_def)

lemma full_machine_ref [simp]: "i < n \<Longrightarrow> \<not> frame_ref (full_machine n) i"
  by (simp add: frame_ref_def full_machine_def init_pte_def)

end
