(* ===== verification/MMInv.thy ===== *)
theory MMInv
  imports MM PageTableInv Policy
begin

text \<open>
  The invariant of the memory manager and its abstract view.  A page is named by its path in
  the page table; \<open>page m\<close> maps the pages the table knows to their entries, and
  \<open>page_bytes m\<close> gives the sixteen bytes every page holds, wherever they are: in a frame, in
  a slot of the swap file, or nowhere yet (zeros).  \<open>mm_ok H m\<close> ties entries, frames, slots
  and the bitmap together; \<open>H\<close> is the frame in transit between its old and its new page.
  The lemmas show that an eviction and the fill of a frame keep the invariant and do not
  change \<open>page_bytes\<close>.
\<close>

section \<open>Pages and their bytes\<close>

definition page_ptr :: "machine \<Rightarrow> nat list \<Rightarrow> ptr" where
  "page_ptr m xs = (case mm_root m of
      None \<Rightarrow> None | Some r \<Rightarrow> if length xs = 3 then pte_at (heap m) r xs else None)"

definition page :: "machine \<Rightarrow> nat list \<Rightarrow> csc369_pte option" where
  "page m xs = (case page_ptr m xs of None \<Rightarrow> None | Some p \<Rightarrow> pte_mem (heap m) p)"

definition pte_bytes :: "machine \<Rightarrow> csc369_pte \<Rightarrow> byte list" where
  "pte_bytes m e =
     (if valid e then frame_bytes (physmem m) (unat (frame_number e))
      else if on_swap e then slice (swapfile (mswap m)) (unat (swap_offset e)) 16
      else replicate 16 0)"

definition page_bytes :: "machine \<Rightarrow> nat list \<Rightarrow> byte list" where
  "page_bytes m xs = (case page m xs of None \<Rightarrow> replicate 16 0 | Some e \<Rightarrow> pte_bytes m e)"

lemma page_cong:
  assumes "heap m' = heap m" "mm_root m' = mm_root m"
  shows "page_ptr m' = page_ptr m" "page m' = page m"
  unfolding fun_eq_iff page_def page_ptr_def assms by simp_all

lemma page_bytes_cong:
  assumes "page m' = page m" "physmem m' = physmem m" "mswap m' = mswap m"
  shows "page_bytes m' = page_bytes m"
  unfolding fun_eq_iff page_bytes_def pte_bytes_def assms by simp

section \<open>The invariant\<close>

definition has_slot :: "csc369_swap \<Rightarrow> csc369_pte \<Rightarrow> nat \<Rightarrow> bool" where
  "has_slot sw e s \<longleftrightarrow> swap_offset e = slot_offset s \<and> s \<in> bm_used (swapmap sw) \<and>
     16 * s + 16 \<le> length (swapfile sw)"

definition slot_ok :: "csc369_swap \<Rightarrow> csc369_pte \<Rightarrow> bool" where
  "slot_ok sw e \<longleftrightarrow> (swap_offset e = CSC369_INVALID_SWAP \<and> (\<not> valid e \<longrightarrow> \<not> on_swap e)) \<or>
     (\<exists>s. has_slot sw e s \<and> (\<not> valid e \<longrightarrow> on_swap e))"

definition page_ok :: "nat set \<Rightarrow> machine \<Rightarrow> nat list \<Rightarrow> csc369_pte \<Rightarrow> bool" where
  "page_ok H m xs e \<longleftrightarrow>
     (valid e \<longrightarrow> unat (frame_number e) \<in> used m - H \<and> \<not> on_swap e \<and>
        pte (frames m ! unat (frame_number e)) = page_ptr m xs) \<and>
     (\<not> valid e \<longrightarrow> \<not> reference e \<and> \<not> dirty e) \<and> slot_ok (mswap m) e"

definition mm_base :: "machine \<Rightarrow> bool" where
  "mm_base m \<longleftrightarrow> (\<exists>r. mm_root m = Some r \<and> pt_wf (heap m) r) \<and>
     length (frames m) = memsize m \<and> frame_count m = memsize m \<and>
     length (physmem m) = 16 * memsize m \<and> 0 < memsize m \<and> memsize m \<le> 2 ^ 28 \<and>
     swap_wf (mswap m)"

definition mm_ok :: "nat set \<Rightarrow> machine \<Rightarrow> bool" where
  "mm_ok H m \<longleftrightarrow> mm_base m \<and>
     (\<forall>xs e. page m xs = Some e \<longrightarrow> page_ok H m xs e) \<and>
     (\<forall>i \<in> used m - H. \<exists>xs e. page m xs = Some e \<and> valid e \<and> unat (frame_number e) = i) \<and>
     (\<forall>xs ys e d. page m xs = Some e \<and> page m ys = Some d \<and> swap_offset e = swap_offset d \<and>
        swap_offset e \<noteq> CSC369_INVALID_SWAP \<longrightarrow> xs = ys) \<and>
     (\<forall>s \<in> bm_used (swapmap (mswap m)). \<exists>xs e. page m xs = Some e \<and> swap_offset e = slot_offset s)"

lemma mm_okI:
  assumes "mm_base m"
    and "\<And>xs e. page m xs = Some e \<Longrightarrow> page_ok H m xs e"
    and "\<And>i. i \<in> used m \<Longrightarrow> i \<notin> H \<Longrightarrow> \<exists>xs e. page m xs = Some e \<and> valid e \<and> unat (frame_number e) = i"
    and "\<And>xs ys e d. page m xs = Some e \<Longrightarrow> page m ys = Some d \<Longrightarrow> swap_offset e = swap_offset d \<Longrightarrow>
        swap_offset e \<noteq> CSC369_INVALID_SWAP \<Longrightarrow> xs = ys"
    and "\<And>s. s \<in> bm_used (swapmap (mswap m)) \<Longrightarrow> \<exists>xs e. page m xs = Some e \<and> swap_offset e = slot_offset s"
  shows "mm_ok H m"
  using assms unfolding mm_ok_def by (intro conjI allI ballI impI) auto

lemma mm_ok_base: "mm_ok H m \<Longrightarrow> mm_base m"
  by (simp add: mm_ok_def)

lemma mm_ok_page: "mm_ok H m \<Longrightarrow> page m xs = Some e \<Longrightarrow> page_ok H m xs e"
  unfolding mm_ok_def by blast

lemma mm_ok_frame:
  "mm_ok H m \<Longrightarrow> i \<in> used m \<Longrightarrow> i \<notin> H \<Longrightarrow> \<exists>xs e. page m xs = Some e \<and> valid e \<and> unat (frame_number e) = i"
  unfolding mm_ok_def by blast

lemma mm_ok_offset:
  "mm_ok H m \<Longrightarrow> page m xs = Some e \<Longrightarrow> page m ys = Some d \<Longrightarrow> swap_offset e = swap_offset d \<Longrightarrow>
   swap_offset e \<noteq> CSC369_INVALID_SWAP \<Longrightarrow> xs = ys"
  unfolding mm_ok_def by blast

lemma mm_ok_slot:
  "mm_ok H m \<Longrightarrow> s \<in> bm_used (swapmap (mswap m)) \<Longrightarrow> \<exists>xs e. page m xs = Some e \<and> swap_offset e = slot_offset s"
  unfolding mm_ok_def by blast

lemma slot_lt: "swap_wf sw \<Longrightarrow> s \<in> bm_used (swapmap sw) \<Longrightarrow> s < 2 ^ 59"
  by (auto simp: swap_wf_def bm_used_def)

lemma page_ptr_inj:
  assumes "mm_base m" "page_ptr m xs = Some p" "page_ptr m ys = Some p"
  shows "xs = ys"
  using assms pte_at_inj by (auto simp: mm_base_def page_ptr_def split: if_splits)

lemma page_SomeD: "page m xs = Some e \<Longrightarrow> \<exists>p. page_ptr m xs = Some p \<and> pte_mem (heap m) p = Some e"
  by (auto simp: page_def split: option.splits)

lemma page_ptr_dom: "mm_base m \<Longrightarrow> page_ptr m xs = Some p \<Longrightarrow> \<exists>e. page m xs = Some e"
  using pte_at_dom by (fastforce simp: mm_base_def page_ptr_def page_def split: if_splits)

text \<open>Two resident pages never share a frame.\<close>

lemma frame_unique:
  assumes "mm_ok H m" "page m xs = Some e" "valid e" "page m ys = Some d" "valid d"
    "unat (frame_number e) = unat (frame_number d)"
  shows "xs = ys"
proof -
  obtain p where "page_ptr m xs = Some p" using page_SomeD [OF assms(2)] by blast
  moreover have "page_ptr m ys = page_ptr m xs"
    using mm_ok_page [OF assms(1,2)] mm_ok_page [OF assms(1,4)] assms(3,5,6) by (simp add: page_ok_def)
  ultimately show ?thesis using page_ptr_inj mm_ok_base [OF assms(1)] by metis
qed

lemma mm_ok_frames_ok: "mm_ok {} m \<Longrightarrow> frames_ok m"
proof -
  assume ok: "mm_ok {} m"
  have "\<exists>p e. pte (frames m ! i) = Some p \<and> pte_mem (heap m) p = Some e \<and> unat (frame_number e) = i"
    if i: "i \<in> used m" for i
  proof -
    obtain xs e where e: "page m xs = Some e" "valid e" "unat (frame_number e) = i"
      using mm_ok_frame [OF ok i] by auto
    then show ?thesis using mm_ok_page [OF ok e(1)] page_SomeD [OF e(1)] by (auto simp: page_ok_def)
  qed
  then show ?thesis using mm_ok_base [OF ok] by (simp add: frames_ok_def mm_base_def)
qed

lemma frame_ref_page:
  assumes "mm_ok H m" "page m xs = Some e" "valid e"
  shows "frame_ref m (unat (frame_number e)) = reference e"
  using mm_ok_page [OF assms(1,2)] page_SomeD [OF assms(2)] assms(3)
  by (auto simp: page_ok_def frame_ref_def)

text \<open>A free frame may be treated as in transit.\<close>

lemma mm_ok_free: "mm_ok {} m \<Longrightarrow> f \<notin> used m \<Longrightarrow> mm_ok {f} m"
  unfolding mm_ok_def page_ok_def by (auto)

section \<open>Changes that the invariant does not see\<close>

definition same_entry :: "csc369_pte \<Rightarrow> csc369_pte \<Rightarrow> bool" where
  "same_entry e d \<longleftrightarrow> valid d = valid e \<and> frame_number d = frame_number e \<and> on_swap d = on_swap e \<and>
     swap_offset d = swap_offset e \<and> (\<not> valid e \<longrightarrow> reference d = reference e \<and> dirty d = dirty e)"

definition same_view :: "machine \<Rightarrow> machine \<Rightarrow> bool" where
  "same_view m m' \<longleftrightarrow> mm_base m' \<and> page_ptr m' = page_ptr m \<and> frames m' = frames m \<and>
     memsize m' = memsize m \<and> mswap m' = mswap m \<and> physmem m' = physmem m \<and>
     (\<forall>xs. rel_option same_entry (page m xs) (page m' xs))"

lemma same_view_page:
  assumes "same_view m m'" "page m' xs = Some d"
  shows "\<exists>e. page m xs = Some e \<and> same_entry e d"
proof -
  have "rel_option same_entry (page m xs) (page m' xs)" using assms(1) by (simp add: same_view_def)
  with assms(2) show ?thesis by (cases "page m xs") auto
qed

lemma same_view_page2:
  assumes "same_view m m'" "page m xs = Some e"
  shows "\<exists>d. page m' xs = Some d \<and> same_entry e d"
proof -
  have "rel_option same_entry (page m xs) (page m' xs)" using assms(1) by (simp add: same_view_def)
  with assms(2) show ?thesis by (cases "page m' xs") auto
qed

lemma same_view_used: "same_view m m' \<Longrightarrow> used m' = used m"
  by (simp add: same_view_def used_def)

lemma same_view_dom: "same_view m m' \<Longrightarrow> dom (page m') = dom (page m)"
  using same_view_page same_view_page2 by (fastforce simp: dom_def)

lemma same_view_ok:
  assumes s: "same_view m m'" and ok: "mm_ok H m"
  shows "mm_ok H m'"
proof (rule mm_okI)
  show "mm_base m'" using s by (simp add: same_view_def)
  note eqs = s [unfolded same_view_def]
  show "page_ok H m' xs d" if d: "page m' xs = Some d" for xs d
  proof -
    obtain e where e: "page m xs = Some e" "same_entry e d" using same_view_page [OF s d] by blast
    then show ?thesis using mm_ok_page [OF ok e(1)] eqs same_view_used [OF s]
      by (auto simp: page_ok_def same_entry_def slot_ok_def has_slot_def)
  qed
  show "\<exists>xs d. page m' xs = Some d \<and> valid d \<and> unat (frame_number d) = i"
    if i: "i \<in> used m'" "i \<notin> H" for i
  proof -
    obtain xs e where e: "page m xs = Some e" "valid e" "unat (frame_number e) = i"
      using mm_ok_frame [OF ok _ i(2)] i(1) same_view_used [OF s] by auto
    obtain d where "page m' xs = Some d" "same_entry e d" using same_view_page2 [OF s e(1)] by blast
    then have "page m' xs = Some d \<and> valid d \<and> unat (frame_number d) = i"
      using e(2,3) by (simp add: same_entry_def)
    then show ?thesis by blast
  qed
  show "xs = ys" if d: "page m' xs = Some d" "page m' ys = Some d'" "swap_offset d = swap_offset d'"
    "swap_offset d \<noteq> CSC369_INVALID_SWAP" for xs ys d d'
  proof -
    obtain e e' where e: "page m xs = Some e" "same_entry e d" "page m ys = Some e'" "same_entry e' d'"
      using same_view_page [OF s d(1)] same_view_page [OF s d(2)] by blast
    have "swap_offset d = swap_offset e" "swap_offset d' = swap_offset e'"
      using e(2,4) by (simp_all add: same_entry_def)
    then show ?thesis using mm_ok_offset [OF ok e(1,3)] d(3,4) by metis
  qed
  show "\<exists>xs d. page m' xs = Some d \<and> swap_offset d = slot_offset t"
    if t: "t \<in> bm_used (swapmap (mswap m'))" for t
  proof -
    obtain xs e where e: "page m xs = Some e" "swap_offset e = slot_offset t"
      using mm_ok_slot [OF ok, of t] t eqs by auto
    obtain d where "page m' xs = Some d" "same_entry e d" using same_view_page2 [OF s e(1)] by blast
    then show ?thesis using e(2) by (auto simp: same_entry_def)
  qed
qed

lemma same_view_bytes: "same_view m m' \<Longrightarrow> page_bytes m' = page_bytes m"
proof
  fix xs assume s: "same_view m m'"
  then have "rel_option same_entry (page m xs) (page m' xs)" "physmem m' = physmem m" "mswap m' = mswap m"
    by (simp_all add: same_view_def)
  then show "page_bytes m' xs = page_bytes m xs"
    by (cases "page m xs"; cases "page m' xs") (simp_all add: page_bytes_def pte_bytes_def same_entry_def)
qed

section \<open>Writing one entry\<close>

definition put_pte :: "addr \<Rightarrow> csc369_pte \<Rightarrow> machine \<Rightarrow> machine" where
  "put_pte p e m = m\<lparr>heap := (heap m)\<lparr>pte_mem := (pte_mem (heap m))(p \<mapsto> e)\<rparr>\<rparr>"

lemma put_pte_simps [simp]:
  "pte_mem (heap (put_pte p e m)) = (pte_mem (heap m))(p \<mapsto> e)"
  "km (heap (put_pte p e m)) = km (heap m)" "mm_root (put_pte p e m) = mm_root m"
  "frames (put_pte p e m) = frames m" "frame_count (put_pte p e m) = frame_count m"
  "mswap (put_pte p e m) = mswap m" "physmem (put_pte p e m) = physmem m"
  "stats (put_pte p e m) = stats m" "memsize (put_pte p e m) = memsize m"
  "used (put_pte p e m) = used m" "put_pte p d (put_pte p e m) = put_pte p d m"
  "policy_same m' (put_pte p e m) = policy_same m' m" "rnd (put_pte p e m) = rnd m"
  by (simp_all add: put_pte_def used_def policy_same_def)

lemma with_heap_put:
  assumes "pte_mem (heap m) p = Some e"
  shows "with_heap (CSC369_PTESetValid (Some p) b) m = Inr (put_pte p (e\<lparr>valid := b\<rparr>) m)"
    "with_heap (CSC369_PTESetDirty (Some p) b) m = Inr (put_pte p (e\<lparr>dirty := b\<rparr>) m)"
    "with_heap (CSC369_PTESetOnSwap (Some p) b) m = Inr (put_pte p (e\<lparr>on_swap := b\<rparr>) m)"
    "with_heap (CSC369_PTESetFrameNumber (Some p) v) m = Inr (put_pte p (e\<lparr>frame_number := v\<rparr>) m)"
    "with_heap (CSC369_PTESetSwapOffset (Some p) v) m = Inr (put_pte p (e\<lparr>swap_offset := v\<rparr>) m)"
  using assms by (simp_all add: with_heap_def pte_setter_defs put_pte_def)

lemma put_pte_page:
  assumes "mm_base m" "page_ptr m xs = Some p" "page m xs = Some e" "page_table d = page_table e"
  shows "page_ptr (put_pte p d m) = page_ptr m" "page (put_pte p d m) = (page m)(xs \<mapsto> d)"
    "mm_base (put_pte p d m)"
proof -
  have t: "same_tree (heap m) (heap (put_pte p d m))"
    using same_tree_upd [of "heap m" p e d] page_SomeD [OF assms(3)] assms(2,4) by (auto simp: put_pte_def)
  show pp: "page_ptr (put_pte p d m) = page_ptr m"
    by (simp add: page_ptr_def same_tree_at [OF t] fun_eq_iff split: option.splits)
  show "page (put_pte p d m) = (page m)(xs \<mapsto> d)"
  proof
    fix ys
    show "page (put_pte p d m) ys = ((page m)(xs \<mapsto> d)) ys"
    proof (cases "page_ptr m ys")
      case None
      then show ?thesis using assms(2) by (auto simp: page_def pp)
    next
      case (Some q)
      then show ?thesis using page_ptr_inj [OF assms(1,2), of ys] assms(2) by (auto simp: page_def pp)
    qed
  qed
  show "mm_base (put_pte p d m)"
    using assms(1) same_tree_wf [OF t] by (auto simp: mm_base_def)
qed

lemma put_pte_view:
  assumes "mm_base m" "page_ptr m xs = Some p" "page m xs = Some e" "page_table d = page_table e"
    and "same_entry e d"
  shows "same_view m (put_pte p d m)"
proof -
  have "rel_option same_entry (page m ys) (page (put_pte p d m) ys)" for ys
    using assms(3,5) unfolding put_pte_page(2) [OF assms(1-4)]
    by (cases "page m ys") (auto simp: same_entry_def)
  then show ?thesis
    using put_pte_page [OF assms(1-4)] by (simp add: same_view_def)
qed

text \<open>The policies change reference bits of resident pages only.\<close>

lemma core_eq_view:
  assumes c: "core_eq m m'" and ok: "mm_ok {} m"
  shows "same_view m m'"
proof -
  note eqs = c [unfolded core_eq_def] and base = mm_ok_base [OF ok]
  have rc: "pte_mem (heap m') a = pte_mem (heap m) a \<or> (\<exists>i \<in> used m. pte (frames m ! i) = Some a \<and>
      (\<exists>e b. pte_mem (heap m) a = Some e \<and> pte_mem (heap m') a = Some (e\<lparr>reference := b\<rparr>)))" for a
    using eqs unfolding ref_change_def by blast
  have t: "same_tree (heap m) (heap m')"
    unfolding same_tree_def
  proof (intro conjI)
    show "dom (pte_mem (heap m')) = dom (pte_mem (heap m))" using rc by (auto simp: dom_def) metis+
    show "subt (heap m') = subt (heap m)"
    proof
      fix a show "subt (heap m') a = subt (heap m) a" using rc [of a] by (auto simp: subt_def)
    qed
  qed (use eqs in auto)
  have pp: "page_ptr m' = page_ptr m"
    using eqs by (simp add: page_ptr_def same_tree_at [OF t] fun_eq_iff split: option.splits)
  have "mm_base m'" using base eqs same_tree_wf [OF t] by (auto simp: mm_base_def)
  moreover have "rel_option same_entry (page m xs) (page m' xs)" for xs
  proof (cases "page_ptr m xs")
    case None
    then show ?thesis by (simp add: page_def pp)
  next
    case (Some a)
    then obtain e where e: "page m xs = Some e" "pte_mem (heap m) a = Some e"
      using page_ptr_dom [OF base Some] by (auto simp: page_def)
    have "same_entry e d" if d: "pte_mem (heap m') a = Some d" for d
    proof (cases "d = e")
      case False
      then obtain i b where i: "i \<in> used m" "pte (frames m ! i) = Some a" "d = e\<lparr>reference := b\<rparr>"
        using rc [of a] d e(2) by auto
      then obtain ys e' where "page m ys = Some e'" "valid e'" "page_ptr m ys = Some a"
        using mm_ok_frame [OF ok i(1)] mm_ok_page [OF ok] by (auto simp: page_ok_def)
      then have "valid e" using page_ptr_inj [OF base Some] e by (auto simp: page_def)
      with i(3) show ?thesis by (simp add: same_entry_def)
    qed (simp add: same_entry_def)
    moreover obtain d where "pte_mem (heap m') a = Some d" using rc [of a] e(2) by auto
    ultimately show ?thesis using e Some by (simp add: page_def pp)
  qed
  ultimately show ?thesis using eqs pp by (simp add: same_view_def)
qed

end
