(* ===== verification/PageLife.thy ===== *)
theory PageLife
  imports MMInv
begin

text \<open>
  The life of a page as a state machine.  A page the table does not know is \<open>Absent\<close>; an entry
  that was just allocated is \<open>Allocated\<close>; a page in a frame is \<open>Resident\<close>, with the slot of the
  swap file it owns, if any, and its dirty bit; a page that is only in its slot is \<open>Swapped\<close>.
  \<open>state_of\<close> reads the state of every page off the entries; \<open>page_step\<close> are the steps the design
  allows.  The proofs that every access of the simulator follows them are in the theories
  \<open>MMRefine\<close>, \<open>MMTranslate\<close> and \<open>Reach\<close>.
\<close>

section \<open>States and steps\<close>

datatype page_state = Absent | Allocated | Resident "u64 option" bool | Swapped u64

datatype page_event =
    Touch bool  \<comment> \<open>an access to the page, and whether it writes\<close>
  | Evict       \<comment> \<open>the page gives its frame to another page\<close>

inductive page_step :: "page_event \<Rightarrow> page_state \<Rightarrow> page_state \<Rightarrow> bool" where
  first_touch: "page_step (Touch w) Absent (Resident None True)"
| hit: "page_step (Touch w) (Resident slot d) (Resident slot (d \<or> w))"
| page_in: "page_step (Touch w) (Swapped slot) (Resident (Some slot) w)"
| page_out: "page_step Evict (Resident None d) (Swapped slot)"
| page_out_again: "page_step Evict (Resident (Some slot) d) (Swapped slot)"

inductive_cases page_step_TouchE: "page_step (Touch w) s s'"
inductive_cases page_step_EvictE: "page_step Evict s s'"
inductive_simps page_step_Evict_simps: "page_step Evict (Resident slot d) s'"

abbreviation page_path_steps :: "page_state \<Rightarrow> page_state \<Rightarrow> bool" where
  "page_path_steps \<equiv> (\<lambda>s s'. \<exists>ev. page_step ev s s')\<^sup>*\<^sup>*"

fun slot_in :: "page_state \<Rightarrow> u64 option" where
  "slot_in (Resident slot d) = slot"
| "slot_in (Swapped slot) = Some slot"
| "slot_in _ = None"

fun in_frame :: "page_state \<Rightarrow> bool" where
  "in_frame (Resident slot d) = True"
| "in_frame _ = False"

text \<open>A page keeps the slot it once got, and is never forgotten.\<close>

lemma step_keeps_slot: "page_step ev s s' \<Longrightarrow> slot_in s = Some slot \<Longrightarrow> slot_in s' = Some slot"
  by (induction rule: page_step.induct) auto

lemma steps_keep_slot: "page_path_steps s s' \<Longrightarrow> slot_in s = Some slot \<Longrightarrow> slot_in s' = Some slot"
  by (induction rule: rtranclp_induct) (auto dest: step_keeps_slot)

lemma step_known: "page_step ev s s' \<Longrightarrow> s' \<noteq> Absent \<and> s' \<noteq> Allocated"
  by (induction rule: page_step.induct) simp_all

lemma steps_known: "page_path_steps s s' \<Longrightarrow> s \<noteq> Absent \<Longrightarrow> s' \<noteq> Absent"
  by (induction rule: rtranclp_induct) (auto dest: step_known)

text \<open>The first touch dirties a page, and it is clean again only after it was swapped out.\<close>

lemma step_dirty: "page_step ev s s' \<Longrightarrow> s = Resident slot True \<Longrightarrow> s' = Resident slot True \<or> (\<exists>o'. s' = Swapped o')"
  by (induction rule: page_step.induct) auto

section \<open>The states of the pages of a machine\<close>

definition slot_of :: "csc369_pte \<Rightarrow> u64 option" where
  "slot_of e = (if swap_offset e = CSC369_INVALID_SWAP then None else Some (swap_offset e))"

definition pte_state :: "csc369_pte \<Rightarrow> page_state" where
  "pte_state e = (if valid e then Resident (slot_of e) (dirty e)
     else if on_swap e then Swapped (swap_offset e) else Allocated)"

definition state_of :: "machine \<Rightarrow> nat list \<Rightarrow> page_state" where
  "state_of m xs = (case page m xs of None \<Rightarrow> Absent | Some e \<Rightarrow> pte_state e)"

lemma state_of_cong: "page m' = page m \<Longrightarrow> state_of m' = state_of m"
  by (simp add: state_of_def fun_eq_iff)

lemma state_of_upd: "page m' = (page m)(x \<mapsto> e) \<Longrightarrow> state_of m' = (state_of m)(x := pte_state e)"
  by (simp add: state_of_def fun_eq_iff)

lemma in_frame_state: "in_frame (state_of m xs) \<longleftrightarrow> (\<exists>e. page m xs = Some e \<and> valid e)"
  by (simp add: state_of_def pte_state_def split: option.splits)

lemma slot_in_state: "page m xs = Some e \<Longrightarrow> slot \<noteq> CSC369_INVALID_SWAP \<Longrightarrow> page_ok H m xs e \<Longrightarrow>
   slot_in (state_of m xs) = Some slot \<longleftrightarrow> swap_offset e = slot"
  by (auto simp: state_of_def pte_state_def slot_of_def page_ok_def slot_ok_def)

text \<open>A policy does not change the states.\<close>

lemma core_eq_state:
  assumes c: "core_eq m m'" and ok: "mm_ok {} m"
  shows "state_of m' = state_of m"
proof
  fix xs
  have pp: "page_ptr m' = page_ptr m" using core_eq_view [OF assms] by (simp add: same_view_def)
  show "state_of m' xs = state_of m xs"
  proof (cases "page_ptr m xs")
    case None
    then show ?thesis by (simp add: state_of_def page_def pp)
  next
    case (Some a)
    have "pte_mem (heap m') a = pte_mem (heap m) a \<or>
        (\<exists>e b. pte_mem (heap m) a = Some e \<and> pte_mem (heap m') a = Some (e\<lparr>reference := b\<rparr>))"
      using c unfolding core_eq_def ref_change_def by blast
    then show ?thesis using Some by (auto simp: state_of_def page_def pp pte_state_def slot_of_def)
  qed
qed

section \<open>The effect of an access\<close>

text \<open>
  An access allocates the entry if need be, brings the page into a frame, and sets the dirty
  bit when it writes.
\<close>

fun allocated_state :: "page_state \<Rightarrow> page_state" where
  "allocated_state Absent = Allocated"
| "allocated_state s = s"

fun filled_state :: "page_state \<Rightarrow> page_state" where
  "filled_state (Swapped slot) = Resident (Some slot) False"
| "filled_state (Resident slot d) = Resident slot d"
| "filled_state _ = Resident None True"

fun written_state :: "bool \<Rightarrow> page_state \<Rightarrow> page_state" where
  "written_state w (Resident slot d) = Resident slot (d \<or> w)"
| "written_state w s = s"

abbreviation touched_state :: "bool \<Rightarrow> page_state \<Rightarrow> page_state" where
  "touched_state w s \<equiv> written_state w (filled_state (allocated_state s))"

lemma touched_state_step: "s \<noteq> Allocated \<Longrightarrow> page_step (Touch w) s (touched_state w s)"
  using page_step.intros by (cases s) simp_all

text \<open>When every frame is in use, a fault evicts one page.\<close>

definition one_evicted :: "bool \<Rightarrow> (nat list \<Rightarrow> page_state) \<Rightarrow> (nat list \<Rightarrow> page_state) \<Rightarrow> bool" where
  "one_evicted full L L' \<longleftrightarrow>
     (if full then \<exists>y s. page_step Evict (L y) s \<and> L' = L(y := s) else L' = L)"

definition fault_effect ::
  "bool \<Rightarrow> nat list \<Rightarrow> (nat list \<Rightarrow> page_state) \<Rightarrow> (nat list \<Rightarrow> page_state) \<Rightarrow> bool" where
  "fault_effect full x L L' \<longleftrightarrow> (\<exists>L1. one_evicted full L L1 \<and> L' = L1(x := filled_state (L x)))"

definition access_effect ::
  "bool \<Rightarrow> bool \<Rightarrow> nat list \<Rightarrow> (nat list \<Rightarrow> page_state) \<Rightarrow> (nat list \<Rightarrow> page_state) \<Rightarrow> bool" where
  "access_effect full w x L L' \<longleftrightarrow> (\<exists>L1. one_evicted (full \<and> \<not> in_frame (L x)) L L1 \<and>
     L' = L1(x := touched_state w (L x)))"

definition all_used :: "machine \<Rightarrow> bool" where
  "all_used m \<longleftrightarrow> used m = {..<memsize m}"

text \<open>Frames in use and evictions: every fault adds one to their sum.\<close>

definition evictions :: "machine \<Rightarrow> u32" where
  "evictions m = evict_clean_count (stats m) + evict_dirty_count (stats m)"

definition occupancy :: "machine \<Rightarrow> u32" where
  "occupancy m = of_nat (card (used m)) + evictions m"

lemma finite_used [simp]: "finite (used m)"
  by (rule finite_subset [of _ "{..<memsize m}"]) (auto simp: used_def)

lemma one_evicted_other: "one_evicted full L L' \<Longrightarrow> \<not> in_frame (L x) \<Longrightarrow> L' x = L x"
  by (auto simp: one_evicted_def elim!: page_step_EvictE split: if_splits)

lemma access_effect_step:
  assumes "access_effect full w x L L'" "L x \<noteq> Allocated"
  shows "page_step (Touch w) (L x) (L' x)" "y \<noteq> x \<Longrightarrow> L' y = L y \<or> page_step Evict (L y) (L' y)"
proof -
  obtain L1 where L1: "one_evicted (full \<and> \<not> in_frame (L x)) L L1" "L' = L1(x := touched_state w (L x))"
    using assms(1) by (auto simp: access_effect_def)
  show "page_step (Touch w) (L x) (L' x)" using touched_state_step [OF assms(2)] by (simp add: L1(2))
  show "L' y = L y \<or> page_step Evict (L y) (L' y)" if "y \<noteq> x"
    using L1 that by (auto simp: one_evicted_def split: if_splits)
qed

text \<open>Allocation, fault and write together are the effect of an access.\<close>

lemma fault_access_effect:
  assumes f: "fault_effect (full \<and> \<not> in_frame (L x)) x (L(x := allocated_state (L x))) L2"
    and w: "L3 = L2(x := written_state w (L2 x))"
  shows "access_effect full w x L L3"
proof -
  let ?L = "L(x := allocated_state (L x))" and ?full = "full \<and> \<not> in_frame (L x)"
  obtain L1 where L1: "one_evicted ?full ?L L1" "L2 = L1(x := filled_state (?L x))"
    using f by (auto simp: fault_effect_def)
  have "\<exists>L0. one_evicted ?full L L0 \<and> (\<forall>y. y \<noteq> x \<longrightarrow> L0 y = L1 y)"
  proof (cases ?full)
    case True
    then obtain y s where y: "page_step Evict (?L y) s" "L1 = ?L(y := s)" using L1(1) by (auto simp: one_evicted_def)
    have "\<not> in_frame (?L x)" using True by (cases "L x") simp_all
    then have "y \<noteq> x" using y(1) by (auto elim!: page_step_EvictE)
    then have "page_step Evict (L y) s" using y(1) by simp
    then have "one_evicted ?full L (L(y := s))" using True unfolding one_evicted_def by (simp only: if_True simp_thms) blast
    then show ?thesis using y(2) by (intro exI [of _ "L(y := s)"]) simp
  qed (use L1(1) in \<open>auto simp: one_evicted_def\<close>)
  then obtain L0 where "one_evicted ?full L L0" "\<forall>y. y \<noteq> x \<longrightarrow> L0 y = L1 y" by blast
  moreover have "L3 = L0(x := touched_state w (L x))" using w L1(2) calculation(2) by (auto simp: fun_eq_iff)
  ultimately show ?thesis unfolding access_effect_def by blast
qed

text \<open>The pages an access takes a frame from: one when a fault finds every frame in use, else none.\<close>

lemma access_effect_victims:
  assumes "access_effect full w x L L'"
  shows "card {y. y \<noteq> x \<and> L' y \<noteq> L y} = (if full \<and> \<not> in_frame (L x) then 1 else 0)"
proof -
  let ?full = "full \<and> \<not> in_frame (L x)"
  obtain L1 where L1: "one_evicted ?full L L1" "L' = L1(x := touched_state w (L x))"
    using assms by (auto simp: access_effect_def)
  show ?thesis
  proof (cases ?full)
    case True
    then obtain y s where y: "page_step Evict (L y) s" "L1 = L(y := s)" using L1(1) by (auto simp: one_evicted_def)
    then have "in_frame (L y)" "s \<noteq> L y" by (auto elim!: page_step_EvictE)
    then have "{z. z \<noteq> x \<and> L' z \<noteq> L z} = {y}" using True L1(2) y(2) by auto
    then show ?thesis using True by simp
  next
    case False
    then have "{z. z \<noteq> x \<and> L' z \<noteq> L z} = {}" using L1 by (auto simp: one_evicted_def)
    then show ?thesis by (simp only: if_not_P [OF False] card.empty)
  qed
qed

section \<open>Where the pages are\<close>

text \<open>The frame of every page in memory.\<close>

definition frame_of :: "machine \<Rightarrow> nat list \<Rightarrow> nat option" where
  "frame_of m xs = (case page m xs of
      None \<Rightarrow> None | Some e \<Rightarrow> if valid e then Some (unat (frame_number e)) else None)"

definition pte_frame :: "csc369_pte \<Rightarrow> nat option" where
  "pte_frame e = (if valid e then Some (unat (frame_number e)) else None)"

definition vacate :: "nat \<Rightarrow> (nat list \<Rightarrow> nat option) \<Rightarrow> nat list \<Rightarrow> nat option" where
  "vacate f F xs = (if F xs = Some f then None else F xs)"

text \<open>The policy variables are the same, and so are the reference bits of the frames \<open>A\<close>.\<close>

definition policy_view :: "nat set \<Rightarrow> machine \<Rightarrow> machine \<Rightarrow> bool" where
  "policy_view A m m' \<longleftrightarrow> policy_same m m' \<and> (\<forall>i \<in> A. frame_ref m' i = frame_ref m i)"

text \<open>
  How a fault chooses its frame: the lowest free one, or what the policy answers in a machine
  with the policy variables and the reference bits of this one.
\<close>

definition chosen :: "(machine \<Rightarrow> (u64 \<times> machine) res) \<Rightarrow> machine \<Rightarrow> u64 \<Rightarrow> machine \<Rightarrow> bool" where
  "chosen evict m v m' \<longleftrightarrow>
     (if all_used m then \<exists>m0 m1. frames_ok m0 \<and> used m0 = used m \<and> policy_view (used m) m m0 \<and>
          evict m0 = Inr (v, m1) \<and> policy_view (used m - {unat v}) m1 m'
      else unat v = (LEAST i. i < memsize m \<and> i \<notin> used m) \<and> policy_view (used m - {unat v}) m m')"

lemma frame_of_cong: "page m' = page m \<Longrightarrow> frame_of m' = frame_of m"
  by (simp add: frame_of_def fun_eq_iff)

lemma frame_of_upd: "page m' = (page m)(x \<mapsto> e) \<Longrightarrow> frame_of m' = (frame_of m)(x := pte_frame e)"
  by (simp add: frame_of_def pte_frame_def fun_eq_iff)

lemma frame_of_view: "same_view m m' \<Longrightarrow> frame_of m' = frame_of m"
proof
  fix xs assume "same_view m m'"
  then have "rel_option same_entry (page m xs) (page m' xs)" by (simp add: same_view_def)
  then show "frame_of m' xs = frame_of m xs"
    by (cases "page m xs"; cases "page m' xs") (simp_all add: frame_of_def same_entry_def)
qed

lemma frame_of_SomeD:
  "frame_of m xs = Some f \<Longrightarrow> \<exists>e. page m xs = Some e \<and> valid e \<and> unat (frame_number e) = f"
  by (auto simp: frame_of_def split: option.splits if_splits)

lemma frame_of_used:
  assumes "mm_ok H m" "frame_of m xs = Some f"
  shows "f \<in> used m - H"
proof -
  obtain e where e: "page m xs = Some e" "valid e" "unat (frame_number e) = f" using frame_of_SomeD [OF assms(2)] by blast
  then show ?thesis using mm_ok_page [OF assms(1) e(1)] by (simp add: page_ok_def)
qed

lemma frame_of_inj:
  assumes "mm_ok H m" "frame_of m xs = Some f" "frame_of m ys = Some f"
  shows "xs = ys"
proof -
  obtain e d where "page m xs = Some e" "valid e" "unat (frame_number e) = f"
    "page m ys = Some d" "valid d" "unat (frame_number d) = f"
    using frame_of_SomeD [OF assms(2)] frame_of_SomeD [OF assms(3)] by blast
  then show ?thesis using frame_unique [OF assms(1), of xs e ys d] by simp
qed

lemma vacate_one:
  assumes "mm_ok H m" "frame_of m y = Some f"
  shows "(frame_of m)(y := None) = vacate f (frame_of m)"
proof
  fix xs
  have "frame_of m xs = Some f \<longleftrightarrow> xs = y" using frame_of_inj [OF assms(1) _ assms(2)] assms(2) by blast
  then show "((frame_of m)(y := None)) xs = vacate f (frame_of m) xs" by (simp add: vacate_def)
qed

lemma vacate_free:
  assumes "mm_ok H m" "f \<notin> used m - H"
  shows "vacate f (frame_of m) = frame_of m"
proof
  fix xs
  have "frame_of m xs \<noteq> Some f" using frame_of_used [OF assms(1)] assms(2) by blast
  then show "vacate f (frame_of m) xs = frame_of m xs" by (simp add: vacate_def)
qed

lemma policy_same_trans: "policy_same m m1 \<Longrightarrow> policy_same m1 m2 \<Longrightarrow> policy_same m m2"
  by (simp add: policy_same_def)

lemma policy_same_refl [simp]: "policy_same m m"
  by (simp add: policy_same_def)

lemma policy_view_refl [simp]: "policy_view A m m"
  by (simp add: policy_view_def)

lemma policy_view_trans:
  "policy_view A m m1 \<Longrightarrow> policy_view B m1 m2 \<Longrightarrow> C \<subseteq> A \<Longrightarrow> C \<subseteq> B \<Longrightarrow> policy_view C m m2"
  unfolding policy_view_def using policy_same_trans by (metis subsetD)

lemma chosen_same:
  assumes "chosen evict m v m1" "policy_view (used m - {unat v}) m1 m2"
  shows "chosen evict m v m2"
proof -
  have view: "policy_view (used m - {unat v}) m0 m2" if "policy_view (used m - {unat v}) m0 m1" for m0
    by (rule policy_view_trans [OF that assms(2) subset_refl subset_refl])
  show ?thesis
  proof (cases "all_used m")
    case True
    then show ?thesis using assms(1) view unfolding chosen_def if_P [OF True] by blast
  next
    case False
    then show ?thesis using assms(1) view unfolding chosen_def if_not_P [OF False] by blast
  qed
qed

text \<open>The allocation of an entry and the statistics before the choice do not matter.\<close>

lemma chosen_before:
  assumes "policy_view (used m) m m0" "used m0 = used m" and c: "chosen evict m0 v m'"
  shows "chosen evict m v m'"
proof -
  have "memsize m0 = memsize m" using assms(1) by (simp add: policy_view_def policy_same_def)
  then have full: "all_used m0 = all_used m" "{i. i < memsize m0 \<and> i \<notin> used m0} = {i. i < memsize m \<and> i \<notin> used m}"
    using assms(2) by (simp_all add: all_used_def)
  show ?thesis
  proof (cases "all_used m")
    case True
    then obtain m1 m2 where "frames_ok m1" "used m1 = used m" "policy_view (used m) m0 m1"
      "evict m1 = Inr (v, m2)" "policy_view (used m - {unat v}) m2 m'"
      using c full(1) assms(2) unfolding chosen_def by auto
    moreover from this have "policy_view (used m) m m1" using policy_view_trans [OF assms(1)] by blast
    ultimately show ?thesis using True unfolding chosen_def by auto
  next
    case False
    then have "unat v = (LEAST i. i < memsize m \<and> i \<notin> used m)" "policy_view (used m - {unat v}) m0 m'"
      using c unfolding chosen_def full if_not_P [OF False] assms(2) \<open>memsize m0 = memsize m\<close> by blast+
    moreover from this(2) have "policy_view (used m - {unat v}) m m'"
      by (rule policy_view_trans [OF assms(1) _ Diff_subset subset_refl])
    ultimately show ?thesis unfolding chosen_def if_not_P [OF False] by blast
  qed
qed

text \<open>
  The service of an access to the page \<open>x\<close>: a hit returns the frame of the page and moves
  nothing; a fault takes the frame from the page that was in it, if any.
\<close>

definition served ::
  "(machine \<Rightarrow> (u64 \<times> machine) res) \<Rightarrow> nat list \<Rightarrow> machine \<Rightarrow> u64 \<Rightarrow> machine \<Rightarrow> bool" where
  "served evict x m v m' \<longleftrightarrow> used m' = insert (unat v) (used m) \<and>
     (if frame_of m x \<noteq> None
      then frame_of m x = Some (unat v) \<and> policy_view (used m) m m' \<and> frame_of m' = frame_of m
      else chosen evict m v m' \<and> \<not> frame_ref m' (unat v) \<and>
        frame_of m' = (vacate (unat v) (frame_of m))(x \<mapsto> unat v))"

lemma served_before:
  assumes "policy_view (used m) m m0" "used m0 = used m" "frame_of m0 = frame_of m" "served evict x m0 v m'"
  shows "served evict x m v m'"
proof (cases "frame_of m x")
  case None
  then show ?thesis using assms(2-4) chosen_before [OF assms(1,2)] by (simp add: served_def)
next
  case (Some f)
  then show ?thesis using assms(2-4) policy_view_trans [OF assms(1) _ subset_refl subset_refl, of m']
    by (simp add: served_def)
qed

lemma served_after:
  assumes s: "served evict x m v m1" and v: "policy_view (used m1) m1 m2"
    and e: "used m2 = used m1" "frame_of m2 = frame_of m1"
  shows "served evict x m v m2"
proof -
  have sub: "used m \<subseteq> used m1" "unat v \<in> used m1" using s by (auto simp: served_def)
  then have view: "policy_view A m m2" if "policy_view A m m1" "A \<subseteq> used m" for A
    using policy_view_trans [OF that(1) v] that(2) by blast
  have "policy_view (used m - {unat v}) m1 m2" using v sub by (auto simp: policy_view_def)
  moreover have "frame_ref m2 (unat v) = frame_ref m1 (unat v)" using v sub(2) by (simp add: policy_view_def)
  ultimately show ?thesis
    using s e view chosen_same [of evict m v m1 m2] unfolding served_def by (simp split: if_splits)
qed

text \<open>An access to the page \<open>x\<close>: its service and the reference of the frame.\<close>

definition page_access ::
  "(nat \<Rightarrow> machine \<Rightarrow> machine res) \<Rightarrow> (machine \<Rightarrow> (u64 \<times> machine) res) \<Rightarrow> nat list \<Rightarrow> machine \<Rightarrow> machine \<Rightarrow> bool" where
  "page_access on_ref evict x m m' \<longleftrightarrow> (\<exists>v m1 m2. served evict x m v m1 \<and> frames_ok m1 \<and>
     on_ref (unat v) m1 = Inr m2 \<and> policy_view (used m1) m2 m' \<and> frame_of m' = frame_of m1 \<and> used m' = used m1)"

end
