(* ===== verification/MMSteps.thy ===== *)
theory MMSteps
  imports PageLife
begin

text \<open>
  The two halves of a page fault: \<open>CSC369_MMHandleEviction\<close> moves the bytes of a resident page
  to its slot of the swap file, and the fill of a frame brings the bytes of a page back.  Both
  keep \<open>mm_ok\<close> and leave \<open>page_bytes\<close> as it was.
\<close>

section \<open>Eviction\<close>

definition count_evict :: "bool \<Rightarrow> machine \<Rightarrow> machine" where
  "count_evict d m =
     (if d then m\<lparr>stats := stats m\<lparr>evict_dirty_count := evict_dirty_count (stats m) + 1\<rparr>\<rparr>
      else m\<lparr>stats := stats m\<lparr>evict_clean_count := evict_clean_count (stats m) + 1\<rparr>\<rparr>)"

definition evicted_pte :: "csc369_pte \<Rightarrow> nat \<Rightarrow> csc369_pte" where
  "evicted_pte e s = e\<lparr>dirty := False, valid := False, on_swap := True, swap_offset := slot_offset s\<rparr>"

definition evicted :: "addr \<Rightarrow> csc369_pte \<Rightarrow> nat \<Rightarrow> csc369_swap \<Rightarrow> machine \<Rightarrow> machine" where
  "evicted p e s sw m = put_pte p (evicted_pte e s) ((count_evict (dirty e) m)\<lparr>mswap := sw\<rparr>)"

lemma count_evict_simps [simp]:
  "heap (count_evict d m) = heap m" "mm_root (count_evict d m) = mm_root m"
  "frames (count_evict d m) = frames m" "frame_count (count_evict d m) = frame_count m"
  "mswap (count_evict d m) = mswap m" "physmem (count_evict d m) = physmem m"
  "memsize (count_evict d m) = memsize m" "policy_same m' (count_evict d m) = policy_same m' m"
  "rnd (count_evict d m) = rnd m" "links (count_evict d m) = links m"
  "clock_list (count_evict d m) = clock_list m" "clock_hand (count_evict d m) = clock_hand m"
  "rr_next (count_evict d m) = rr_next m" "rnd_calls (count_evict d m) = rnd_calls m"
  "ref_count (stats (count_evict d m)) = ref_count (stats m)"
  "hit_count (stats (count_evict d m)) = hit_count (stats m)"
  "miss_count (stats (count_evict d m)) = miss_count (stats m)"
  by (simp_all add: count_evict_def policy_same_def)

lemma evictions_simps [simp]:
  "evictions (count_evict d m) = evictions m + 1" "evictions (put_pte p e m) = evictions m"
  "evictions (m\<lparr>mswap := sw\<rparr>) = evictions m" "evictions (m\<lparr>physmem := pm\<rparr>) = evictions m"
  "evictions (m\<lparr>frames := fs\<rparr>) = evictions m" "evictions (m\<lparr>heap := h\<rparr>) = evictions m"
  by (simp_all add: evictions_def count_evict_def put_pte_def)

lemma ucast_frame: "unat (v :: u64) < 2 ^ 28 \<Longrightarrow> unat (ucast v :: u32) = unat v"
  by (simp add: unsigned_ucast_eq unsigned_take_bit_eq take_bit_nat_eq_self)

lemma HandleEviction_eq:
  assumes p: "pte_mem (heap m) p = Some e"
    and out: "CSC369_SwapPageOut (mswap m) (physmem m) (ucast (frame_number e)) (swap_offset e) =
      Inr (slot_offset s, sw)"
  shows "CSC369_MMHandleEviction (Some p) m = Inr (evicted p e s sw m)"
proof -
  define m1 where "m1 = (count_evict (dirty e) m)\<lparr>mswap := sw\<rparr>"
  have p1: "pte_mem (heap m1) p = Some e" using p by (simp add: m1_def)
  show ?thesis
    unfolding CSC369_MMHandleEviction_def evicted_def Let_def count_evict_def [symmetric] m1_def [symmetric]
    using p p1 out with_heap_put
    by (simp add: pte_getter_defs m1_def [symmetric] evicted_pte_def)
qed

lemma card_used_slots:
  assumes ok: "mm_ok H m" and y: "page m y = Some e" "swap_offset e = CSC369_INVALID_SWAP"
    and T: "finite T" "dom (page m) \<subseteq> T" "card T \<le> n"
  shows "card (bm_used (swapmap (mswap m))) < n"
proof -
  have fin: "finite (dom (page m))" using T(1,2) by (rule rev_finite_subset)
  have "\<forall>s \<in> bm_used (swapmap (mswap m)). \<exists>xs. xs \<in> dom (page m) \<and> swap_offset (the (page m xs)) = slot_offset s"
    using mm_ok_slot [OF ok] by fastforce
  then obtain g where g: "\<And>s. s \<in> bm_used (swapmap (mswap m)) \<Longrightarrow>
      g s \<in> dom (page m) \<and> swap_offset (the (page m (g s))) = slot_offset s" by metis
  have lt: "s < 2 ^ 59" if "s \<in> bm_used (swapmap (mswap m))" for s
    using that slot_lt mm_ok_base [OF ok] by (auto simp: mm_base_def)
  have "inj_on g (bm_used (swapmap (mswap m)))"
    using g lt by (intro inj_onI) (metis slot_offset_inj)
  moreover have "g ` bm_used (swapmap (mswap m)) \<subseteq> dom (page m) - {y}"
    using g lt y slot_offset_valid by fastforce
  ultimately have "card (bm_used (swapmap (mswap m))) \<le> card (dom (page m) - {y})"
    using fin card_inj_on_le by blast
  also have "\<dots> < card (dom (page m))" using y(1) fin by (intro card_Diff1_less) auto
  also have "\<dots> \<le> n" using T card_mono [of T "dom (page m)"] by linarith
  finally show ?thesis .
qed

text \<open>The page-out of a resident page succeeds when the swap file has room for every page.\<close>

lemma evict_page_out:
  assumes ok: "mm_ok {} m" and y: "page m y = Some e" "valid e" "page_ptr m y = Some p"
    and room: "finite T" "dom (page m) \<subseteq> T" "card T \<le> unat (nbits (swapmap (mswap m)))"
  obtains s sw where "CSC369_MMHandleEviction (Some p) m = Inr (evicted p e s sw m)"
    "paged_out (mswap m) (frame_bytes (physmem m) (unat (frame_number e))) s sw"
    "(swap_offset e = CSC369_INVALID_SWAP \<and> s \<notin> bm_used (swapmap (mswap m))) \<or>
     (swap_offset e = slot_offset s \<and> s \<in> bm_used (swapmap (mswap m)))"
proof -
  have base: "swap_wf (mswap m)" "length (physmem m) = 16 * memsize m" "memsize m \<le> 2 ^ 28"
    using mm_ok_base [OF ok] by (auto simp: mm_base_def)
  have pe: "pte_mem (heap m) p = Some e" using page_SomeD [OF y(1)] y(3) by simp
  let ?f = "ucast (frame_number e) :: u32"
  have "unat (frame_number e) < memsize m" "slot_ok (mswap m) e"
    using mm_ok_page [OF ok y(1)] y(2) by (auto simp: page_ok_def used_def)
  then have f: "unat (frame_number e) < 2 ^ 28" "16 * unat (frame_number e) + 16 \<le> length (physmem m)"
    and sl: "slot_ok (mswap m) e" using base by auto
  then have fu: "unat ?f = unat (frame_number e)" by (simp add: ucast_frame)
  show thesis
  proof (cases "swap_offset e = CSC369_INVALID_SWAP")
    case True
    obtain s sw where "s \<notin> bm_used (swapmap (mswap m))"
      "CSC369_SwapPageOut (mswap m) (physmem m) ?f CSC369_INVALID_SWAP = Inr (slot_offset s, sw)"
      "paged_out (mswap m) (frame_bytes (physmem m) (unat ?f)) s sw"
      by (rule SwapPageOut_new [OF base(1) card_used_slots [OF ok y(1) True room], of ?f "physmem m"])
        (use f fu in auto)
    then show thesis using that [of s sw] HandleEviction_eq [OF pe, of s sw] True fu by simp
  next
    case False
    then obtain s where s: "swap_offset e = slot_offset s" "s \<in> bm_used (swapmap (mswap m))"
      using sl by (auto simp: slot_ok_def has_slot_def)
    obtain sw where "CSC369_SwapPageOut (mswap m) (physmem m) ?f (slot_offset s) = Inr (slot_offset s, sw)"
      "paged_out (mswap m) (frame_bytes (physmem m) (unat ?f)) s sw"
      by (rule SwapPageOut_again [OF base(1) s(2), of ?f "physmem m"]) (use f fu in auto)
    then show thesis using that [of s sw] HandleEviction_eq [OF pe, of s sw] s fu by simp
  qed
qed

text \<open>What the eviction does to the pages: only the entry of the victim changes.\<close>

lemma evicted_page:
  assumes ok: "mm_ok {} m" and y: "page m y = Some e" "page_ptr m y = Some p" and sw: "swap_wf sw"
  shows "page_ptr (evicted p e s sw m) = page_ptr m"
    "page (evicted p e s sw m) = (page m)(y \<mapsto> evicted_pte e s)" "mm_base (evicted p e s sw m)"
proof -
  define m1 where "m1 = (count_evict (dirty e) m)\<lparr>mswap := sw\<rparr>"
  have pp: "page_ptr m1 = page_ptr m" and pg: "page m1 = page m"
    using page_cong [of m1 m] by (simp_all add: m1_def)
  have b: "mm_base m1" using mm_ok_base [OF ok] sw by (simp add: mm_base_def m1_def)
  have "page_table (evicted_pte e s) = page_table e" by (simp add: evicted_pte_def)
  from put_pte_page [OF b _ _ this, of y p] y pp pg
  show "page_ptr (evicted p e s sw m) = page_ptr m"
    "page (evicted p e s sw m) = (page m)(y \<mapsto> evicted_pte e s)" "mm_base (evicted p e s sw m)"
    by (simp_all add: evicted_def m1_def)
qed

lemma evicted_ok:
  assumes ok: "mm_ok {} m" and y: "page m y = Some e" "valid e" "\<not> reference e" "page_ptr m y = Some p"
    and out: "paged_out (mswap m) (frame_bytes (physmem m) (unat (frame_number e))) s sw"
    and s: "(swap_offset e = CSC369_INVALID_SWAP \<and> s \<notin> bm_used (swapmap (mswap m))) \<or>
      (swap_offset e = slot_offset s \<and> s \<in> bm_used (swapmap (mswap m)))"
  shows "mm_ok {unat (frame_number e)} (evicted p e s sw m)"
    "page_bytes (evicted p e s sw m) = page_bytes m"
proof -
  let ?m = "evicted p e s sw m" and ?f = "unat (frame_number e)"
  note out' = out [unfolded paged_out_def]
  have swf: "swap_wf sw" and s59: "s < 2 ^ 59"
    using out' slot_lt [of sw s] by auto
  have bmu: "bm_used (swapmap sw) = insert s (bm_used (swapmap (mswap m)))"
    and slen: "length (swapfile (mswap m)) \<le> length (swapfile sw)" using out' by auto
  note ev = evicted_page [OF ok y(1,4) swf, of s]
  have same: "frames ?m = frames m" "memsize ?m = memsize m" "used ?m = used m" "mswap ?m = sw"
    "physmem ?m = physmem m"
    by (simp_all add: evicted_def used_def)
  have pg: "page ?m xs = (if xs = y then Some (evicted_pte e s) else page m xs)" for xs
    using ev(2) by simp
  have lt: "t < 2 ^ 59" if "t \<in> bm_used (swapmap (mswap m))" for t
    using that slot_lt mm_ok_base [OF ok] by (auto simp: mm_base_def)
  have other: "swap_offset d \<noteq> slot_offset s" if xs: "page m xs = Some d" "xs \<noteq> y" for xs d
  proof
    assume d: "swap_offset d = slot_offset s"
    then have "swap_offset d \<noteq> CSC369_INVALID_SWAP" using slot_offset_valid [OF s59] by simp
    then obtain t where "has_slot (mswap m) d t"
      using mm_ok_page [OF ok xs(1)] by (auto simp: page_ok_def slot_ok_def)
    then have "s \<in> bm_used (swapmap (mswap m))"
      using d slot_offset_inj [OF s59, of t] lt by (auto simp: has_slot_def)
    then have "swap_offset e = swap_offset d" using s d by simp
    then show False using mm_ok_offset [OF ok y(1) xs(1)] xs(2) \<open>swap_offset d \<noteq> CSC369_INVALID_SWAP\<close> by simp
  qed
  have slot_mono: "has_slot sw d t" if "has_slot (mswap m) d t" for d t
    using that bmu slen by (auto simp: has_slot_def)
  show "mm_ok {?f} ?m"
  proof (rule mm_okI)
    show "mm_base ?m" by (rule ev(3))
    show "page_ok {?f} ?m xs d" if d: "page ?m xs = Some d" for xs d
    proof (cases "xs = y")
      case True
      then have "d = evicted_pte e s" using d pg by simp
      moreover have "has_slot sw (evicted_pte e s) s"
        using out' bmu by (simp add: has_slot_def evicted_pte_def)
      ultimately show ?thesis using y(3) by (auto simp: page_ok_def same slot_ok_def evicted_pte_def)
    next
      case False
      then have d': "page m xs = Some d" using d pg by simp
      have "unat (frame_number d) \<noteq> ?f" if "valid d"
        using frame_unique [OF ok d' that y(1,2)] False by blast
      then show ?thesis using mm_ok_page [OF ok d'] slot_mono
        by (auto simp: page_ok_def same slot_ok_def ev(1))
    qed
    show "\<exists>xs d. page ?m xs = Some d \<and> valid d \<and> unat (frame_number d) = i"
      if i: "i \<in> used ?m" "i \<notin> {?f}" for i
    proof -
      obtain xs d where d: "page m xs = Some d" "valid d" "unat (frame_number d) = i"
        using mm_ok_frame [OF ok, of i] i same by auto
      then have "xs \<noteq> y" using y(1) i(2) by auto
      then have "page ?m xs = Some d" using d pg by simp
      with d show ?thesis by blast
    qed
    show "xs = zs" if d: "page ?m xs = Some d" "page ?m zs = Some d'" "swap_offset d = swap_offset d'"
      "swap_offset d \<noteq> CSC369_INVALID_SWAP" for xs zs d d'
    proof -
      have y': "swap_offset c = slot_offset s" if "page ?m y = Some c" for c
        using that pg [of y] by (auto simp: evicted_pte_def)
      have o': "swap_offset c \<noteq> slot_offset s \<and> page m vs = Some c" if "page ?m vs = Some c" "vs \<noteq> y" for vs c
        using that pg [of vs] other by simp
      consider "xs = y" "zs = y" | "xs = y" "zs \<noteq> y" | "xs \<noteq> y" "zs = y" | "xs \<noteq> y" "zs \<noteq> y" by blast
      then show ?thesis
      proof cases
        case 4
        then show ?thesis using o' [OF d(1)] o' [OF d(2)] mm_ok_offset [OF ok _ _ d(3,4)] by blast
      qed (use y' o' d in \<open>metis+\<close>)
    qed
    show "\<exists>xs d. page ?m xs = Some d \<and> swap_offset d = slot_offset t"
      if t: "t \<in> bm_used (swapmap (mswap ?m))" for t
    proof (cases "t = s")
      case True
      have "page ?m y = Some (evicted_pte e s)" "swap_offset (evicted_pte e s) = slot_offset s"
        by (simp_all add: pg evicted_pte_def)
      with True show ?thesis by blast
    next
      case False
      then have tu: "t \<in> bm_used (swapmap (mswap m))" using t bmu same by auto
      obtain xs d where d: "page m xs = Some d" "swap_offset d = slot_offset t"
        using mm_ok_slot [OF ok tu] by blast
      have "xs \<noteq> y"
      proof
        assume "xs = y"
        then have "swap_offset e = slot_offset t" using d y(1) by simp
        then show False
          using s slot_offset_valid [OF lt [OF tu]] slot_offset_inj [OF lt [OF tu] s59] False by auto
      qed
      then have "page ?m xs = Some d" using d pg by simp
      with d show ?thesis by blast
    qed
  qed
  show "page_bytes ?m = page_bytes m"
  proof
    fix xs
    show "page_bytes ?m xs = page_bytes m xs"
    proof (cases "page m xs")
      case None
      then have "page ?m xs = None" using pg y(1) by auto
      with None show ?thesis by (simp add: page_bytes_def)
    next
      case (Some d)
      show ?thesis
      proof (cases "xs = y")
        case True
        then show ?thesis
          using y(1,2) pg out' slot_offset_unat [OF s59]
          by (simp add: page_bytes_def pte_bytes_def same evicted_pte_def slot_bytes_def)
      next
        case False
        have "pte_bytes ?m d = pte_bytes m d"
        proof (cases "valid d \<or> \<not> on_swap d")
          case False
          then obtain t where t: "has_slot (mswap m) d t"
            using mm_ok_page [OF ok Some] by (auto simp: page_ok_def slot_ok_def)
          then have "t \<noteq> s" "t < 2 ^ 59" using other [OF Some \<open>xs \<noteq> y\<close>] lt by (auto simp: has_slot_def)
          then show ?thesis using t False out' slot_offset_unat
            by (simp add: pte_bytes_def same has_slot_def slot_bytes_def)
        qed (auto simp: pte_bytes_def same)
        then show ?thesis using Some False pg by (simp add: page_bytes_def)
      qed
    qed
  qed
qed

section \<open>Filling a frame\<close>

definition filled_pte :: "csc369_pte \<Rightarrow> u64 \<Rightarrow> csc369_pte" where
  "filled_pte e v = (if on_swap e then e\<lparr>frame_number := v, on_swap := False, valid := True\<rparr>
     else e\<lparr>frame_number := v, dirty := True, valid := True\<rparr>)"

definition claimed :: "nat \<Rightarrow> addr \<Rightarrow> machine \<Rightarrow> machine" where
  "claimed f p m = m\<lparr>frames := (frames m)[f := \<lparr>free = False, pte = Some p\<rparr>]\<rparr>"

definition filled :: "addr \<Rightarrow> csc369_pte \<Rightarrow> u64 \<Rightarrow> byte list \<Rightarrow> machine \<Rightarrow> machine" where
  "filled p e v bs m = put_pte p (filled_pte e v)
     ((claimed (unat v) p m)\<lparr>physmem := splice_at (physmem m) (16 * unat v) bs\<rparr>)"

lemma claimed_simps [simp]:
  "heap (claimed f p m) = heap m" "mm_root (claimed f p m) = mm_root m"
  "frame_count (claimed f p m) = frame_count m" "mswap (claimed f p m) = mswap m"
  "physmem (claimed f p m) = physmem m" "memsize (claimed f p m) = memsize m"
  "stats (claimed f p m) = stats m" "rnd (claimed f p m) = rnd m"
  "policy_same m' (claimed f p m) = policy_same m' m"
  by (simp_all add: claimed_def policy_same_def)

lemma put_pte_physmem: "(put_pte p e m)\<lparr>physmem := x\<rparr> = put_pte p e (m\<lparr>physmem := x\<rparr>)"
  by (simp add: put_pte_def)

text \<open>The code of the fault after the frame was chosen, from the frame table to \<open>valid\<close>.\<close>

lemma fill_code:
  assumes base: "mm_base m" and x: "page m x = Some e" "page_ptr m x = Some p" "\<not> valid e"
    and f: "unat v < memsize m" and sl: "slot_ok (mswap m) e"
  shows "bindR (with_heap (CSC369_PTESetFrameNumber (Some p) v) (claimed (unat v) p m)) (\<lambda>m.
      bindR (fill_frame (Some p) v m) (\<lambda>m.
      bindR (with_heap (CSC369_PTESetValid (Some p) True) m) (\<lambda>m. Inr (v, m)))) =
    Inr (v, filled p e v (page_bytes m x) m)"
proof -
  let ?m0 = "claimed (unat v) p m"
  let ?m1 = "put_pte p (e\<lparr>frame_number := v\<rparr>) ?m0"
  have b: "length (physmem m) = 16 * memsize m" "memsize m \<le> 2 ^ 28" "swap_wf (mswap m)"
    using base by (auto simp: mm_base_def)
  have pe: "pte_mem (heap m) p = Some e" using page_SomeD [OF x(1)] x(2) by simp
  have m1: "with_heap (CSC369_PTESetFrameNumber (Some p) v) ?m0 = Inr ?m1"
    using with_heap_put(4) [of ?m0 p e v] pe by simp
  have fu: "unat v < 2 ^ 28" "16 * unat v + 16 \<le> length (physmem m)" using b f by auto
  have bytes: "page_bytes m x = pte_bytes m e" using x(1) by (simp add: page_bytes_def)
  have "bindR (fill_frame (Some p) v ?m1) (\<lambda>m. with_heap (CSC369_PTESetValid (Some p) True) m) =
      Inr (filled p e v (page_bytes m x) m)"
  proof (cases "on_swap e")
    case True
    then obtain s where s: "has_slot (mswap m) e s" using sl x(3) by (auto simp: slot_ok_def)
    then have s59: "s < 2 ^ 59" using slot_lt [OF b(3)] by (auto simp: has_slot_def)
    have "pte_bytes m e = slot_bytes (mswap m) s"
      using x(3) True s slot_offset_unat [OF s59] by (simp add: pte_bytes_def has_slot_def slot_bytes_def)
    moreover have "CSC369_SwapPageIn (mswap m) (physmem m) (ucast v) (swap_offset e) =
        Inr (0, splice_at (physmem m) (16 * unat v) (slot_bytes (mswap m) s))"
      using SwapPageIn_slot [OF s59, of "mswap m" "ucast v" "physmem m"] s fu
      by (simp add: has_slot_def ucast_frame)
    ultimately show ?thesis using True
      by (simp add: fill_frame_def pte_getter_defs with_heap_put put_pte_physmem filled_def filled_pte_def bytes)
  next
    case False
    have "unat (v * 16 :: u64) = 16 * unat v" using fu by (simp add: unat_word_ariths)
    then have "CSC369_CoremapClearFrame v ?m1 =
        Inr (?m1\<lparr>physmem := splice_at (physmem m) (16 * unat v) (replicate 16 0)\<rparr>)"
      using f fu by (simp add: CSC369_CoremapClearFrame_def Let_def)
    moreover have "pte_bytes m e = replicate 16 0" using x(3) False by (simp add: pte_bytes_def)
    ultimately show ?thesis using False
      by (simp add: fill_frame_def pte_getter_defs with_heap_put put_pte_physmem filled_def filled_pte_def bytes)
  qed
  then show ?thesis by (simp add: m1)
qed

lemma filled_ok:
  assumes ok: "mm_ok {unat v} m" and x: "page m x = Some e" "page_ptr m x = Some p" "\<not> valid e"
    and f: "unat v < memsize m"
  defines "m' \<equiv> filled p e v (page_bytes m x) m"
  shows "mm_ok {} m'" "page_bytes m' = page_bytes m" "page m' = (page m)(x \<mapsto> filled_pte e v)"
    "page_ptr m' = page_ptr m" "used m' = insert (unat v) (used m)"
proof -
  let ?f = "unat v" and ?bs = "page_bytes m x"
  define m1 where "m1 = (claimed ?f p m)\<lparr>physmem := splice_at (physmem m) (16 * ?f) ?bs\<rparr>"
  note base = mm_ok_base [OF ok] and xok = mm_ok_page [OF ok x(1)]
  have b: "length (frames m) = memsize m" "length (physmem m) = 16 * memsize m"
    using base by (auto simp: mm_base_def)
  have len: "length ?bs = 16"
  proof (cases "on_swap e")
    case True
    then obtain s where s: "has_slot (mswap m) e s" using xok x(3) by (auto simp: page_ok_def slot_ok_def)
    then have "s < 2 ^ 59" using slot_lt base by (auto simp: has_slot_def mm_base_def)
    then show ?thesis using x s True slot_offset_unat [of s]
      by (auto simp: page_bytes_def pte_bytes_def has_slot_def min_def)
  qed (use x in \<open>simp add: page_bytes_def pte_bytes_def\<close>)
  have pp1: "page_ptr m1 = page_ptr m" "page m1 = page m" using page_cong [of m1 m] by (simp_all add: m1_def)
  have base1: "mm_base m1" using base f len by (simp add: mm_base_def m1_def claimed_def)
  have pt: "page_table (filled_pte e v) = page_table e" by (simp add: filled_pte_def)
  have m': "m' = put_pte p (filled_pte e v) m1" by (simp add: m'_def filled_def m1_def)
  have px: "page_ptr m1 x = Some p" "page m1 x = Some e" using x pp1 by simp_all
  note put = put_pte_page [OF base1 px pt, folded m', unfolded pp1]
  show pg: "page m' = (page m)(x \<mapsto> filled_pte e v)" and pp: "page_ptr m' = page_ptr m"
    using put by simp_all
  show us: "used m' = insert ?f (used m)"
    using f b by (auto simp: m' m1_def used_def claimed_def nth_list_update)
  have eqs: "memsize m' = memsize m" "mswap m' = mswap m" "frames m' = (frames m)[?f := \<lparr>free = False, pte = Some p\<rparr>]"
    "physmem m' = splice_at (physmem m) (16 * ?f) ?bs"
    by (simp_all add: m' m1_def claimed_def)
  have fp: "valid (filled_pte e v)" "frame_number (filled_pte e v) = v" "\<not> on_swap (filled_pte e v)"
    "swap_offset (filled_pte e v) = swap_offset e"
    by (simp_all add: filled_pte_def)
  have pgx: "page m' xs = (if xs = x then Some (filled_pte e v) else page m xs)" for xs
    using pg by simp
  have vf: "unat (frame_number d) \<in> used m \<and> unat (frame_number d) \<noteq> ?f" if "page m xs = Some d" "valid d" for xs d
    using mm_ok_page [OF ok that(1)] that(2) by (simp add: page_ok_def)
  show "mm_ok {} m'"
  proof (rule mm_okI)
    show "mm_base m'" using put(3) .
    show "page_ok {} m' xs d" if d: "page m' xs = Some d" for xs d
    proof (cases "xs = x")
      case True
      then have "d = filled_pte e v" using d pgx by simp
      moreover have "slot_ok (mswap m) (filled_pte e v)"
        using xok x(3) fp by (auto simp: page_ok_def slot_ok_def has_slot_def)
      ultimately show ?thesis using fp f b us True x(2) pp by (simp add: page_ok_def eqs)
    next
      case False
      then have d': "page m xs = Some d" using d pgx by simp
      then show ?thesis using mm_ok_page [OF ok d'] vf [OF d'] us pp by (auto simp: page_ok_def eqs)
    qed
    show "\<exists>xs d. page m' xs = Some d \<and> valid d \<and> unat (frame_number d) = i" if i: "i \<in> used m'" for i
    proof (cases "i = ?f")
      case True
      then have "page m' x = Some (filled_pte e v) \<and> valid (filled_pte e v) \<and> unat (frame_number (filled_pte e v)) = i"
        using fp pgx [of x] by simp
      then show ?thesis by blast
    next
      case False
      then obtain xs d where d: "page m xs = Some d" "valid d" "unat (frame_number d) = i"
        using mm_ok_frame [OF ok, of i] i us by auto
      then have "xs \<noteq> x" using x by auto
      then have "page m' xs = Some d" using d pgx by simp
      with d show ?thesis by blast
    qed
    show "xs = ys" if d: "page m' xs = Some d" "page m' ys = Some d'" "swap_offset d = swap_offset d'"
      "swap_offset d \<noteq> CSC369_INVALID_SWAP" for xs ys d d'
    proof -
      have "\<exists>c. page m vs = Some c \<and> swap_offset c = swap_offset g" if "page m' vs = Some g" for vs g
        using that pgx [of vs] x(1) fp(4) by (cases "vs = x") auto
      from this [OF d(1)] this [OF d(2)] show ?thesis using mm_ok_offset [OF ok] d(3,4) by metis
    qed
    show "\<exists>xs d. page m' xs = Some d \<and> swap_offset d = slot_offset t"
      if t: "t \<in> bm_used (swapmap (mswap m'))" for t
    proof -
      obtain xs d where d: "page m xs = Some d" "swap_offset d = slot_offset t"
        using mm_ok_slot [OF ok, of t] t eqs by auto
      then show ?thesis using pgx [of xs] x(1) fp(4) by (cases "xs = x") auto
    qed
  qed
  show "page_bytes m' = page_bytes m"
  proof
    fix xs
    have fit: "16 * ?f + 16 \<le> length (physmem m)" using f b by simp
    show "page_bytes m' xs = page_bytes m xs"
    proof (cases "xs = x")
      case True
      have "pte_bytes m' (filled_pte e v) = ?bs"
        using fp frame_bytes_splice_same [OF fit len] by (simp add: pte_bytes_def eqs)
      then show ?thesis using True pgx [of x] by (simp add: page_bytes_def)
    next
      case False
      show ?thesis
      proof (cases "page m xs")
        case None
        then show ?thesis using False pgx [of xs] by (simp add: page_bytes_def)
      next
        case (Some d)
        then have "pte_bytes m' d = pte_bytes m d"
          using vf [OF Some] frame_bytes_splice_other [OF fit len] by (simp add: pte_bytes_def eqs)
        then show ?thesis using Some False pgx [of xs] by (simp add: page_bytes_def)
      qed
    qed
  qed
qed

section \<open>The states of the pages\<close>

lemma evicted_states:
  assumes ok: "mm_ok {} m" and y: "page m y = Some e" "valid e" "page_ptr m y = Some p"
    and sw: "swap_wf sw" "s \<in> bm_used (swapmap sw)"
    and s: "(swap_offset e = CSC369_INVALID_SWAP \<and> s \<notin> bm_used (swapmap (mswap m))) \<or>
      (swap_offset e = slot_offset s \<and> s \<in> bm_used (swapmap (mswap m)))"
  shows "state_of (evicted p e s sw m) = (state_of m)(y := Swapped (slot_offset s))"
    "page_step Evict (state_of m y) (Swapped (slot_offset s))"
proof -
  have "pte_state (evicted_pte e s) = Swapped (slot_offset s)" by (simp add: pte_state_def evicted_pte_def)
  then show "state_of (evicted p e s sw m) = (state_of m)(y := Swapped (slot_offset s))"
    using state_of_upd [OF evicted_page(2) [OF ok y(1,3) sw(1), of s]] by simp
  have "slot_offset s \<noteq> CSC369_INVALID_SWAP" using slot_offset_valid slot_lt [OF sw] by blast
  then show "page_step Evict (state_of m y) (Swapped (slot_offset s))"
    using s y(1,2) page_step.intros(4,5) by (auto simp: state_of_def pte_state_def slot_of_def)
qed

lemma filled_states:
  assumes x: "page_ok H m x e" "page m x = Some e" "\<not> valid e"
    and sw: "swap_wf (mswap m)" and m': "page m' = (page m)(x \<mapsto> filled_pte e v)"
  shows "state_of m' = (state_of m)(x := filled_state (state_of m x))"
proof -
  have sl: "slot_ok (mswap m) e" "\<not> dirty e" using x(1,3) by (simp_all add: page_ok_def)
  have "pte_state (filled_pte e v) = filled_state (pte_state e)"
  proof (cases "on_swap e")
    case True
    then obtain s where "has_slot (mswap m) e s" using sl(1) x(3) by (auto simp: slot_ok_def)
    then have "swap_offset e \<noteq> CSC369_INVALID_SWAP"
      using slot_offset_valid slot_lt [OF sw] by (auto simp: has_slot_def)
    then show ?thesis using True x(3) sl(2) by (simp add: pte_state_def filled_pte_def slot_of_def)
  next
    case False
    then have "swap_offset e = CSC369_INVALID_SWAP" using sl(1) x(3) by (auto simp: slot_ok_def)
    then show ?thesis using False x(3) by (simp add: pte_state_def filled_pte_def slot_of_def)
  qed
  then show ?thesis using state_of_upd [OF m'] x(2) by (simp add: state_of_def)
qed

end
