(* ===== verification/MMRefine.thy ===== *)
theory MMRefine
  imports MMSteps
begin

text \<open>
  \<open>CSC369_MMGetFrameNumber\<close> under any replacement policy that keeps the contract: it always
  returns, the page of the access is resident in the frame it returns, and no page's bytes
  change.
\<close>

section \<open>The search for a free frame\<close>

lemma FindFreeFrame_spec:
  assumes "length (frames m) = memsize m" "frame_count m = memsize m"
  shows "(\<exists>i. FindFreeFrame m = Inr (Some i) \<and> i < memsize m \<and> i \<notin> used m \<and> (\<forall>j < i. j \<in> used m)) \<or>
    (FindFreeFrame m = Inr None \<and> used m = {..<memsize m})"
proof (cases "\<exists>j. j < memsize m \<and> free (frames m ! j)")
  case True
  define i where "i = (LEAST j. j < memsize m \<and> free (frames m ! j))"
  have "i < memsize m \<and> free (frames m ! i)" unfolding i_def using True by (rule LeastI_ex)
  moreover have "\<not> (j < memsize m \<and> free (frames m ! j))" if "j < i" for j
    using that not_less_Least unfolding i_def by blast
  moreover have "FindFreeFrame m = Inr (Some i)"
    using find_free_from_spec [of m 0] assms True by (simp add: FindFreeFrame_def i_def)
  ultimately have "FindFreeFrame m = Inr (Some i) \<and> i < memsize m \<and> i \<notin> used m \<and> (\<forall>j < i. j \<in> used m)"
    using less_trans unfolding used_def by blast
  then show ?thesis by blast
next
  case False
  then have "used m = {..<memsize m}" by (auto simp: used_def)
  moreover have "FindFreeFrame m = Inr None"
    using find_free_from_spec [of m 0] assms False by (simp add: FindFreeFrame_def)
  ultimately show ?thesis by simp
qed

section \<open>What a step keeps\<close>

definition kept :: "machine \<Rightarrow> machine \<Rightarrow> bool" where
  "kept m m' \<longleftrightarrow> memsize m' = memsize m \<and> rnd m' = rnd m \<and> mm_root m' = mm_root m \<and>
     nbits (swapmap (mswap m')) = nbits (swapmap (mswap m))"

lemma kept_trans: "kept m m1 \<Longrightarrow> kept m1 m2 \<Longrightarrow> kept m m2"
  by (simp add: kept_def)

lemma kept_put [simp]: "kept m (put_pte p e m1) = kept m m1"
  by (simp add: kept_def)

lemma core_eq_kept: "core_eq m m' \<Longrightarrow> kept m m'"
  by (simp add: core_eq_def kept_def)

lemma frame_ref_cong:
  assumes "heap m' = heap m" "pte (frames m' ! i) = pte (frames m ! i)"
  shows "frame_ref m' i = frame_ref m i"
  unfolding frame_ref_def assms by simp

lemma frame_ref_put:
  "pte_mem (heap m) p = Some e \<Longrightarrow> reference d = reference e \<Longrightarrow>
   frame_ref (put_pte p d m) i = frame_ref m i"
  by (auto simp: frame_ref_def split: option.splits)

context replacement_policy begin

lemma choose_frame_ok:
  assumes ok: "mm_ok {} m" and pol: "inv (used m) m"
    and room: "finite T" "dom (page m) \<subseteq> T" "card T \<le> unat (nbits (swapmap (mswap m)))"
  obtains v m' where "choose_frame evict m = Inr (v, m')" "unat v < memsize m" "mm_ok {unat v} m'"
    "inv (used m - {unat v}) m'" "page_bytes m' = page_bytes m" "page_ptr m' = page_ptr m"
    "dom (page m') = dom (page m)" "\<forall>xs e. page m xs = Some e \<and> \<not> valid e \<longrightarrow>
       (\<exists>d. page m' xs = Some d \<and> \<not> valid d)"
    "used m' = used m" "kept m m'" "km (heap m') = km (heap m)"
    "ref_count (stats m') = ref_count (stats m)" "hit_count (stats m') = hit_count (stats m)"
    "miss_count (stats m') = miss_count (stats m)"
    "one_evicted (all_used m) (state_of m) (state_of m')"
    "of_nat (card (insert (unat v) (used m))) + evictions m' = occupancy m + 1"
    "chosen evict m v m'" "frame_of m' = vacate (unat v) (frame_of m)"
proof -
  have base: "length (frames m) = memsize m" "frame_count m = memsize m" "0 < memsize m" "memsize m \<le> 2 ^ 28"
    using mm_ok_base [OF ok] by (auto simp: mm_base_def)
  from FindFreeFrame_spec [OF base(1,2)] consider
    (free) i where "FindFreeFrame m = Inr (Some i)" "i < memsize m" "i \<notin> used m" "\<forall>j < i. j \<in> used m"
    | (full) "FindFreeFrame m = Inr None" "used m = {..<memsize m}" by blast
  then show thesis
  proof cases
    case free
    have "unat (of_nat i :: u64) = i" using free base by (intro unat_of_nat_u64) simp
    moreover have "used m - {i} = used m" using free by auto
    moreover have "one_evicted (all_used m) (state_of m) (state_of m)"
      using free by (auto simp: one_evicted_def all_used_def)
    moreover have "of_nat (card (insert i (used m))) + evictions m = occupancy m + 1"
      using free(3) by (simp add: occupancy_def)
    moreover have "chosen evict m (of_nat i) m"
    proof -
      have "(LEAST j. j < memsize m \<and> j \<notin> used m) = i"
        using free(2-4) by (intro Least_equality) (auto simp: not_less [symmetric])
      moreover have "\<not> all_used m" using free(2,3) by (auto simp: all_used_def)
      ultimately show ?thesis using \<open>unat (of_nat i :: u64) = i\<close> by (simp add: chosen_def)
    qed
    moreover have "frame_of m = vacate i (frame_of m)" using vacate_free [OF ok] free(3) by simp
    ultimately show ?thesis
      using that [of "of_nat i" m] free mm_ok_free [OF ok free(3)] pol
      by (simp add: choose_frame_def kept_def)
  next
    case full
    obtain v m1 where e: "evict m = Inr (v, m1)" "unat v < memsize m" "core_eq m m1"
      "inv ({..<memsize m} - {unat v}) m1" "\<not> frame_ref m1 (unat v)"
      using evict_ok [OF mm_ok_frames_ok [OF ok] base(3,4) full(2)] pol full(2) by auto
    have sv: "same_view m m1" using core_eq_view [OF e(3) ok] .
    have ok1: "mm_ok {} m1" using same_view_ok [OF sv ok] .
    note c = e(3) [unfolded core_eq_def]
    have "unat v \<in> used m1" using e(2) full(2) same_view_used [OF sv] by simp
    then obtain y d where y: "page m1 y = Some d" "valid d" "unat (frame_number d) = unat v"
      using mm_ok_frame [OF ok1] by blast
    then obtain p where p: "page_ptr m1 y = Some p" "pte_mem (heap m1) p = Some d"
      "pte (frames m1 ! unat v) = Some p"
      using page_SomeD [OF y(1)] mm_ok_page [OF ok1 y(1)] by (auto simp: page_ok_def)
    have nr: "\<not> reference d" using frame_ref_page [OF ok1 y(1,2)] e(5) y(3) by simp
    have room1: "dom (page m1) \<subseteq> T" "card T \<le> unat (nbits (swapmap (mswap m1)))"
      using room same_view_dom [OF sv] c by simp_all
    obtain s sw where h: "CSC369_MMHandleEviction (Some p) m1 = Inr (evicted p d s sw m1)"
      "paged_out (mswap m1) (frame_bytes (physmem m1) (unat (frame_number d))) s sw"
      "(swap_offset d = CSC369_INVALID_SWAP \<and> s \<notin> bm_used (swapmap (mswap m1))) \<or>
       (swap_offset d = slot_offset s \<and> s \<in> bm_used (swapmap (mswap m1)))"
      using evict_page_out [OF ok1 y(1,2) p(1) room(1) room1] by metis
    let ?m2 = "evicted p d s sw m1"
    have swf: "swap_wf sw" and nb: "nbits (swapmap sw) = nbits (swapmap (mswap m1))"
      using h(2) by (simp_all add: paged_out_def)
    note ev = evicted_page [OF ok1 y(1) p(1) swf, of s]
      and eok = evicted_ok [OF ok1 y(1,2) nr p(1) h(2,3)]
    have fr: "frame_ref ?m2 i = frame_ref m1 i" for i
    proof -
      let ?m1 = "(count_evict (dirty d) m1)\<lparr>mswap := sw\<rparr>"
      have "frame_ref ?m2 i = frame_ref ?m1 i"
        unfolding evicted_def by (rule frame_ref_put [of _ _ d]) (simp_all add: p evicted_pte_def)
      also have "\<dots> = frame_ref m1 i" by (rule frame_ref_cong) simp_all
      finally show ?thesis .
    qed
    have ps: "policy_same m1 ?m2" by (simp add: evicted_def) (simp add: policy_same_def)
    have "inv (used m - {unat v}) ?m2"
      unfolding full(2) by (rule inv_cong [OF e(4) ps]) (rule fr)
    moreover have "chosen evict m v ?m2"
    proof -
      have "policy_view (used m - {unat v}) m1 ?m2" using ps fr by (simp add: policy_view_def)
      then show ?thesis
        unfolding chosen_def all_used_def if_P [OF full(2)]
        by (intro exI [of _ m] exI [of _ m1] conjI) (rule mm_ok_frames_ok [OF ok] policy_view_refl refl e(1) | assumption)+
    qed
    moreover have "frame_of ?m2 = vacate (unat v) (frame_of m)"
    proof -
      have "frame_of m1 y = Some (unat v)" using y by (simp add: frame_of_def)
      from vacate_one [OF ok1 this] frame_of_upd [OF ev(2)] show ?thesis
        unfolding frame_of_view [OF sv] by (simp add: pte_frame_def evicted_pte_def)
    qed
    moreover have "choose_frame evict m = Inr (v, ?m2)"
      using full(1) e(1,2) c base(1) p(3) h(1) by (simp add: choose_frame_def)
    moreover have "\<forall>xs a. page m xs = Some a \<and> \<not> valid a \<longrightarrow> (\<exists>d'. page ?m2 xs = Some d' \<and> \<not> valid d')"
    proof (intro allI impI)
      fix xs a assume x: "page m xs = Some a \<and> \<not> valid a"
      obtain b where b: "page m1 xs = Some b" "same_entry a b" using same_view_page2 [OF sv] x by blast
      then have "xs \<noteq> y" using y x by (auto simp: same_entry_def)
      then have "page ?m2 xs = Some b" "\<not> valid b" using b x ev(2) by (simp_all add: same_entry_def)
      then show "\<exists>d'. page ?m2 xs = Some d' \<and> \<not> valid d'" by blast
    qed
    moreover have "used ?m2 = used m"
      using same_view_used [OF sv] by (simp add: evicted_def used_def)
    moreover have "kept m ?m2" using c nb by (simp add: evicted_def kept_def)
    moreover have "page_bytes ?m2 = page_bytes m" using eok(2) same_view_bytes [OF sv] by simp
    moreover have "page_ptr ?m2 = page_ptr m" using ev(1) sv by (simp add: same_view_def)
    moreover have "dom (page ?m2) = dom (page m)"
      using y(1) same_view_dom [OF sv] unfolding ev(2) by auto
    moreover have "mm_ok {unat v} ?m2" using eok(1) y(3) by simp
    moreover have "km (heap ?m2) = km (heap m)" "ref_count (stats ?m2) = ref_count (stats m)"
      "hit_count (stats ?m2) = hit_count (stats m)" "miss_count (stats ?m2) = miss_count (stats m)"
      using c by (simp_all add: evicted_def)
    moreover have "one_evicted (all_used m) (state_of m) (state_of ?m2)"
    proof -
      have "s \<in> bm_used (swapmap sw)" using h(2) by (simp add: paged_out_def)
      note es = evicted_states [OF ok1 y(1,2) p(1) swf this h(3)]
      have "page_step Evict (state_of m y) (Swapped (slot_offset s)) \<and>
          state_of ?m2 = (state_of m)(y := Swapped (slot_offset s))"
        using es unfolding core_eq_state [OF e(3) ok] by blast
      then show ?thesis using full(2) unfolding one_evicted_def all_used_def by (simp only: if_True simp_thms) blast
    qed
    moreover have "of_nat (card (insert (unat v) (used m))) + evictions ?m2 = occupancy m + 1"
    proof -
      have "insert (unat v) (used m) = used m" using e(2) full(2) by auto
      moreover have "evictions ?m2 = evictions m + 1" using c by (simp add: evicted_def) (simp add: evictions_def)
      ultimately show ?thesis by (simp add: occupancy_def)
    qed
    ultimately show ?thesis using e(2) by - (rule that [of v ?m2], assumption+)
  qed
qed

text \<open>A page fault brings the page into a frame.\<close>

lemma fault_ok:
  assumes ok: "mm_ok {} m" and pol: "inv (used m) m"
    and room: "finite T" "dom (page m) \<subseteq> T" "card T \<le> unat (nbits (swapmap (mswap m)))"
    and x: "page m x = Some e" "\<not> valid e" "page_ptr m x = Some p"
  obtains v m' where "bindR (CSC369_CoremapAllocateFrame evict (Some p) m) (\<lambda>(fnum, m).
      bindR (with_heap (CSC369_PTESetFrameNumber (Some p) fnum) m) (\<lambda>m.
      bindR (fill_frame (Some p) fnum m) (\<lambda>m.
      bindR (with_heap (CSC369_PTESetValid (Some p) True) m) (\<lambda>m. Inr (fnum, m))))) = Inr (v, m')"
    "mm_ok {} m'" "\<exists>d. page m' x = Some d \<and> valid d \<and> frame_number d = v" "page_ptr m' = page_ptr m"
    "page_bytes m' = page_bytes m" "dom (page m') = dom (page m)" "used m' = insert (unat v) (used m)"
    "inv (used m - {unat v}) m'" "\<not> frame_ref m' (unat v)" "kept m m'" "km (heap m') = km (heap m)"
    "ref_count (stats m') = ref_count (stats m)" "hit_count (stats m') = hit_count (stats m)"
    "miss_count (stats m') = miss_count (stats m)"
    "fault_effect (all_used m) x (state_of m) (state_of m')"
    "occupancy m' = occupancy m + 1"
    "chosen evict m v m'" "frame_of m' = (vacate (unat v) (frame_of m))(x \<mapsto> unat v)"
proof -
  obtain v m1 where c: "choose_frame evict m = Inr (v, m1)" "unat v < memsize m" "mm_ok {unat v} m1"
    "inv (used m - {unat v}) m1" "page_bytes m1 = page_bytes m" "page_ptr m1 = page_ptr m"
    "dom (page m1) = dom (page m)"
    "\<forall>xs e. page m xs = Some e \<and> \<not> valid e \<longrightarrow> (\<exists>d. page m1 xs = Some d \<and> \<not> valid d)"
    "used m1 = used m" "kept m m1" "km (heap m1) = km (heap m)"
    "ref_count (stats m1) = ref_count (stats m)" "hit_count (stats m1) = hit_count (stats m)"
    "miss_count (stats m1) = miss_count (stats m)"
    "one_evicted (all_used m) (state_of m) (state_of m1)"
    "of_nat (card (insert (unat v) (used m))) + evictions m1 = occupancy m + 1"
    "chosen evict m v m1" "frame_of m1 = vacate (unat v) (frame_of m)"
    using choose_frame_ok [OF ok pol room] by blast
  obtain d where d: "page m1 x = Some d" "\<not> valid d" using c(8) x(1,2) by blast
  have px: "page_ptr m1 x = Some p" using x(3) c(6) by simp
  have pd: "pte_mem (heap m1) p = Some d" using page_SomeD [OF d(1)] px by simp
  have vm: "unat v < memsize m1" using c(2,10) by (simp add: kept_def)
  have len: "length (frames m1) = memsize m1" using mm_ok_base [OF c(3)] by (simp add: mm_base_def)
  have nr: "\<not> reference d" "slot_ok (mswap m1) d" using mm_ok_page [OF c(3) d(1)] d(2) by (simp_all add: page_ok_def)
  let ?m' = "filled p d v (page_bytes m1 x) m1"
  have upd: "f\<lparr>free := False, pte := Some p\<rparr> = \<lparr>free = False, pte = Some p\<rparr>" for f :: csc369_frame
    by (cases f) simp
  then have alloc: "CSC369_CoremapAllocateFrame evict (Some p) m = Inr (v, claimed (unat v) p m1)"
    using c(1) vm len
    by (simp add: CSC369_CoremapAllocateFrame_def claimed_def upd)
  note code = fill_code [OF mm_ok_base [OF c(3)] d(1) px d(2) vm nr(2)]
  note fill = filled_ok [OF c(3) d(1) px d(2) vm]
  let ?c = "(claimed (unat v) p m1)\<lparr>physmem := splice_at (physmem m1) (16 * unat v) (page_bytes m1 x)\<rparr>"
  have rf: "reference (filled_pte d v) = reference d" by (simp add: filled_pte_def)
  have fr: "frame_ref ?m' i = frame_ref m1 i" if "i \<in> used m - {unat v}" for i
  proof -
    have "frame_ref ?m' i = frame_ref ?c i"
      unfolding filled_def by (rule frame_ref_put [of _ _ d]) (simp_all add: pd rf)
    also have "\<dots> = frame_ref m1 i"
      by (rule frame_ref_cong) (use that in \<open>simp_all add: claimed_def\<close>)
    finally show ?thesis .
  qed
  have ex: "page ?m' x = Some (filled_pte d v)" using fill(3) by simp
  have fp: "valid (filled_pte d v)" "frame_number (filled_pte d v) = v" by (simp_all add: filled_pte_def)
  have ps: "policy_same m1 ?m'" by (simp add: filled_def) (simp add: policy_same_def claimed_def)
  show thesis
  proof (rule that [of v ?m'])
    show "inv (used m - {unat v}) ?m'" by (rule inv_cong [OF c(4) ps]) (rule fr)
    show "chosen evict m v ?m'" by (rule chosen_same [OF c(17)]) (simp add: policy_view_def ps fr)
    show "frame_of ?m' = (vacate (unat v) (frame_of m))(x \<mapsto> unat v)"
      using frame_of_upd [OF fill(3)] fp by (simp add: c(18) pte_frame_def)
    show "\<not> frame_ref ?m' (unat v)"
      using frame_ref_page [OF fill(1) ex fp(1)] fp(2) rf nr(1) by simp
    show "dom (page ?m') = dom (page m)" using fill(3) c(7) d(1) by auto
    show "kept m ?m'" using c(10) by (simp add: filled_def kept_def)
    show "\<exists>d. page ?m' x = Some d \<and> valid d \<and> frame_number d = v" using ex fp by blast
    have "\<not> in_frame (state_of m x)" using x(1,2) by (simp add: in_frame_state)
    then have "state_of m1 x = state_of m x" by (rule one_evicted_other [OF c(15)])
    moreover have "swap_wf (mswap m1)" using mm_ok_base [OF c(3)] by (simp add: mm_base_def)
    ultimately have "state_of ?m' = (state_of m1)(x := filled_state (state_of m x))"
      using filled_states [OF mm_ok_page [OF c(3) d(1)] d(1,2) _ fill(3)] by simp
    with c(15) show "fault_effect (all_used m) x (state_of m) (state_of ?m')"
      unfolding fault_effect_def by blast
    show "occupancy ?m' = occupancy m + 1"
      using c(16) unfolding occupancy_def [of ?m'] fill(5) c(9) by (simp add: filled_def claimed_def)
  qed (use alloc code fill c in \<open>simp_all add: filled_def\<close>)
qed

end

section \<open>The page-table step\<close>

definition resident :: "machine \<Rightarrow> nat list \<Rightarrow> bool" where
  "resident m xs \<longleftrightarrow> (case page m xs of None \<Rightarrow> False | Some e \<Rightarrow> valid e)"

lemma init_pte_simps [simp]:
  "\<not> valid init_pte" "\<not> on_swap init_pte" "\<not> reference init_pte" "\<not> dirty init_pte" "swap_offset init_pte = CSC369_INVALID_SWAP"
  by (simp_all add: init_pte_def CSC369_INVALID_SWAP_def)

lemma new_entry_ok:
  assumes ok: "mm_ok {} m" and base: "mm_base m'" and none: "page m x = None"
    and pg: "page m' = (page m)(x \<mapsto> init_pte)"
    and pp: "\<And>xs. xs \<noteq> x \<Longrightarrow> page_ptr m' xs = page_ptr m xs"
    and eqs: "frames m' = frames m" "memsize m' = memsize m" "mswap m' = mswap m" "physmem m' = physmem m"
  shows "mm_ok {} m'" "page_bytes m' = page_bytes m"
proof -
  have us: "used m' = used m" by (simp add: used_def eqs)
  have pgx: "page m' xs = (if xs = x then Some init_pte else page m xs)" for xs using pg by simp
  have keep: "page m' xs = Some d" if "page m xs = Some d" for xs d using that none pgx by auto
  show "mm_ok {} m'"
  proof (rule mm_okI)
    show "page_ok {} m' xs d" if d: "page m' xs = Some d" for xs d
    proof (cases "xs = x")
      case True
      then have "d = init_pte" using d pgx by simp
      then show ?thesis by (simp add: page_ok_def slot_ok_def)
    next
      case False
      then have "page m xs = Some d" using d pgx by simp
      then show ?thesis using mm_ok_page [OF ok] pp [OF False] by (simp add: page_ok_def us eqs)
    qed
    show "\<exists>xs d. page m' xs = Some d \<and> valid d \<and> unat (frame_number d) = i" if "i \<in> used m'" for i
      using mm_ok_frame [OF ok, of i] that us keep by blast
    show "xs = ys" if d: "page m' xs = Some d" "page m' ys = Some d'" "swap_offset d = swap_offset d'"
      "swap_offset d \<noteq> CSC369_INVALID_SWAP" for xs ys d d'
    proof -
      have "xs \<noteq> x" "ys \<noteq> x" using d pgx by auto
      then show ?thesis using mm_ok_offset [OF ok _ _ d(3,4)] d(1,2) pgx by simp
    qed
    show "\<exists>xs d. page m' xs = Some d \<and> swap_offset d = slot_offset t"
      if "t \<in> bm_used (swapmap (mswap m'))" for t
      using mm_ok_slot [OF ok, of t] that eqs keep by metis
  qed (rule base)
  show "page_bytes m' = page_bytes m"
  proof
    fix xs
    show "page_bytes m' xs = page_bytes m xs"
    proof (cases "xs = x")
      case True
      then show ?thesis using none pgx [of x] by (simp add: page_bytes_def pte_bytes_def)
    next
      case False
      then have e: "page m' xs = page m xs" using pgx by simp
      show ?thesis unfolding page_bytes_def pte_bytes_def eqs e by simp
    qed
  qed
qed

lemma alloc_entry_ok:
  assumes ok: "mm_ok {} m" and va: "unat va < 2 ^ 48"
    and quota: "page m (page_path va) = None \<Longrightarrow> bytes_malloced (km (heap m)) + pt_alloc_bytes \<le> 2 ^ 31"
  obtains p h where "CSC369_PageTableAllocate (mm_root m) va (heap m) = Inr (Some p, h)"
    "mm_ok {} (m\<lparr>heap := h\<rparr>)" "page_ptr (m\<lparr>heap := h\<rparr>) (page_path va) = Some p"
    "page (m\<lparr>heap := h\<rparr>) = (page m)(page_path va \<mapsto>
       (case page m (page_path va) of None \<Rightarrow> init_pte | Some e \<Rightarrow> e))"
    "page_bytes (m\<lparr>heap := h\<rparr>) = page_bytes m"
    "bytes_malloced (km h) \<le> bytes_malloced (km (heap m)) +
       (if page m (page_path va) = None then pt_alloc_bytes else 0)"
    "\<And>i. i \<in> used m \<Longrightarrow> frame_ref (m\<lparr>heap := h\<rparr>) i = frame_ref m i"
proof -
  obtain r where r: "mm_root m = Some r" "pt_wf (heap m) r"
    using mm_ok_base [OF ok] by (auto simp: mm_base_def)
  let ?x = "page_path va"
  have lx: "length ?x = 3" by simp
  have pp: "page_ptr m xs = (if length xs = 3 then pte_at (heap m) r xs else None)" for xs
    using r by (simp add: page_ptr_def)
  show thesis
  proof (cases "page m ?x")
    case (Some e)
    then obtain p where p: "page_ptr m ?x = Some p" using page_SomeD by blast
    then have "CSC369_PageTableAllocate (mm_root m) va (heap m) = Inr (Some p, heap m)"
      using PageTableAllocate_hit [OF r(2), of va p] pp r(1) lx by simp
    moreover have "m\<lparr>heap := heap m\<rparr> = m" by (cases m) simp
    ultimately show ?thesis using that [of p "heap m"] ok p Some by (simp add: fun_upd_idem)
  next
    case None
    then have "page_ptr m ?x = None"
      using page_ptr_dom [OF mm_ok_base [OF ok], of ?x] by (cases "page_ptr m ?x") auto
    then have nat: "pte_at (heap m) r ?x = None" using pp [of ?x] lx by simp
    obtain p h where a: "CSC369_PageTableAllocate (Some r) va (heap m) = Inr (Some p, h)" "pt_wf h r"
      "pte_at h r ?x = Some p" "\<forall>xs. length xs = 3 \<and> xs \<noteq> ?x \<longrightarrow> pte_at h r xs = pte_at (heap m) r xs"
      "\<forall>xs q. length xs = 3 \<and> pte_at (heap m) r xs = Some q \<longrightarrow> pte_mem h q = pte_mem (heap m) q"
      "pte_at (heap m) r ?x = None \<longrightarrow> pte_mem h p = Some init_pte"
      "bytes_malloced (km h) \<le> bytes_malloced (km (heap m)) + pt_alloc_bytes"
      by (rule PageTableAllocate_spec [OF r(2) va quota [OF None]])
    let ?m = "m\<lparr>heap := h\<rparr>"
    have pp': "page_ptr ?m xs = (if length xs = 3 then pte_at h r xs else None)" for xs
      using r by (simp add: page_ptr_def)
    have px: "page_ptr ?m ?x = Some p" using a(3) pp' lx by simp
    have keep: "page_ptr ?m xs = page_ptr m xs" if "xs \<noteq> ?x" for xs
      using a(4) that pp pp' by simp
    have pg: "page ?m = (page m)(?x \<mapsto> init_pte)"
    proof
      fix xs
      show "page ?m xs = ((page m)(?x \<mapsto> init_pte)) xs"
      proof (cases "xs = ?x")
        case True
        then show ?thesis using px a(6) nat by (simp add: page_def)
      next
        case False
        have "page ?m xs = page m xs"
        proof (cases "page_ptr m xs")
          case None
          then show ?thesis using keep [OF False] by (simp add: page_def)
        next
          case (Some q)
          then have "pte_mem h q = pte_mem (heap m) q" using a(5) pp [of xs] by (auto split: if_splits)
          then show ?thesis using keep [OF False] Some by (simp add: page_def)
        qed
        with False show ?thesis by simp
      qed
    qed
    have base: "mm_base ?m" using mm_ok_base [OF ok] r a(2) by (simp add: mm_base_def)
    note new = new_entry_ok [OF ok base None pg keep]
    have fr: "frame_ref ?m i = frame_ref m i" if i: "i \<in> used m" for i
    proof -
      obtain xs e where e: "page m xs = Some e" "valid e" "unat (frame_number e) = i"
        using mm_ok_frame [OF ok i] by auto
      then have "xs \<noteq> ?x" using None by auto
      then have "page ?m xs = Some e" using e(1) pg by simp
      then show ?thesis
        using frame_ref_page [OF ok e(1,2)] frame_ref_page [OF new(1), of xs e] e by simp
    qed
    show ?thesis
      by (rule that [of p h]) (use a(1,7) r new px pg None fr in simp_all)
  qed
qed

end
