(* ===== verification/MMTranslate.thy ===== *)
theory MMTranslate
  imports MMRefine
begin

text \<open>
  \<open>CSC369_MMGetFrameNumber\<close> as a whole: the page-table step, the fault when the page is not
  resident, and the dirty bit of a write.
\<close>

definition fault_code ::
  "(machine \<Rightarrow> (u64 \<times> machine) res) \<Rightarrow> ptr \<Rightarrow> machine \<Rightarrow> (u64 \<times> machine) res" where
  "fault_code evict p m =
     bindR (CSC369_CoremapAllocateFrame evict p m) (\<lambda>(fnum, m).
     bindR (with_heap (CSC369_PTESetFrameNumber p fnum) m) (\<lambda>m.
     bindR (fill_frame p fnum m) (\<lambda>m.
     bindR (with_heap (CSC369_PTESetValid p True) m) (\<lambda>m.
     Inr (fnum, m)))))"

definition count_miss :: "machine \<Rightarrow> machine" where
  "count_miss m = m\<lparr>stats := stats m\<lparr>miss_count := miss_count (stats m) + 1\<rparr>\<rparr>"

definition count_hit :: "machine \<Rightarrow> machine" where
  "count_hit m = m\<lparr>stats := stats m\<lparr>hit_count := hit_count (stats m) + 1\<rparr>\<rparr>"

definition count_ref :: "machine \<Rightarrow> machine" where
  "count_ref m = m\<lparr>stats := stats m\<lparr>ref_count := ref_count (stats m) + 1\<rparr>\<rparr>"

lemma stats_simps [simp]:
  "heap (m\<lparr>stats := s\<rparr>) = heap m" "mm_root (m\<lparr>stats := s\<rparr>) = mm_root m"
  "used (m\<lparr>stats := s\<rparr>) = used m" "page_ptr (m\<lparr>stats := s\<rparr>) = page_ptr m"
  "page (m\<lparr>stats := s\<rparr>) = page m" "mm_base (m\<lparr>stats := s\<rparr>) = mm_base m"
  "frame_ref (m\<lparr>stats := s\<rparr>) i = frame_ref m i" "kept m' (m\<lparr>stats := s\<rparr>) = kept m' m"
  "policy_same m' (m\<lparr>stats := s\<rparr>) = policy_same m' m"
  using page_cong [of "m\<lparr>stats := s\<rparr>" m] frame_ref_cong [of "m\<lparr>stats := s\<rparr>" m i]
  by (simp_all add: used_def mm_base_def kept_def policy_same_def)

lemma stats_view: "mm_base m \<Longrightarrow> same_view m (m\<lparr>stats := s\<rparr>)"
  by (simp add: same_view_def option.rel_refl same_entry_def)

lemma stats_ok [simp]: "mm_ok H (m\<lparr>stats := s\<rparr>) = mm_ok H m"
proof
  assume a: "mm_ok H (m\<lparr>stats := s\<rparr>)"
  then have "mm_base (m\<lparr>stats := s\<rparr>)" by (rule mm_ok_base)
  then have "same_view (m\<lparr>stats := s\<rparr>) ((m\<lparr>stats := s\<rparr>)\<lparr>stats := stats m\<rparr>)" by (rule stats_view)
  moreover have "(m\<lparr>stats := s\<rparr>)\<lparr>stats := stats m\<rparr> = m" by (cases m) simp
  ultimately show "mm_ok H m" using same_view_ok [OF _ a] by metis
next
  assume "mm_ok H m"
  then show "mm_ok H (m\<lparr>stats := s\<rparr>)" using same_view_ok stats_view mm_ok_base by blast
qed

lemma stats_bytes [simp]: "page_bytes (m\<lparr>stats := s\<rparr>) = page_bytes m"
  by (rule page_bytes_cong) simp_all

lemma stats_states [simp]:
  "state_of (m\<lparr>stats := s\<rparr>) = state_of m" "all_used (m\<lparr>stats := s\<rparr>) = all_used m"
  by (simp_all add: state_of_def all_used_def fun_eq_iff)

lemma count_states [simp]:
  "state_of (count_miss m) = state_of m" "state_of (count_ref m) = state_of m"
  "all_used (count_miss m) = all_used m" "occupancy (count_miss m) = occupancy m"
  "occupancy (m\<lparr>stats := stats m\<lparr>miss_count := c\<rparr>\<rparr>) = occupancy m"
  "occupancy (count_ref m) = occupancy m"
  by (simp_all add: count_miss_def count_ref_def occupancy_def evictions_def)

lemma MMGetFrameNumber_code:
  "CSC369_MMGetFrameNumber evict access m =
     bindR (CSC369_PageTableAllocate (mm_root m) (virtual_address access) (heap m)) (\<lambda>(p, h).
     bindR (CSC369_PTEIsValid p h) (\<lambda>v.
     bindR
       (if \<not> v then fault_code evict p (count_miss (m\<lparr>heap := h\<rparr>))
        else bindR (CSC369_PTEGetFrameNumber p h) (\<lambda>fnum. Inr (fnum, count_hit (m\<lparr>heap := h\<rparr>))))
       (\<lambda>(fnum, m).
     bindR (if is_write access then with_heap (CSC369_PTESetDirty p True) m else Inr m) (\<lambda>m.
     Inr (fnum, count_ref m)))))"
  by (simp add: CSC369_MMGetFrameNumber_def fault_code_def count_miss_def count_hit_def count_ref_def Let_def
      cong: if_cong)

text \<open>The dirty bit of a write.\<close>

lemma set_dirty_ok:
  assumes ok: "mm_ok {} m" and x: "page m x = Some e" "page_ptr m x = Some p" "valid e"
  obtains m' where "(if w then with_heap (CSC369_PTESetDirty (Some p) True) m else Inr m) = Inr m'"
    "same_view m m'" "policy_same m m'" "\<And>i. frame_ref m' i = frame_ref m i" "stats m' = stats m"
    "km (heap m') = km (heap m)" "kept m m'"
    "page m' = (page m)(x \<mapsto> (if w then e\<lparr>dirty := True\<rparr> else e))"
    "state_of m' = (state_of m)(x := written_state w (state_of m x))" "evictions m' = evictions m"
proof (cases w)
  case True
  have pe: "pte_mem (heap m) p = Some e" using page_SomeD [OF x(1)] x(2) by simp
  let ?d = "e\<lparr>dirty := True\<rparr>"
  have s: "same_view m (put_pte p ?d m)"
    by (rule put_pte_view [OF mm_ok_base [OF ok] x(2,1)]) (simp_all add: same_entry_def x(3))
  have "frame_ref (put_pte p ?d m) i = frame_ref m i" for i
    by (rule frame_ref_put [OF pe]) simp
  moreover have pg: "page (put_pte p ?d m) = (page m)(x \<mapsto> ?d)"
    using put_pte_page(2) [OF mm_ok_base [OF ok] x(2,1), of ?d] by simp
  moreover have "state_of (put_pte p ?d m) = (state_of m)(x := written_state True (state_of m x))"
    using state_of_upd [OF pg] x by (simp add: state_of_def pte_state_def slot_of_def)
  moreover have "policy_same m (put_pte p ?d m)" by simp
  moreover have "kept m (put_pte p ?d m)" by (simp add: kept_def)
  moreover have "with_heap (CSC369_PTESetDirty (Some p) True) m = Inr (put_pte p ?d m)"
    using with_heap_put(2) [OF pe] by simp
  ultimately show thesis
    by (intro that [of "put_pte p ?d m"]) (use True s in simp_all)
next
  case False
  have "same_view m m"
    using mm_ok_base [OF ok] by (simp add: same_view_def option.rel_refl same_entry_def)
  moreover have "(page m)(x \<mapsto> e) = page m" using x(1) by (simp add: fun_upd_idem)
  moreover have "(state_of m)(x := written_state False (state_of m x)) = state_of m"
    by (cases "state_of m x") (simp_all add: fun_upd_idem)
  ultimately show thesis by (intro that [of m]) (use False in \<open>simp_all add: policy_same_def kept_def\<close>)
qed

text \<open>What a successful translation establishes, for the policy invariant \<open>pinv\<close>.\<close>

definition translated ::
  "(nat set \<Rightarrow> machine \<Rightarrow> bool) \<Rightarrow> machine \<Rightarrow> nat list \<Rightarrow> u64 \<Rightarrow> machine \<Rightarrow> bool" where
  "translated pinv m x v m' \<longleftrightarrow> mm_ok {} m' \<and>
     (\<exists>d. page m' x = Some d \<and> valid d \<and> frame_number d = v) \<and>
     page_bytes m' = page_bytes m \<and> dom (page m') = insert x (dom (page m)) \<and>
     (\<exists>U \<subseteq> used m'. insert (unat v) U = used m' \<and> pinv U m' \<and> (unat v \<in> U \<or> \<not> frame_ref m' (unat v))) \<and>
     kept m m' \<and>
     bytes_malloced (km (heap m')) \<le> bytes_malloced (km (heap m)) + (if page m x = None then pt_alloc_bytes else 0) \<and>
     ref_count (stats m') = ref_count (stats m) + 1 \<and>
     hit_count (stats m') = hit_count (stats m) + (if resident m x then 1 else 0) \<and>
     miss_count (stats m') = miss_count (stats m) + (if resident m x then 0 else 1)"

lemma translatedD:
  assumes "translated pinv m x v m'"
  shows "mm_ok {} m'" "\<exists>d. page m' x = Some d \<and> valid d \<and> frame_number d = v"
    "page_bytes m' = page_bytes m" "dom (page m') = insert x (dom (page m))"
    "\<exists>U \<subseteq> used m'. insert (unat v) U = used m' \<and> pinv U m' \<and> (unat v \<in> U \<or> \<not> frame_ref m' (unat v))"
    "kept m m'"
    "bytes_malloced (km (heap m')) \<le> bytes_malloced (km (heap m)) + (if page m x = None then pt_alloc_bytes else 0)"
    "ref_count (stats m') = ref_count (stats m) + 1"
    "hit_count (stats m') = hit_count (stats m) + (if resident m x then 1 else 0)"
    "miss_count (stats m') = miss_count (stats m) + (if resident m x then 0 else 1)"
  using assms unfolding translated_def by simp_all

context replacement_policy begin

lemma translate_ok:
  assumes ok: "mm_ok {} m" and pol: "inv (used m) m"
    and room: "finite T" "dom (page m) \<subseteq> T" "card T \<le> unat (nbits (swapmap (mswap m)))"
    and x: "page m x = Some e" "page_ptr m x = Some p"
  obtains v m' where
    "(if \<not> valid e then fault_code evict (Some p) (count_miss m)
      else Inr (frame_number e, count_hit m)) = Inr (v, m')"
    "mm_ok {} m'" "\<exists>d. page m' x = Some d \<and> valid d \<and> frame_number d = v" "page_ptr m' = page_ptr m"
    "page_bytes m' = page_bytes m" "dom (page m') = dom (page m)"
    "\<exists>U \<subseteq> used m'. insert (unat v) U = used m' \<and> inv U m' \<and> (unat v \<in> U \<or> \<not> frame_ref m' (unat v))"
    "kept m m'" "km (heap m') = km (heap m)" "ref_count (stats m') = ref_count (stats m)"
    "hit_count (stats m') = (if valid e then hit_count (stats m) + 1 else hit_count (stats m))"
    "miss_count (stats m') = (if valid e then miss_count (stats m) else miss_count (stats m) + 1)"
    "fault_effect (all_used m \<and> \<not> valid e) x (state_of m) (state_of m')"
    "occupancy m' = (if valid e then occupancy m else occupancy m + 1)"
    "served evict x m v m'"
proof (cases "valid e")
  case True
  have "unat (frame_number e) \<in> used m" using mm_ok_page [OF ok x(1)] True by (simp add: page_ok_def)
  moreover have "inv (used m) (count_hit m)"
    by (rule inv_cong [OF pol]) (simp_all add: count_hit_def policy_same_def)
  moreover have "fault_effect False x (state_of m) (state_of (count_hit m))"
  proof -
    have "filled_state (state_of m x) = state_of m x" using x(1) True by (simp add: state_of_def pte_state_def)
    then show ?thesis by (simp add: fault_effect_def one_evicted_def count_hit_def)
  qed
  moreover have "occupancy (count_hit m) = occupancy m"
    by (simp add: occupancy_def evictions_def count_hit_def)
  moreover have "served evict x m (frame_number e) (count_hit m)"
  proof -
    have "policy_view (used m) m (count_hit m)" by (simp add: policy_view_def count_hit_def)
    moreover
    have "frame_of m x = Some (unat (frame_number e))" using x(1) True by (simp add: frame_of_def)
    moreover have "insert (unat (frame_number e)) (used m) = used m" using calculation frame_of_used [OF ok] by blast
    ultimately show ?thesis using frame_of_cong [of "count_hit m" m]
      by (simp add: served_def count_hit_def)
  qed
  ultimately show ?thesis
    by (intro that [of "frame_number e" "count_hit m"])
      (use True ok x in \<open>auto simp: count_hit_def kept_def\<close>)
next
  case False
  have pol': "inv (used (count_miss m)) (count_miss m)"
    by (rule inv_cong, simp add: count_miss_def, rule pol) (simp_all add: count_miss_def policy_same_def)
  obtain v m' where f: "fault_code evict (Some p) (count_miss m) = Inr (v, m')"
    "mm_ok {} m'" "\<exists>d. page m' x = Some d \<and> valid d \<and> frame_number d = v" "page_ptr m' = page_ptr m"
    "page_bytes m' = page_bytes m" "dom (page m') = dom (page m)" "used m' = insert (unat v) (used m)"
    "inv (used m - {unat v}) m'" "\<not> frame_ref m' (unat v)" "kept m m'" "km (heap m') = km (heap m)"
    "ref_count (stats m') = ref_count (stats m)" "hit_count (stats m') = hit_count (stats m)"
    "miss_count (stats m') = miss_count (stats m) + 1"
    "fault_effect (all_used m) x (state_of m) (state_of m')"
    "occupancy m' = occupancy m + 1"
    "chosen evict (count_miss m) v m'" "frame_of m' = (vacate (unat v) (frame_of (count_miss m)))(x \<mapsto> unat v)"
    unfolding fault_code_def
    by (rule fault_ok [of "count_miss m" T x e p])
      (use ok pol' room x False in \<open>auto simp: count_miss_def kept_def\<close>)
  have sv: "served evict x m v m'"
  proof (rule served_before)
    show "served evict x (count_miss m) v m'"
      using f(7,9,17,18) x(1) False by (simp add: served_def count_miss_def) (simp add: frame_of_def)
    show "policy_view (used m) m (count_miss m)" by (simp add: policy_view_def count_miss_def)
    show "frame_of (count_miss m) = frame_of m" by (rule frame_of_cong) (simp add: count_miss_def)
  qed (simp_all add: count_miss_def)
  have "\<exists>U \<subseteq> used m'. insert (unat v) U = used m' \<and> inv U m' \<and> (unat v \<in> U \<or> \<not> frame_ref m' (unat v))"
    using f(7-9) by (intro exI [of _ "used m - {unat v}"]) auto
  then show ?thesis
    by (intro that [of v m']) (use f(1-16) sv False in simp_all)
qed

lemma MMGetFrameNumber_effect:
  assumes ok: "mm_ok {} m" and pol: "inv (used m) m"
    and va: "unat (virtual_address a) < 2 ^ 48"
    and room: "finite T" "insert (page_path (virtual_address a)) (dom (page m)) \<subseteq> T"
      "card T \<le> unat (nbits (swapmap (mswap m)))"
    and quota: "page m (page_path (virtual_address a)) = None \<Longrightarrow>
      bytes_malloced (km (heap m)) + pt_alloc_bytes \<le> 2 ^ 31"
  shows "\<exists>v m'. CSC369_MMGetFrameNumber evict a m = Inr (v, m') \<and>
    translated inv m (page_path (virtual_address a)) v m' \<and>
    access_effect (all_used m) (is_write a) (page_path (virtual_address a)) (state_of m) (state_of m') \<and>
    occupancy m' = occupancy m + (if resident m (page_path (virtual_address a)) then 0 else 1) \<and>
    served evict (page_path (virtual_address a)) m v m'"
proof -
  let ?va = "virtual_address a"
  let ?x = "page_path ?va"
  define e where "e = (case page m ?x of None \<Rightarrow> init_pte | Some e \<Rightarrow> e)"
  obtain p h where al: "CSC369_PageTableAllocate (mm_root m) ?va (heap m) = Inr (Some p, h)"
    "mm_ok {} (m\<lparr>heap := h\<rparr>)" "page_ptr (m\<lparr>heap := h\<rparr>) ?x = Some p"
    "page (m\<lparr>heap := h\<rparr>) = (page m)(?x \<mapsto> e)" "page_bytes (m\<lparr>heap := h\<rparr>) = page_bytes m"
    "bytes_malloced (km h) \<le> bytes_malloced (km (heap m)) + (if page m ?x = None then pt_alloc_bytes else 0)"
    "\<And>i. i \<in> used m \<Longrightarrow> frame_ref (m\<lparr>heap := h\<rparr>) i = frame_ref m i"
    using alloc_entry_ok [OF ok va quota] unfolding e_def by metis
  let ?m1 = "m\<lparr>heap := h\<rparr>"
  have us: "used ?m1 = used m" by (simp add: used_def)
  have pol1: "inv (used ?m1) ?m1"
    unfolding us by (rule inv_cong [OF pol]) (simp_all add: policy_same_def al(7))
  have e1: "page ?m1 ?x = Some e" by (simp add: al(4))
  then have pe: "pte_mem h p = Some e" using page_SomeD [OF e1] al(3) by simp
  have room1: "dom (page ?m1) \<subseteq> T" "card T \<le> unat (nbits (swapmap (mswap ?m1)))"
    using room by (simp_all add: al(4))
  obtain v m2 where t: "(if \<not> valid e then fault_code evict (Some p) (count_miss ?m1)
      else Inr (frame_number e, count_hit ?m1)) = Inr (v, m2)"
    "mm_ok {} m2" "\<exists>d. page m2 ?x = Some d \<and> valid d \<and> frame_number d = v" "page_ptr m2 = page_ptr ?m1"
    "page_bytes m2 = page_bytes ?m1" "dom (page m2) = dom (page ?m1)"
    "\<exists>U \<subseteq> used m2. insert (unat v) U = used m2 \<and> inv U m2 \<and> (unat v \<in> U \<or> \<not> frame_ref m2 (unat v))"
    "kept ?m1 m2" "km (heap m2) = km (heap ?m1)" "ref_count (stats m2) = ref_count (stats ?m1)"
    "hit_count (stats m2) = (if valid e then hit_count (stats ?m1) + 1 else hit_count (stats ?m1))"
    "miss_count (stats m2) = (if valid e then miss_count (stats ?m1) else miss_count (stats ?m1) + 1)"
    "fault_effect (all_used ?m1 \<and> \<not> valid e) ?x (state_of ?m1) (state_of m2)"
    "occupancy m2 = (if valid e then occupancy ?m1 else occupancy ?m1 + 1)"
    "served evict ?x ?m1 v m2"
    by (rule translate_ok [OF al(2) pol1 room(1) room1 e1 al(3)])
  obtain d where d: "page m2 ?x = Some d" "valid d" "frame_number d = v" using t(3) by blast
  have p2: "page_ptr m2 ?x = Some p" using t(4) al(3) by simp
  obtain m3 where s: "(if is_write a then with_heap (CSC369_PTESetDirty (Some p) True) m2 else Inr m2) = Inr m3"
    "same_view m2 m3" "policy_same m2 m3" "\<And>i. frame_ref m3 i = frame_ref m2 i" "stats m3 = stats m2"
    "km (heap m3) = km (heap m2)" "kept m2 m3"
    "page m3 = (page m2)(?x \<mapsto> (if is_write a then d\<lparr>dirty := True\<rparr> else d))"
    "state_of m3 = (state_of m2)(?x := written_state (is_write a) (state_of m2 ?x))" "evictions m3 = evictions m2"
    by (rule set_dirty_ok [OF t(2) d(1) p2 d(2), of "is_write a"]) blast
  have code: "CSC369_MMGetFrameNumber evict a m = Inr (v, count_ref m3)"
    using al(1) pe t(1) s(1) unfolding MMGetFrameNumber_code
    by (cases "valid e") (simp_all add: pte_getter_defs)
  have res: "resident m ?x \<longleftrightarrow> valid e" by (simp add: resident_def e_def split: option.splits)
  have us3: "used m3 = used m2" using same_view_used [OF s(2)] .
  have inv3: "inv U (count_ref m3)" if "inv U m2" for U
    by (rule inv_cong [OF that]) (use s(3,4) in \<open>simp_all add: count_ref_def\<close>)
  have "translated inv m ?x v (count_ref m3)"
    unfolding translated_def
  proof (intro conjI)
    show "mm_ok {} (count_ref m3)" using same_view_ok [OF s(2) t(2)] by (simp add: count_ref_def)
    show "\<exists>d. page (count_ref m3) ?x = Some d \<and> valid d \<and> frame_number d = v"
      using s(8) d(2,3) by (auto simp: count_ref_def)
    show "page_bytes (count_ref m3) = page_bytes m"
      using same_view_bytes [OF s(2)] t(5) al(5) by (simp add: count_ref_def)
    show "dom (page (count_ref m3)) = insert ?x (dom (page m))"
      using same_view_dom [OF s(2)] t(6) by (simp add: count_ref_def al(4))
    show "\<exists>U \<subseteq> used (count_ref m3). insert (unat v) U = used (count_ref m3) \<and> inv U (count_ref m3) \<and>
        (unat v \<in> U \<or> \<not> frame_ref (count_ref m3) (unat v))"
      using t(7) inv3 us3 s(4) by (auto simp: count_ref_def)
    show "kept m (count_ref m3)"
      using kept_trans [OF t(8) s(7)] by (simp add: count_ref_def kept_def)
  qed (use s(5,6) t(9-12) al(6) res in \<open>simp_all add: count_ref_def\<close>)
  moreover have "access_effect (all_used m) (is_write a) ?x (state_of m) (state_of (count_ref m3))"
  proof (rule fault_access_effect)
    have "pte_state e = allocated_state (state_of m ?x)"
      by (auto simp: e_def state_of_def pte_state_def split: option.splits)
    then have "state_of ?m1 = (state_of m)(?x := allocated_state (state_of m ?x))"
      using state_of_upd [OF al(4)] by simp
    moreover have "in_frame (state_of m ?x) = valid e"
      using res by (auto simp: in_frame_state resident_def split: option.splits)
    ultimately show "fault_effect (all_used m \<and> \<not> in_frame (state_of m ?x)) ?x
        ((state_of m)(?x := allocated_state (state_of m ?x))) (state_of m2)"
      using t(13) us by (simp add: all_used_def)
  qed (simp add: s(9))
  moreover have "occupancy (count_ref m3) = occupancy m + (if resident m ?x then 0 else 1)"
  proof -
    have "occupancy m3 = occupancy m2" using s(10) us3 by (simp add: occupancy_def)
    moreover have "occupancy ?m1 = occupancy m" using us by (simp add: occupancy_def)
    ultimately show ?thesis using t(14) res by simp
  qed
  moreover have "served evict ?x m v (count_ref m3)"
  proof (rule served_before [OF _ us _ served_after [OF t(15)]])
    show "policy_view (used m2) m2 (count_ref m3)" using s(3,4) by (simp add: count_ref_def policy_view_def)
    show "used (count_ref m3) = used m2" using us3 by (simp add: count_ref_def)
    show "frame_of (count_ref m3) = frame_of m2"
      using frame_of_view [OF s(2)] frame_of_cong [of "count_ref m3" m3] by (simp add: count_ref_def)
    have "pte_frame e = frame_of m ?x"
      by (simp add: e_def frame_of_def pte_frame_def split: option.splits)
    then show "frame_of ?m1 = frame_of m" using frame_of_upd [OF al(4)] by simp
    show "policy_view (used m) m ?m1" using al(7) by (simp add: policy_view_def policy_same_def)
  qed
  ultimately show ?thesis using code by blast
qed

lemma MMGetFrameNumber_ok:
  assumes "mm_ok {} m" "inv (used m) m" "unat (virtual_address a) < 2 ^ 48"
    "finite T" "insert (page_path (virtual_address a)) (dom (page m)) \<subseteq> T"
    "card T \<le> unat (nbits (swapmap (mswap m)))"
    "page m (page_path (virtual_address a)) = None \<Longrightarrow> bytes_malloced (km (heap m)) + pt_alloc_bytes \<le> 2 ^ 31"
  shows "\<exists>v m'. CSC369_MMGetFrameNumber evict a m = Inr (v, m') \<and>
    translated inv m (page_path (virtual_address a)) v m'"
  using MMGetFrameNumber_effect [OF assms] by blast

end

end
