(* ===== verification/PolicyRR.thy ===== *)
theory PolicyRR
  imports Policy
begin

text \<open>\<open>csc369_policy_rr.c\<close>: round robin over the frame numbers.\<close>

definition CSC369_PolicyRRInit :: "machine \<Rightarrow> machine" where
  "CSC369_PolicyRRInit m = m"

definition CSC369_PolicyRRCleanup :: "machine \<Rightarrow> machine" where
  "CSC369_PolicyRRCleanup m = m"

definition CSC369_PolicyRROnRef :: "nat \<Rightarrow> machine \<Rightarrow> machine res" where
  "CSC369_PolicyRROnRef f m = Inr m"

definition CSC369_PolicyRREvict :: "machine \<Rightarrow> (u64 \<times> machine) res" where
  "CSC369_PolicyRREvict m =
     (if memsize m = 0 then Inl DivByZero
      else let victim = rr_next m
           in Inr (victim, m\<lparr>rr_next := (rr_next m + 1) mod of_nat (memsize m)\<rparr>))"

definition policy_RR :: CSC369_Policy where
  "policy_RR = \<lparr>policy_name = ''RR'', CSC369_PolicyInit = CSC369_PolicyRRInit,
     CSC369_PolicyCleanup = CSC369_PolicyRRCleanup, CSC369_PolicyOnRef = CSC369_PolicyRROnRef,
     CSC369_PolicyEvict = CSC369_PolicyRREvict\<rparr>"

text \<open>Nobody sets a reference bit under RR, and the next victim is always a frame number.\<close>

definition rr_inv :: "nat set \<Rightarrow> machine \<Rightarrow> bool" where
  "rr_inv U m \<longleftrightarrow> unat (rr_next m) < memsize m \<and> (\<forall>i \<in> U. \<not> frame_ref m i)"

lemma rr_step:
  assumes "unat i < n" "n \<le> 2 ^ 28"
  shows "unat ((i + 1) mod of_nat n :: u64) = (unat i + 1) mod n"
proof -
  have "unat (of_nat n :: u64) = n" using assms(2) by (intro unat_of_nat_u64) auto
  moreover have "unat (i + 1) = unat i + 1"
    using assms by (subst unat_add_lem [THEN iffD1]) auto
  ultimately show ?thesis by (simp add: unat_mod)
qed

interpretation rr: replacement_policy
  CSC369_PolicyRRInit CSC369_PolicyRROnRef CSC369_PolicyRREvict rr_inv
proof
  fix m :: machine
  assume "policy_fresh m" "0 < memsize m"
  then show "core_eq m (CSC369_PolicyRRInit m) \<and> rr_inv {} (CSC369_PolicyRRInit m)"
    by (simp add: CSC369_PolicyRRInit_def rr_inv_def policy_fresh_def)
next
  fix m :: machine
  assume m: "frames_ok m" "0 < memsize m" "memsize m \<le> 2 ^ 28" "used m = {..<memsize m}"
    "rr_inv {..<memsize m} m"
  then have "unat ((rr_next m + 1) mod of_nat (memsize m)) < memsize m"
    by (subst rr_step) (auto simp: rr_inv_def)
  then show "\<exists>v m'. CSC369_PolicyRREvict m = Inr (v, m') \<and> unat v < memsize m \<and> core_eq m m' \<and>
       rr_inv ({..<memsize m} - {unat v}) m' \<and> \<not> frame_ref m' (unat v)"
    using m by (auto simp: CSC369_PolicyRREvict_def rr_inv_def Let_def)
next
  fix m :: machine and f U
  assume "f \<in> U \<or> \<not> frame_ref m f" "rr_inv U m"
  then show "\<exists>m'. CSC369_PolicyRROnRef f m = Inr m' \<and> core_eq m m' \<and> rr_inv (insert f U) m'"
    by (auto simp: CSC369_PolicyRROnRef_def rr_inv_def)
next
  fix m m' :: machine and U
  assume "rr_inv U m" "policy_same m m'" "\<And>i. i \<in> U \<Longrightarrow> frame_ref m' i = frame_ref m i"
  then show "rr_inv U m'" by (auto simp: rr_inv_def policy_same_def)
qed

text \<open>The victims are the frame numbers in turn, starting from 0.\<close>

fun rr_victims :: "nat \<Rightarrow> machine \<Rightarrow> u64 list res" where
  "rr_victims 0 m = Inr []"
| "rr_victims (Suc n) m =
     bindR (CSC369_PolicyRREvict m) (\<lambda>(v, m). bindR (rr_victims n m) (\<lambda>vs. Inr (v # vs)))"

text \<open>
  The victims of round robin are the frame numbers in turn, counting from the next one and
  wrapping around at the number of frames, whatever is referenced in between.
\<close>

lemma rr_victims_in_turn:
  assumes "unat (rr_next m) < memsize m" "memsize m \<le> 2 ^ 28"
  shows "\<exists>vs. rr_victims k m = Inr vs \<and> map unat vs = map (\<lambda>j. (unat (rr_next m) + j) mod memsize m) [0..<k]"
  using assms
proof (induction k arbitrary: m)
  case (Suc k)
  let ?m = "m\<lparr>rr_next := (rr_next m + 1) mod of_nat (memsize m)\<rparr>"
  have n: "unat (rr_next ?m) = (unat (rr_next m) + 1) mod memsize m"
    using rr_step [OF Suc.prems] by simp
  have "CSC369_PolicyRREvict m = Inr (rr_next m, ?m)"
    using Suc.prems by (simp add: CSC369_PolicyRREvict_def)
  moreover obtain vs where vs: "rr_victims k ?m = Inr vs"
    "map unat vs = map (\<lambda>j. (unat (rr_next ?m) + j) mod memsize ?m) [0..<k]"
  proof (rule Suc.IH [of ?m, THEN exE])
    show "unat (rr_next ?m) < memsize ?m" using n Suc.prems by simp
  qed (use Suc.prems in auto)
  moreover have "map (\<lambda>j. (unat (rr_next m) + j) mod memsize m) [0..<Suc k] =
      unat (rr_next m) # map (\<lambda>j. (unat (rr_next ?m) + j) mod memsize ?m) [0..<k]"
  proof -
    have st: "(unat (rr_next m) + Suc j) mod memsize m = (unat (rr_next ?m) + j) mod memsize ?m" for j
      unfolding n by (simp add: mod_add_left_eq)
    have "[0..<Suc k] = 0 # map Suc [0..<k]" by (simp add: upt_conv_Cons map_Suc_upt del: upt_Suc)
    then show ?thesis using Suc.prems(1) by (simp only: list.map map_map comp_def st) simp
  qed
  ultimately show ?case by auto
qed simp

lemma rr_victims_in_turn_sample:
  "\<exists>vs. rr_victims 4 ((full_machine 3)\<lparr>rr_next := 1\<rparr>) = Inr vs \<and> map unat vs = [1, 2, 0, 1]"
proof -
  let ?m = "(full_machine 3)\<lparr>rr_next := 1\<rparr>"
  have r: "unat (rr_next ?m) = 1" "memsize ?m = 3" by simp_all
  have "map (\<lambda>j. (1 + j) mod 3) [0..<4] = [1, 2, 0, 1 :: nat]" by code_simp
  then show ?thesis using rr_victims_in_turn [of ?m 4] unfolding r by simp
qed

end
