(* ===== verification/PolicyRand.thy ===== *)
theory PolicyRand
  imports Policy
begin

text \<open>
  \<open>csc369_policy_rand.c\<close>: a random frame number.  The \<open>n\<close>-th call of the C library's
  \<open>random()\<close> returns \<open>rnd m n\<close>; it is never negative.
\<close>

definition CSC369_PolicyRandInit :: "machine \<Rightarrow> machine" where
  "CSC369_PolicyRandInit m = m"

definition CSC369_PolicyRandCleanup :: "machine \<Rightarrow> machine" where
  "CSC369_PolicyRandCleanup m = m"

definition CSC369_PolicyRandOnRef :: "nat \<Rightarrow> machine \<Rightarrow> machine res" where
  "CSC369_PolicyRandOnRef f m = Inr m"

definition CSC369_PolicyRandEvict :: "machine \<Rightarrow> (u64 \<times> machine) res" where
  "CSC369_PolicyRandEvict m =
     (if memsize m = 0 then Inl DivByZero
      else Inr (of_nat (rnd m (rnd_calls m) mod memsize m), m\<lparr>rnd_calls := Suc (rnd_calls m)\<rparr>))"

definition policy_Rand :: CSC369_Policy where
  "policy_Rand = \<lparr>policy_name = ''Rand'', CSC369_PolicyInit = CSC369_PolicyRandInit,
     CSC369_PolicyCleanup = CSC369_PolicyRandCleanup, CSC369_PolicyOnRef = CSC369_PolicyRandOnRef,
     CSC369_PolicyEvict = CSC369_PolicyRandEvict\<rparr>"

definition rand_inv :: "nat set \<Rightarrow> machine \<Rightarrow> bool" where
  "rand_inv U m \<longleftrightarrow> (\<forall>i \<in> U. \<not> frame_ref m i)"

interpretation rand: replacement_policy
  CSC369_PolicyRandInit CSC369_PolicyRandOnRef CSC369_PolicyRandEvict rand_inv
proof
  fix m :: machine
  assume "policy_fresh m" "0 < memsize m"
  then show "core_eq m (CSC369_PolicyRandInit m) \<and> rand_inv {} (CSC369_PolicyRandInit m)"
    by (simp add: CSC369_PolicyRandInit_def rand_inv_def)
next
  fix m :: machine
  assume m: "frames_ok m" "0 < memsize m" "memsize m \<le> 2 ^ 28" "used m = {..<memsize m}"
    "rand_inv {..<memsize m} m"
  have "rnd m (rnd_calls m) mod memsize m < memsize m" using m(2) by simp
  moreover from this have "unat (of_nat (rnd m (rnd_calls m) mod memsize m) :: u64) =
      rnd m (rnd_calls m) mod memsize m"
    using m(3) by (intro unat_of_nat_u64) simp
  ultimately show "\<exists>v m'. CSC369_PolicyRandEvict m = Inr (v, m') \<and> unat v < memsize m \<and> core_eq m m' \<and>
       rand_inv ({..<memsize m} - {unat v}) m' \<and> \<not> frame_ref m' (unat v)"
    using m by (auto simp: CSC369_PolicyRandEvict_def rand_inv_def)
next
  fix m :: machine and f U
  assume "f \<in> U \<or> \<not> frame_ref m f" "rand_inv U m"
  then show "\<exists>m'. CSC369_PolicyRandOnRef f m = Inr m' \<and> core_eq m m' \<and> rand_inv (insert f U) m'"
    by (auto simp: CSC369_PolicyRandOnRef_def rand_inv_def)
next
  fix m m' :: machine and U
  assume "rand_inv U m" "policy_same m m'" "\<And>i. i \<in> U \<Longrightarrow> frame_ref m' i = frame_ref m i"
  then show "rand_inv U m'" by (auto simp: rand_inv_def)
qed

section \<open>The victim\<close>

text \<open>
  The random policy takes the next random number modulo the number of frames, so its victim
  is always a frame, and it changes nothing but the position in the random sequence.
\<close>

lemma rand_victim_in_range:
  assumes "0 < memsize m" "memsize m \<le> 2 ^ 28"
  shows "\<exists>v. CSC369_PolicyRandEvict m = Inr (v, m\<lparr>rnd_calls := Suc (rnd_calls m)\<rparr>) \<and>
    unat v = rnd m (rnd_calls m) mod memsize m \<and> unat v < memsize m"
proof -
  have lt: "rnd m (rnd_calls m) mod memsize m < memsize m" using assms(1) by simp
  then have "rnd m (rnd_calls m) mod memsize m < 2 ^ 64" using assms(2) by simp
  then have "unat (of_nat (rnd m (rnd_calls m) mod memsize m) :: u64) = rnd m (rnd_calls m) mod memsize m"
    by (rule unat_of_nat_u64)
  then show ?thesis using lt assms(1) by (simp add: CSC369_PolicyRandEvict_def)
qed

end
