(* ===== verification/PolicyClock.thy ===== *)
theory PolicyClock
  imports Policy
begin

text \<open>
  \<open>csc369_policy_clock.c\<close>: the clock policy.  The frames are on a circular list without a
  separate head: \<open>clock_list\<close> points at one of the entries and \<open>clock_hand\<close> at the entry the
  hand stands on.  The list starts at the successor of the evicted frame, so a new page takes
  the place of the page it replaces.  The abstract algorithm works on the sequence of frame
  numbers in the order the hand visits them and is shown equal to the loop of the code,
  including the sweep that clears every bit and comes back to the first frame.
\<close>

section \<open>The code\<close>

definition CSC369_PolicyClockInit :: "machine \<Rightarrow> machine" where
  "CSC369_PolicyClockInit m = m"

text \<open>\<open>list_destroy\<close> does nothing.\<close>

definition CSC369_PolicyClockCleanup :: "machine \<Rightarrow> machine" where
  "CSC369_PolicyClockCleanup m = m"

definition CSC369_PolicyClockOnRef :: "nat \<Rightarrow> machine \<Rightarrow> machine res" where
  "CSC369_PolicyClockOnRef f m =
     bindR (frame_read f m) (\<lambda>frame.
     bindR (with_heap (CSC369_PTESetReferenced (pte frame) True) m) (\<lambda>m.
     let curr_entry = Frame_Entry f in
     case clock_list m of
       None \<Rightarrow>
         let m = m\<lparr>links := list_entry_init curr_entry (links m)\<rparr>;
             m = m\<lparr>clock_list := Some curr_entry\<rparr>;
             m = m\<lparr>links := list_init curr_entry (links m)\<rparr>
         in Inr (m\<lparr>clock_hand := Some curr_entry\<rparr>)
     | Some l \<Rightarrow>
         if \<not> list_entry_is_linked curr_entry (links m) then
           let m = m\<lparr>links := list_entry_init curr_entry (links m)\<rparr> in
           bindR (with_links (list_add_tail l curr_entry) m) (\<lambda>m.
           Inr (m\<lparr>clock_hand := Some curr_entry\<rparr>))
         else Inr m))"

text \<open>
  One iteration of the loop of \<open>CSC369_PolicyClockEvict\<close>: either the victim and the final
  state, or the state of the next iteration.
\<close>

definition clock_victim_found :: "lnode \<Rightarrow> ptr \<Rightarrow> machine \<Rightarrow> (u64 \<times> machine) res" where
  "clock_victim_found hand_e p m =
     (let m = m\<lparr>clock_list := nxt (links m hand_e)\<rparr> in
     bindR (with_links (list_del hand_e) m) (\<lambda>m.
     let m = m\<lparr>links := (links m)(hand_e := (links m hand_e)\<lparr>nxt := None\<rparr>)\<rparr>;
         m = m\<lparr>links := (links m)(hand_e := (links m hand_e)\<lparr>prv := None\<rparr>)\<rparr>;
         m = (if clock_list m = Some hand_e then m\<lparr>clock_list := None\<rparr> else m)
     in bindR (CSC369_PTEGetFrameNumber p (heap m)) (\<lambda>v. Inr (v, m))))"

definition clock_step :: "machine \<Rightarrow> ((u64 \<times> machine) + machine) res" where
  "clock_step m =
     (case clock_hand m of
        None \<Rightarrow> Inl NullDeref
      | Some hand_e \<Rightarrow>
          bindR (container_of_frame hand_e) (\<lambda>f.
          bindR (frame_read f m) (\<lambda>curr_frame.
          bindR (CSC369_PTEIsReferenced (pte curr_frame) (heap m)) (\<lambda>r.
          if \<not> r then
            bindR (clock_victim_found hand_e (pte curr_frame) m) (\<lambda>res. Inr (Inl res))
          else
            bindR (with_heap (CSC369_PTESetReferenced (pte curr_frame) False) m) (\<lambda>m.
            Inr (Inr (m\<lparr>clock_hand := nxt (links m hand_e)\<rparr>)))))))"

partial_function (option) clock_loop :: "machine \<Rightarrow> (u64 \<times> machine) res option" where
  "clock_loop m =
     (case clock_step m of
        Inl e \<Rightarrow> Some (Inl e)
      | Inr s \<Rightarrow> (case s of Inl res \<Rightarrow> Some (Inr res) | Inr m' \<Rightarrow> clock_loop m'))"

definition CSC369_PolicyClockEvict :: "machine \<Rightarrow> (u64 \<times> machine) res" where
  "CSC369_PolicyClockEvict m =
     (case clock_hand m of
        None \<Rightarrow> Inl NullDeref
      | Some hand_e \<Rightarrow>
          (case clock_loop (m\<lparr>clock_hand := nxt (links m hand_e)\<rparr>) of
             None \<Rightarrow> Inl Diverges
           | Some r \<Rightarrow> r))"

definition policy_Clock :: CSC369_Policy where
  "policy_Clock = \<lparr>policy_name = ''Clock'', CSC369_PolicyInit = CSC369_PolicyClockInit,
     CSC369_PolicyCleanup = CSC369_PolicyClockCleanup, CSC369_PolicyOnRef = CSC369_PolicyClockOnRef,
     CSC369_PolicyEvict = CSC369_PolicyClockEvict\<rparr>"

section \<open>The algorithm on a sequence\<close>

text \<open>
  \<open>us\<close> is the ring in the order the hand will visit it, \<open>R\<close> the set of referenced frames.
\<close>

definition clock_victim :: "('a \<Rightarrow> bool) \<Rightarrow> 'a list \<Rightarrow> 'a" where
  "clock_victim R us = (case dropWhile R us of [] \<Rightarrow> hd us | v # vs \<Rightarrow> v)"

definition clock_cleared :: "('a \<Rightarrow> bool) \<Rightarrow> 'a list \<Rightarrow> 'a set" where
  "clock_cleared R us = set (takeWhile R us)"

definition clock_rest :: "('a \<Rightarrow> bool) \<Rightarrow> 'a list \<Rightarrow> 'a list" where
  "clock_rest R us = (case dropWhile R us of [] \<Rightarrow> tl us | v # vs \<Rightarrow> vs @ takeWhile R us)"

fun ring :: "lnode links \<Rightarrow> nat list \<Rightarrow> bool" where
  "ring h [] \<longleftrightarrow> True"
| "ring h (x # xs) \<longleftrightarrow> dlist h (Frame_Entry x) (map Frame_Entry xs)"

definition clock_at :: "nat list \<Rightarrow> lnode option" where
  "clock_at xs = (case xs of [] \<Rightarrow> None | x # _ \<Rightarrow> Some (Frame_Entry x))"

text \<open>The ring starting from \<open>clock_list\<close>; every other frame is off the list.\<close>

definition clock_ring :: "machine \<Rightarrow> nat list \<Rightarrow> bool" where
  "clock_ring m xs \<longleftrightarrow> clock_list m = clock_at xs \<and> ring (links m) xs \<and>
     (\<forall>i. i \<notin> set xs \<longrightarrow> links m (Frame_Entry i) = unlinked)"

definition clock_inv :: "nat set \<Rightarrow> machine \<Rightarrow> bool" where
  "clock_inv U m \<longleftrightarrow> (\<exists>xs. clock_ring m xs \<and> set xs = U) \<and>
     (U = {..<memsize m} \<and> U \<noteq> {} \<longrightarrow> (\<exists>i \<in> U. clock_hand m = Some (Frame_Entry i)))"

lemma clock_rest_set:
  assumes "distinct us" "us \<noteq> []"
  shows "set (clock_rest R us) = set us - {clock_victim R us} \<and> clock_victim R us \<in> set us \<and>
    (clock_victim R us \<in> clock_cleared R us \<or> \<not> R (clock_victim R us))"
proof (cases "dropWhile R us")
  case Nil
  moreover obtain x xs where "us = x # xs" using assms(2) by (cases us) auto
  ultimately show ?thesis using assms(1)
    by (auto simp: clock_rest_def clock_victim_def clock_cleared_def split: if_splits)
next
  case (Cons v vs)
  then have us: "us = takeWhile R us @ v # vs" by (metis takeWhile_dropWhile_id)
  then have "distinct (takeWhile R us @ v # vs)" using assms(1) by simp
  moreover have "set us = set (takeWhile R us @ v # vs)" using us by simp
  moreover have "\<not> R v" using hd_dropWhile [of R us] Cons by simp
  ultimately show ?thesis using Cons by (auto simp: clock_rest_def clock_victim_def)
qed

section \<open>Ring lemmas\<close>

lemma map_Frame_Entry_simps [simp]:
  "Frame_Entry x \<in> Frame_Entry ` A \<longleftrightarrow> x \<in> A"
  by auto

lemma ring_distinct: "ring h xs \<Longrightarrow> distinct xs"
  by (cases xs) (auto simp: dlist_def distinct_map)

lemma ring_rotate1: "ring h (x # xs) \<longleftrightarrow> ring h (xs @ [x])"
proof (cases xs)
  case (Cons y ys)
  then show ?thesis
    using dlist_rotate [of h "Frame_Entry x" "[]" "Frame_Entry y" "map Frame_Entry ys"] by simp
qed simp

lemma ring_rotate: "ring h (xs @ ys) \<longleftrightarrow> ring h (ys @ xs)"
proof (induction xs arbitrary: ys)
  case (Cons x xs)
  show ?case using ring_rotate1 [of h x "xs @ ys"] Cons [of "ys @ [x]"] by simp
qed simp

lemma ring_nxt: "ring h (x # xs) \<Longrightarrow> nxt (h (Frame_Entry x)) = clock_at (xs @ [x])"
  by (cases xs) (auto simp: dlist_def clock_at_def)

lemma ring_cong: "ring h xs \<Longrightarrow> (\<And>i. i \<in> set xs \<Longrightarrow> h' (Frame_Entry i) = h (Frame_Entry i)) \<Longrightarrow> ring h' xs"
  using dlist_cong [of "Frame_Entry (hd xs)" "map Frame_Entry (tl xs)" h' h] by (cases xs) auto

lemma ring_linked: "ring h xs \<Longrightarrow> i \<in> set xs \<Longrightarrow> list_entry_is_linked (Frame_Entry i) h"
  by (cases xs) (auto intro: dlist_linked)

lemma ring_del:
  assumes "ring h (x # xs)"
  shows "\<exists>h'. list_del (Frame_Entry x) h = Inr h' \<and> ring h' xs \<and> h' (Frame_Entry x) = unlinked \<and>
    (\<forall>q. q \<notin> Frame_Entry ` set (x # xs) \<longrightarrow> h' q = h q)"
proof (cases xs rule: rev_exhaust)
  case Nil
  with assms show ?thesis
    by (auto simp: dlist_def list_del_def set_nxt_def set_prv_def)
next
  case (snoc ys y)
  then have "dlist h (Frame_Entry y) ([] @ Frame_Entry x # map Frame_Entry ys)"
    using assms dlist_rotate [of h "Frame_Entry x" "map Frame_Entry ys" "Frame_Entry y" "[]"] by simp
  from list_del_spec [OF this] obtain h' where h': "list_del (Frame_Entry x) h = Inr h'"
    "dlist h' (Frame_Entry y) (map Frame_Entry ys)" "h' (Frame_Entry x) = unlinked"
    "\<forall>q. q \<notin> set (Frame_Entry x # Frame_Entry y # map Frame_Entry ys) \<longrightarrow> h' q = h q"
    by auto
  then have "ring h' xs" using ring_rotate1 [of h' y ys] snoc by simp
  with h' snoc show ?thesis by auto
qed

lemma ring_add:
  assumes "ring h (x # xs)" "f \<notin> set (x # xs)"
  shows "\<exists>h'. list_add_tail (Frame_Entry x) (Frame_Entry f) h = Inr h' \<and> ring h' (x # xs @ [f]) \<and>
    (\<forall>q. q \<notin> Frame_Entry ` set (f # x # xs) \<longrightarrow> h' q = h q)"
  using list_add_tail_spec [of h "Frame_Entry x" "map Frame_Entry xs" "Frame_Entry f"] assms by auto

section \<open>The sweep\<close>

lemma set_refs_hand: "set_refs b S (m\<lparr>clock_hand := c\<rparr>) = (set_refs b S m)\<lparr>clock_hand := c\<rparr>"
  by (simp add: set_refs_def frame_ptes_def)

lemma clock_step_referenced:
  assumes ok: "frames_ok m" and p: "p \<in> used m" "frame_ref m p" and h: "clock_hand m = Some (Frame_Entry p)"
  shows "clock_step m = Inr (Inr ((set_refs False {p} m)\<lparr>clock_hand := nxt (links m (Frame_Entry p))\<rparr>))"
proof -
  have "p < length (frames m)" using p ok by (simp add: used_def frames_ok_def)
  then show ?thesis
    using SetReferenced_frame [OF ok p(1), of False] IsReferenced_frame [OF ok p(1)] p(2) h
    by (simp add: clock_step_def)
qed

lemma clock_loop_sweep:
  assumes "frames_ok m" "set (ps @ qs) \<subseteq> used m" "ring (links m) (ps @ qs)"
    "\<forall>p \<in> set ps. frame_ref m p" "clock_hand m = clock_at (ps @ qs)"
  shows "clock_loop m = clock_loop ((set_refs False (set ps) m)\<lparr>clock_hand := clock_at (qs @ ps)\<rparr>)"
  using assms
proof (induction ps arbitrary: m qs)
  case Nil
  then have "m\<lparr>clock_hand := clock_at qs\<rparr> = m" by (cases m) simp
  then show ?case by simp
next
  case (Cons p ps)
  let ?m = "(set_refs False {p} m)\<lparr>clock_hand := clock_at (ps @ qs @ [p])\<rparr>"
  have r: "ring (links m) (p # ps @ qs)" and pu: "p \<in> used m" "frame_ref m p" using Cons.prems by auto
  have d: "distinct (p # ps @ qs)" using ring_distinct [OF r] .
  have "clock_step m = Inr (Inr ?m)"
    using clock_step_referenced [OF Cons.prems(1) pu] Cons.prems(5) ring_nxt [OF r]
    by (simp add: clock_at_def)
  then have "clock_loop m = clock_loop ?m" by (subst clock_loop.simps) simp
  also have "\<dots> = clock_loop ((set_refs False (set ps) ?m)\<lparr>clock_hand := clock_at ((qs @ [p]) @ ps)\<rparr>)"
  proof (rule Cons.IH)
    show "frames_ok ?m" using frames_ok_set_refs [OF Cons.prems(1)] by simp
    show "set (ps @ qs @ [p]) \<subseteq> used ?m" using Cons.prems(2) by auto
    show "ring (links ?m) (ps @ qs @ [p])" using r ring_rotate1 [of "links m" p "ps @ qs"] by simp
    show "\<forall>q \<in> set ps. frame_ref ?m q"
    proof
      fix q assume "q \<in> set ps"
      then have "q \<in> used m" "q \<noteq> p" "frame_ref m q" using Cons.prems(2,4) d by auto
      then show "frame_ref ?m q" using frame_ref_set_refs [OF Cons.prems(1), of q "{p}" False] pu(1) by simp
    qed
  qed simp
  also have "set_refs False (set ps) ?m = (set_refs False (set (p # ps)) m)\<lparr>clock_hand := clock_at (ps @ qs @ [p])\<rparr>"
    by (simp add: set_refs_hand set_refs_Un)
  finally show ?case by simp
qed

lemma clock_loop_victim:
  assumes ok: "frames_ok m" and v: "v \<in> used m" "\<not> frame_ref m v" and r: "ring (links m) (v # rest)"
    and h: "clock_hand m = Some (Frame_Entry v)"
  shows "\<exists>w h'. clock_loop m = Some (Inr (w, m\<lparr>links := h', clock_list := clock_at rest\<rparr>)) \<and> unat w = v \<and>
    ring h' rest \<and> h' (Frame_Entry v) = unlinked \<and> (\<forall>q. q \<notin> Frame_Entry ` set (v # rest) \<longrightarrow> h' q = links m q)"
proof -
  have l: "v < length (frames m)" using v ok by (simp add: used_def frames_ok_def)
  obtain w where w: "CSC369_PTEGetFrameNumber (pte (frames m ! v)) (heap m) = Inr w" "unat w = v"
    using GetFrameNumber_frame [OF ok v(1)] .
  obtain h' where h': "list_del (Frame_Entry v) (links m) = Inr h'" "ring h' rest"
    "h' (Frame_Entry v) = unlinked" "\<forall>q. q \<notin> Frame_Entry ` set (v # rest) \<longrightarrow> h' q = links m q"
    using ring_del [OF r] by blast
  have u: "h'(Frame_Entry v := (h' (Frame_Entry v))\<lparr>nxt := None\<rparr>) = h'"
    "h'(Frame_Entry v := (h' (Frame_Entry v))\<lparr>prv := None\<rparr>) = h'"
    using h'(3) by (auto simp: unlinked_def fun_eq_iff)
  have dv: "v \<notin> set rest" using ring_distinct [OF r] by simp
  have "clock_victim_found (Frame_Entry v) (pte (frames m ! v)) m =
      Inr (w, m\<lparr>links := h', clock_list := clock_at rest\<rparr>)"
  proof (cases rest)
    case Nil
    then show ?thesis using h'(1) u w(1) ring_nxt [OF r]
      by (simp add: clock_victim_found_def clock_at_def Let_def with_links_def del: fun_upd_apply)
  next
    case (Cons x xs)
    then have "x \<noteq> v" using dv by auto
    then show ?thesis using h'(1) u w(1) ring_nxt [OF r] Cons
      by (simp add: clock_victim_found_def clock_at_def Let_def with_links_def del: fun_upd_apply)
  qed
  then have "clock_step m = Inr (Inl (w, m\<lparr>links := h', clock_list := clock_at rest\<rparr>))"
    using IsReferenced_frame [OF ok v(1)] v(2) h l by (simp add: clock_step_def)
  then show ?thesis using w(2) h'(2-4) by (subst clock_loop.simps) auto
qed

section \<open>Refinement\<close>

text \<open>
  With the ring in use and the hand on the frame \<open>x\<close>, the code evicts the frame the abstract
  algorithm names, clears exactly the bits of the frames it passed, and the list starts at
  the victim's successor.
\<close>

lemma ClockEvict_refines:
  assumes ok: "frames_ok m" and us: "us = ys @ [x]" "set us \<subseteq> used m"
    and r: "ring (links m) us" and h: "clock_hand m = Some (Frame_Entry x)"
  shows "\<exists>v h'. CSC369_PolicyClockEvict m =
      Inr (v, (set_refs False (clock_cleared (frame_ref m) us) m)\<lparr>
        clock_hand := Some (Frame_Entry (clock_victim (frame_ref m) us)), links := h',
        clock_list := clock_at (clock_rest (frame_ref m) us)\<rparr>) \<and>
    unat v = clock_victim (frame_ref m) us \<and> ring h' (clock_rest (frame_ref m) us) \<and>
    h' (Frame_Entry (clock_victim (frame_ref m) us)) = unlinked \<and>
    (\<forall>q. q \<notin> Frame_Entry ` set us \<longrightarrow> h' q = links m q)"
proof -
  let ?R = "frame_ref m"
  let ?v = "clock_victim ?R us" and ?C = "clock_cleared ?R us" and ?rest = "clock_rest ?R us"
  define ps where "ps = takeWhile ?R us"
  define m0 where "m0 = m\<lparr>clock_hand := clock_at us\<rparr>"
  define m1 where "m1 = (set_refs False ?C m)\<lparr>clock_hand := Some (Frame_Entry ?v)\<rparr>"
  have ne: "us \<noteq> []" using us(1) by simp
  have split: "us = ps @ dropWhile ?R us" by (simp add: ps_def)
  have d: "distinct us" using ring_distinct [OF r] .
  have hand: "nxt (links m (Frame_Entry x)) = clock_at us"
    using ring_nxt [of "links m" x ys] ring_rotate1 [of "links m" x ys] r us(1) by simp
  have ok0: "frames_ok m0" "\<And>i. frame_ref m0 i = ?R i" "links m0 = links m" "used m0 = used m"
    "clock_hand m0 = clock_at us"
    using ok by (simp_all add: m0_def)
  have perm: "dropWhile ?R us @ ps = ?v # ?rest"
  proof (cases "dropWhile ?R us")
    case Nil
    then have "ps = us" using split by (metis append_Nil2)
    then have "dropWhile ?R us @ ps = hd us # tl us" using Nil ne by (simp only:) simp
    then show ?thesis unfolding clock_victim_def clock_rest_def Nil by simp
  next
    case (Cons v vs)
    then show ?thesis by (simp add: clock_victim_def clock_rest_def ps_def)
  qed
  then have setp: "set (?v # ?rest) = set us" using split by (metis set_append Un_commute)
  have vu: "?v \<in> set us" using setp by auto
  have "clock_loop m0 = clock_loop ((set_refs False (set ps) m0)\<lparr>clock_hand := clock_at (dropWhile ?R us @ ps)\<rparr>)"
    by (rule clock_loop_sweep)
      (use ok0 us(2) r split in \<open>auto simp: ps_def dest: set_takeWhileD\<close>)
  also have "(set_refs False (set ps) m0)\<lparr>clock_hand := clock_at (dropWhile ?R us @ ps)\<rparr> = m1"
    by (simp only: perm) (simp add: m1_def m0_def set_refs_hand ps_def clock_cleared_def clock_at_def)
  finally have loop: "clock_loop m0 = clock_loop m1" .
  have ok1: "frames_ok m1" "used m1 = used m" "links m1 = links m" "clock_hand m1 = Some (Frame_Entry ?v)"
    using frames_ok_set_refs [OF ok] by (simp_all add: m1_def)
  have C: "?C \<subseteq> used m" using us(2) by (auto simp: clock_cleared_def dest: set_takeWhileD)
  have unref: "\<not> frame_ref m1 ?v"
    using clock_rest_set [OF d ne, of ?R] us(2) vu frame_ref_set_refs [OF ok _ C, of ?v False]
    by (auto simp: m1_def subset_iff split: if_splits)
  have r1: "ring (links m1) (?v # ?rest)"
    using r split ring_rotate [of "links m" ps "dropWhile ?R us"] perm ok1(3) by metis
  obtain w h' where "clock_loop m1 = Some (Inr (w, m1\<lparr>links := h', clock_list := clock_at ?rest\<rparr>))"
    "unat w = ?v" "ring h' ?rest" "h' (Frame_Entry ?v) = unlinked"
    "\<forall>q. q \<notin> Frame_Entry ` set (?v # ?rest) \<longrightarrow> h' q = links m1 q"
    using clock_loop_victim [OF ok1(1) _ unref r1 ok1(4)] vu us(2) ok1(2) by blast
  note w = this
  have "\<forall>q. q \<notin> Frame_Entry ` set us \<longrightarrow> h' q = links m q" using w(5) unfolding setp ok1(3) .
  with w(1-4) show ?thesis
    using loop h hand unfolding CSC369_PolicyClockEvict_def m0_def m1_def
    by (intro exI [of _ w] exI [of _ h'] conjI) simp_all
qed

lemma ClockOnRef_new:
  assumes ok: "frames_ok m" and f: "f \<in> used m" and r: "clock_ring m xs" "f \<notin> set xs"
  shows "\<exists>h'. CSC369_PolicyClockOnRef f m = Inr ((set_refs True {f} m)\<lparr>links := h',
      clock_list := clock_at (xs @ [f]), clock_hand := Some (Frame_Entry f)\<rparr>) \<and> ring h' (xs @ [f]) \<and>
    (\<forall>q. q \<notin> Frame_Entry ` set (f # xs) \<longrightarrow> h' q = links m q)"
proof -
  have l: "f < length (frames m)" using f ok by (simp add: used_def frames_ok_def)
  have u: "links m (Frame_Entry f) = unlinked" using r by (simp add: clock_ring_def)
  then have u': "list_entry_init (Frame_Entry f) (links m) = links m" by (auto simp: list_entry_init_def)
  show ?thesis
  proof (cases xs)
    case Nil
    then have cl: "clock_list m = None" using r by (simp add: clock_ring_def clock_at_def)
    have "CSC369_PolicyClockOnRef f m = Inr ((set_refs True {f} m)\<lparr>links := list_init (Frame_Entry f) (links m),
      clock_list := Some (Frame_Entry f), clock_hand := Some (Frame_Entry f)\<rparr>)"
      using l SetReferenced_frame [OF ok f, of True] cl u'
      by (simp add: CSC369_PolicyClockOnRef_def Let_def)
    then show ?thesis using Nil by (auto simp: clock_at_def dlist_init)
  next
    case (Cons x ys)
    then have cl: "clock_list m = Some (Frame_Entry x)" and rg: "ring (links m) (x # ys)"
      using r by (auto simp: clock_ring_def clock_at_def)
    obtain h' where h': "list_add_tail (Frame_Entry x) (Frame_Entry f) (links m) = Inr h'"
      "ring h' (x # ys @ [f])" "\<forall>q. q \<notin> Frame_Entry ` set (f # x # ys) \<longrightarrow> h' q = links m q"
      using ring_add [OF rg] r(2) Cons by blast
    have "(set_refs True {f} m)\<lparr>links := h', clock_hand := Some (Frame_Entry f)\<rparr> =
       (set_refs True {f} m)\<lparr>links := h', clock_list := clock_list m, clock_hand := Some (Frame_Entry f)\<rparr>"
      by (simp add: set_refs_def)
    then have "CSC369_PolicyClockOnRef f m = Inr ((set_refs True {f} m)\<lparr>links := h',
      clock_list := Some (Frame_Entry x), clock_hand := Some (Frame_Entry f)\<rparr>)"
      using l SetReferenced_frame [OF ok f, of True] cl u u' h'(1)
      by (simp add: CSC369_PolicyClockOnRef_def Let_def with_links_def)
    then show ?thesis using h' Cons by (auto simp: clock_at_def)
  qed
qed

lemma ClockOnRef_old:
  assumes ok: "frames_ok m" and f: "f \<in> used m" and r: "clock_ring m xs" "f \<in> set xs"
  shows "CSC369_PolicyClockOnRef f m = Inr (set_refs True {f} m)"
proof -
  have l: "f < length (frames m)" using f ok by (simp add: used_def frames_ok_def)
  have "list_entry_is_linked (Frame_Entry f) (links m)"
    using r ring_linked by (auto simp: clock_ring_def)
  moreover obtain x where "clock_list m = Some x" using r by (cases xs) (auto simp: clock_ring_def clock_at_def)
  ultimately show ?thesis using l SetReferenced_frame [OF ok f, of True]
    by (simp add: CSC369_PolicyClockOnRef_def Let_def)
qed

section \<open>The contract\<close>

interpretation clock: replacement_policy
  CSC369_PolicyClockInit CSC369_PolicyClockOnRef CSC369_PolicyClockEvict clock_inv
proof
  fix m :: machine
  assume m: "policy_fresh m" "0 < memsize m"
  then have "clock_ring m []" by (simp add: clock_ring_def clock_at_def policy_fresh_def)
  then show "core_eq m (CSC369_PolicyClockInit m) \<and> clock_inv {} (CSC369_PolicyClockInit m)"
    by (auto simp: CSC369_PolicyClockInit_def clock_inv_def)
next
  fix m :: machine
  assume m: "frames_ok m" "0 < memsize m" "used m = {..<memsize m}" "clock_inv {..<memsize m} m"
  then obtain xs x where xs: "clock_ring m xs" "set xs = used m" "x \<in> used m" "clock_hand m = Some (Frame_Entry x)"
    by (auto simp: clock_inv_def)
  then obtain as bs where "xs = as @ x # bs" using split_list [of x xs] by auto
  then obtain us where us: "us = (bs @ as) @ [x]" "set us = set xs" "ring (links m) us"
    using xs(1) ring_rotate [of "links m" "as @ [x]" bs] by (auto simp: clock_ring_def)
  let ?v = "clock_victim (frame_ref m) us" and ?rest = "clock_rest (frame_ref m) us"
  let ?C = "clock_cleared (frame_ref m) us"
  obtain v h' where e: "CSC369_PolicyClockEvict m = Inr (v, (set_refs False ?C m)\<lparr>
        clock_hand := Some (Frame_Entry ?v), links := h', clock_list := clock_at ?rest\<rparr>)" (is "_ = Inr (v, ?m')")
    and v: "unat v = ?v" and r: "ring h' ?rest" "h' (Frame_Entry ?v) = unlinked"
      "\<forall>q. q \<notin> Frame_Entry ` set us \<longrightarrow> h' q = links m q"
    using ClockEvict_refines [OF m(1) us(1) _ us(3) xs(4)] us(2) xs(2) by auto
  have C: "?C \<subseteq> used m" using us(2) xs(2) by (auto simp: clock_cleared_def dest: set_takeWhileD)
  have d: "distinct us" using ring_distinct [OF us(3)] .
  have cv: "set ?rest = set us - {?v} \<and> ?v \<in> set us \<and> (?v \<in> ?C \<or> \<not> frame_ref m ?v)"
    using clock_rest_set [OF d, of "frame_ref m"] us(1) by simp
  have "clock_ring ?m' ?rest"
    using r cv xs(1) us(2) by (auto simp: clock_ring_def)
  moreover have "set ?rest = {..<memsize m} - {?v}" using cv us(2) xs(2) m(3) by simp
  ultimately have "clock_inv ({..<memsize m} - {?v}) ?m'"
    using cv us(2) xs(2) m(3) by (auto simp: clock_inv_def)
  moreover have "\<not> frame_ref ?m' ?v"
    using cv us(2) xs(2) frame_ref_set_refs [OF m(1) _ C, of ?v False] by auto
  moreover have "core_eq m ?m'" using core_eq_refs [of m m ?C False] C by simp
  moreover have "?v < memsize m" using cv us(2) xs(2) m(3) by auto
  ultimately show "\<exists>v m'. CSC369_PolicyClockEvict m = Inr (v, m') \<and> unat v < memsize m \<and>
      core_eq m m' \<and> clock_inv ({..<memsize m} - {unat v}) m' \<and> \<not> frame_ref m' (unat v)"
    using e v by auto
next
  fix m :: machine and f U
  assume m: "frames_ok m" "f \<in> used m" "U \<subseteq> used m" "clock_inv U m"
  then obtain xs where xs: "clock_ring m xs" "set xs = U" by (auto simp: clock_inv_def)
  show "\<exists>m'. CSC369_PolicyClockOnRef f m = Inr m' \<and> core_eq m m' \<and> clock_inv (insert f U) m'"
  proof (cases "f \<in> U")
    case True
    then have "insert f U = U" by auto
    moreover have "core_eq m (set_refs True {f} m)" using core_eq_refs [of m m "{f}"] m(2) by simp
    moreover have "clock_inv U (set_refs True {f} m)" 
      using m(4) unfolding clock_inv_def clock_ring_def set_refs_simps .
    ultimately show ?thesis using ClockOnRef_old [OF m(1,2) xs(1)] True xs(2) by simp
  next
    case False
    then have fx: "f \<notin> set xs" using xs(2) by simp
    obtain h' where h': "CSC369_PolicyClockOnRef f m = Inr ((set_refs True {f} m)\<lparr>links := h',
        clock_list := clock_at (xs @ [f]), clock_hand := Some (Frame_Entry f)\<rparr>)" (is "_ = Inr ?m'")
      "ring h' (xs @ [f])" "\<forall>q. q \<notin> Frame_Entry ` set (f # xs) \<longrightarrow> h' q = links m q"
      using ClockOnRef_new [OF m(1,2) xs(1) fx] by blast
    have "clock_ring ?m' (xs @ [f])"
      using h'(2,3) xs(1) by (auto simp: clock_ring_def)
    then have "clock_inv (insert f U) ?m'" using xs(2) by (force simp: clock_inv_def)
    moreover have "core_eq m ?m'" using core_eq_refs [of m m "{f}"] m(2) by simp
    ultimately show ?thesis using h'(1) by blast
  qed
next
  fix m m' :: machine and U
  assume c: "clock_inv U m" and s: "policy_same m m'"
  have e: "links m' = links m" "clock_list m' = clock_list m" "clock_hand m' = clock_hand m"
    "memsize m' = memsize m"
    using s by (simp_all add: policy_same_def)
  show "clock_inv U m'" using c unfolding clock_inv_def clock_ring_def e .
qed

section \<open>Properties\<close>

text \<open>
  C18: eviction by the clock terminates, whatever the reference bits are.  Starting after the
  hand, it takes the first frame whose page is not referenced, or, if all are, the first frame;
  it clears the bits of exactly the frames it passed, and the list that remains starts behind
  the victim.
\<close>

theorem clock_evict_spec:
  assumes "frames_ok m" "ring (links m) (ys @ [x])" "set (ys @ [x]) \<subseteq> used m"
    and "clock_hand m = Some (Frame_Entry x)"
  shows "\<exists>v m'. CSC369_PolicyClockEvict m = Inr (v, m') \<and> unat v = clock_victim (frame_ref m) (ys @ [x]) \<and>
    clock_list m' = clock_at (clock_rest (frame_ref m) (ys @ [x])) \<and>
    ring (links m') (clock_rest (frame_ref m) (ys @ [x])) \<and>
    links m' (Frame_Entry (clock_victim (frame_ref m) (ys @ [x]))) = unlinked \<and>
    (\<forall>i \<in> used m. frame_ref m' i \<longleftrightarrow> frame_ref m i \<and> i \<notin> clock_cleared (frame_ref m) (ys @ [x]))"
proof -
  let ?us = "ys @ [x]" and ?R = "frame_ref m"
  have C: "clock_cleared ?R ?us \<subseteq> used m"
    using assms(3) set_takeWhileD unfolding clock_cleared_def by (metis subset_iff)
  obtain v h' where "CSC369_PolicyClockEvict m =
      Inr (v, (set_refs False (clock_cleared ?R ?us) m)\<lparr>
        clock_hand := Some (Frame_Entry (clock_victim ?R ?us)), links := h',
        clock_list := clock_at (clock_rest ?R ?us)\<rparr>)"
    "unat v = clock_victim ?R ?us" "ring h' (clock_rest ?R ?us)"
    "h' (Frame_Entry (clock_victim ?R ?us)) = unlinked"
    using ClockEvict_refines [OF assms(1) refl assms(3,2,4)] by blast
  then show ?thesis using frame_ref_set_refs [OF assms(1) _ C, of _ False] by auto
qed

definition two_ring :: "lnode links" where
  "two_ring = (\<lambda>e. unlinked)(Frame_Entry 0 := \<lparr>nxt = Some (Frame_Entry 1), prv = Some (Frame_Entry 1)\<rparr>,
     Frame_Entry 1 := \<lparr>nxt = Some (Frame_Entry 0), prv = Some (Frame_Entry 0)\<rparr>)"

theorem clock_evict_spec_witness:
  "\<exists>v m'. CSC369_PolicyClockEvict ((set_refs True {0} (full_machine 2))\<lparr>links := two_ring,
      clock_list := Some (Frame_Entry 0), clock_hand := Some (Frame_Entry 1)\<rparr>) = Inr (v, m') \<and> unat v = 1"
proof -
  let ?m0 = "set_refs True {0} (full_machine 2)"
  let ?m = "?m0\<lparr>links := two_ring, clock_list := Some (Frame_Entry 0), clock_hand := Some (Frame_Entry 1)\<rparr>"
  have ok: "frames_ok (full_machine 2)" by (rule full_machine_ok) simp
  have r: "frame_ref ?m 0" "\<not> frame_ref ?m 1"
    using frame_ref_set_refs [OF ok, of 0 "{0}" True] frame_ref_set_refs [OF ok, of 1 "{0}" True] by simp_all
  have "\<exists>v m'. CSC369_PolicyClockEvict ?m = Inr (v, m') \<and> unat v = clock_victim (frame_ref ?m) ([0] @ [1])"
    using clock_evict_spec [of ?m "[0]" 1] frames_ok_set_refs [OF ok] by (auto simp: two_ring_def dlist_def)
  moreover have "clock_victim (frame_ref ?m) ([0] @ [1]) = 1" using r by (simp add: clock_victim_def)
  ultimately show ?thesis by simp
qed

text \<open>
  A reference to a page on the ring sets its bit and moves nothing; a new page enters right
  before the head of the list, which is where the page it replaces was, and the hand moves to it.
\<close>

lemma clock_on_ref_spec:
  assumes ok: "frames_ok m" and f: "f \<in> used m" and r: "clock_ring m xs"
  shows "\<exists>m'. CSC369_PolicyClockOnRef f m = Inr m' \<and> frame_ref m' f \<and>
    (\<forall>i \<in> used m. i \<noteq> f \<longrightarrow> frame_ref m' i = frame_ref m i) \<and>
    clock_ring m' (if f \<in> set xs then xs else xs @ [f]) \<and>
    clock_hand m' = (if f \<in> set xs then clock_hand m else Some (Frame_Entry f))"
proof -
  have fr: "frame_ref (set_refs True {f} m) i = (i = f \<or> frame_ref m i)" if "i \<in> used m" for i
    using frame_ref_set_refs [OF ok that, of "{f}" True] f by simp
  show ?thesis
  proof (cases "f \<in> set xs")
    case True
    then show ?thesis using ClockOnRef_old [OF ok f r True] fr f r by (auto simp: clock_ring_def)
  next
    case False
    obtain h' where "CSC369_PolicyClockOnRef f m = Inr ((set_refs True {f} m)\<lparr>links := h',
        clock_list := clock_at (xs @ [f]), clock_hand := Some (Frame_Entry f)\<rparr>)"
      "ring h' (xs @ [f])" "\<forall>q. q \<notin> Frame_Entry ` set (f # xs) \<longrightarrow> h' q = links m q"
      using ClockOnRef_new [OF ok f r False] by blast
    then show ?thesis using fr f r False by (auto simp: clock_ring_def)
  qed
qed

lemma clock_on_ref_spec_sample:
  "\<exists>m'. CSC369_PolicyClockOnRef 1 (full_machine 2) = Inr m' \<and> clock_ring m' [1] \<and>
     clock_hand m' = Some (Frame_Entry 1)"
proof -
  have "clock_ring (full_machine 2) []" by (simp add: clock_ring_def clock_at_def) (simp add: full_machine_def)
  from clock_on_ref_spec [OF full_machine_ok _ this, of 1] show ?thesis by auto
qed

end
