(* ===== verification/PolicyS2Q.thy ===== *)
theory PolicyS2Q
  imports Policy
begin

text \<open>
  \<open>csc369_policy_s2q.c\<close>: the simplified 2Q policy over two intrusive lists, refined against
  the algorithm of the paper on two sequences of frame numbers: the FIFO queue \<open>A1\<close> of the
  pages referenced once and the LRU queue \<open>Am\<close>, most recently used first.  The reference
  bit of a resident page tells which of the two queues its frame is on.
\<close>

section \<open>The code\<close>

definition CSC369_PolicyS2QInit :: "machine \<Rightarrow> machine" where
  "CSC369_PolicyS2QInit m = m\<lparr>links := list_init Am_Head (list_init A1_Head (links m))\<rparr>"

definition CSC369_PolicyS2QCleanup :: "machine \<Rightarrow> machine" where
  "CSC369_PolicyS2QCleanup m = m"

definition CSC369_PolicyS2QOnRef :: "nat \<Rightarrow> machine \<Rightarrow> machine res" where
  "CSC369_PolicyS2QOnRef f m =
     bindR (frame_read f m) (\<lambda>frame.
     bindR (assertR (\<not> free frame)) (\<lambda>_.
     let curr_entry = Frame_Entry f in
     if \<not> list_entry_is_linked curr_entry (links m) then
       with_links (list_add_tail A1_Head curr_entry) m
     else
       bindR (CSC369_PTEIsReferenced (pte frame) (heap m)) (\<lambda>r.
       bindR (if \<not> r then with_heap (CSC369_PTESetReferenced (pte frame) True) m else Inr m) (\<lambda>m.
       bindR (with_links (list_del curr_entry) m) (\<lambda>m.
       with_links (list_add_head Am_Head curr_entry) m)))))"

definition CSC369_PolicyS2QEvict :: "machine \<Rightarrow> (u64 \<times> machine) res" where
  "CSC369_PolicyS2QEvict m =
     bindR (list_count A1_Head (links m)) (\<lambda>i.
     case (if i > memsize m div 10 then list_first_entry A1_Head (links m)
           else list_last_entry Am_Head (links m)) of
       None \<Rightarrow> Inl NullDeref
     | Some evict_entry \<Rightarrow>
         bindR (container_of_frame evict_entry) (\<lambda>f.
         bindR (with_links (list_del evict_entry) m) (\<lambda>m.
         let m = m\<lparr>links := list_entry_init evict_entry (links m)\<rparr> in
         bindR (frame_read f m) (\<lambda>evict_frame.
         bindR (with_heap (CSC369_PTESetReferenced (pte evict_frame) False) m) (\<lambda>m.
         bindR (CSC369_PTEGetFrameNumber (pte evict_frame) (heap m)) (\<lambda>v.
         Inr (v, m)))))))"

definition policy_S2Q :: CSC369_Policy where
  "policy_S2Q = \<lparr>policy_name = ''S2Q'', CSC369_PolicyInit = CSC369_PolicyS2QInit,
     CSC369_PolicyCleanup = CSC369_PolicyS2QCleanup, CSC369_PolicyOnRef = CSC369_PolicyS2QOnRef,
     CSC369_PolicyEvict = CSC369_PolicyS2QEvict\<rparr>"

section \<open>The algorithm on two sequences\<close>

definition s2q_ref :: "'a \<Rightarrow> 'a list \<times> 'a list \<Rightarrow> 'a list \<times> 'a list" where
  "s2q_ref f q = (case q of (a1, am) \<Rightarrow>
     if f \<notin> set (a1 @ am) then (a1 @ [f], am) else (remove1 f a1, f # remove1 f am))"

definition s2q_victim :: "nat \<Rightarrow> 'a list \<times> 'a list \<Rightarrow> 'a" where
  "s2q_victim n q = (case q of (a1, am) \<Rightarrow> if length a1 > n div 10 then hd a1 else last am)"

definition s2q_evict :: "nat \<Rightarrow> 'a list \<times> 'a list \<Rightarrow> 'a list \<times> 'a list" where
  "s2q_evict n q = (case q of (a1, am) \<Rightarrow>
     if length a1 > n div 10 then (tl a1, am) else (a1, butlast am))"

text \<open>The abstraction relation between the links and the two sequences.\<close>

definition s2q_links :: "lnode links \<Rightarrow> nat list \<Rightarrow> nat list \<Rightarrow> bool" where
  "s2q_links h a1 am \<longleftrightarrow> dlist h A1_Head (map Frame_Entry a1) \<and> dlist h Am_Head (map Frame_Entry am) \<and>
     distinct (a1 @ am) \<and> (\<forall>i. i \<notin> set (a1 @ am) \<longrightarrow> h (Frame_Entry i) = unlinked)"

definition s2q_abs :: "machine \<Rightarrow> nat list \<times> nat list \<Rightarrow> bool" where
  "s2q_abs m q \<longleftrightarrow> s2q_links (links m) (fst q) (snd q) \<and>
     (\<forall>i \<in> set (fst q). \<not> frame_ref m i) \<and> (\<forall>i \<in> set (snd q). frame_ref m i)"

definition s2q_inv :: "nat set \<Rightarrow> machine \<Rightarrow> bool" where
  "s2q_inv U m \<longleftrightarrow> (\<exists>q. s2q_abs m q \<and> set (fst q) \<union> set (snd q) = U)"

section \<open>List operations\<close>

lemma s2q_links_linked:
  "s2q_links h a1 am \<Longrightarrow> list_entry_is_linked (Frame_Entry f) h \<longleftrightarrow> f \<in> set (a1 @ am)"
  using dlist_linked [of h A1_Head _ "Frame_Entry f"] dlist_linked [of h Am_Head _ "Frame_Entry f"]
  by (auto simp: s2q_links_def)

lemma s2q_links_append:
  assumes "s2q_links h a1 am" "f \<notin> set (a1 @ am)"
  shows "\<exists>h'. list_add_tail A1_Head (Frame_Entry f) h = Inr h' \<and> s2q_links h' (a1 @ [f]) am"
proof -
  obtain h' where h': "list_add_tail A1_Head (Frame_Entry f) h = Inr h'"
    "dlist h' A1_Head (map Frame_Entry a1 @ [Frame_Entry f])"
    "\<forall>q. q \<notin> set (Frame_Entry f # A1_Head # map Frame_Entry a1) \<longrightarrow> h' q = h q"
    using list_add_tail_spec [of h A1_Head "map Frame_Entry a1" "Frame_Entry f"] assms
    by (auto simp: s2q_links_def)
  have "dlist h' Am_Head (map Frame_Entry am) = dlist h Am_Head (map Frame_Entry am)"
    by (rule dlist_cong) (use assms h'(3) in \<open>auto simp: s2q_links_def\<close>)
  with assms h' show ?thesis by (auto simp: s2q_links_def)
qed

lemma s2q_links_push:
  assumes "s2q_links h a1 am" "f \<notin> set (a1 @ am)"
  shows "\<exists>h'. list_add_head Am_Head (Frame_Entry f) h = Inr h' \<and> s2q_links h' a1 (f # am)"
proof -
  obtain h' where h': "list_add_head Am_Head (Frame_Entry f) h = Inr h'"
    "dlist h' Am_Head (Frame_Entry f # map Frame_Entry am)"
    "\<forall>q. q \<notin> set (Frame_Entry f # Am_Head # map Frame_Entry am) \<longrightarrow> h' q = h q"
    using list_add_head_spec [of h Am_Head "map Frame_Entry am" "Frame_Entry f"] assms
    by (auto simp: s2q_links_def)
  have "dlist h' A1_Head (map Frame_Entry a1) = dlist h A1_Head (map Frame_Entry a1)"
    by (rule dlist_cong) (use assms h'(3) in \<open>auto simp: s2q_links_def\<close>)
  with assms h' show ?thesis by (auto simp: s2q_links_def)
qed

lemma s2q_links_del:
  assumes s: "s2q_links h a1 am" and f: "f \<in> set (a1 @ am)"
  shows "\<exists>h'. list_del (Frame_Entry f) h = Inr h' \<and> h' (Frame_Entry f) = unlinked \<and>
     s2q_links h' (remove1 f a1) (remove1 f am)"
proof (cases "f \<in> set a1")
  case True
  then obtain us vs where a1: "a1 = us @ f # vs" by (auto dest: split_list)
  with s have n: "f \<notin> set am" "f \<notin> set us" by (auto simp: s2q_links_def)
  obtain h' where h': "list_del (Frame_Entry f) h = Inr h'"
    "dlist h' A1_Head (map Frame_Entry us @ map Frame_Entry vs)" "h' (Frame_Entry f) = unlinked"
    "\<forall>q. q \<notin> set (Frame_Entry f # A1_Head # map Frame_Entry us @ map Frame_Entry vs) \<longrightarrow> h' q = h q"
    using list_del_spec [of h A1_Head "map Frame_Entry us" "Frame_Entry f" "map Frame_Entry vs"] s a1
    by (auto simp: s2q_links_def)
  have "dlist h' Am_Head (map Frame_Entry am) = dlist h Am_Head (map Frame_Entry am)"
    by (rule dlist_cong) (use s a1 h'(4) in \<open>auto simp: s2q_links_def\<close>)
  moreover have "h' (Frame_Entry i) = unlinked" if "i \<notin> set (us @ vs @ am)" for i
    using that s a1 h'(3,4) by (cases "i = f") (auto simp: s2q_links_def)
  ultimately show ?thesis
    using s a1 n h'(1-3) by (auto simp: s2q_links_def remove1_append remove1_idem)
next
  case False
  with f obtain us vs where am: "am = us @ f # vs" by (auto dest: split_list)
  with s have n: "f \<notin> set us" by (auto simp: s2q_links_def)
  obtain h' where h': "list_del (Frame_Entry f) h = Inr h'"
    "dlist h' Am_Head (map Frame_Entry us @ map Frame_Entry vs)" "h' (Frame_Entry f) = unlinked"
    "\<forall>q. q \<notin> set (Frame_Entry f # Am_Head # map Frame_Entry us @ map Frame_Entry vs) \<longrightarrow> h' q = h q"
    using list_del_spec [of h Am_Head "map Frame_Entry us" "Frame_Entry f" "map Frame_Entry vs"] s am
    by (auto simp: s2q_links_def)
  have "dlist h' A1_Head (map Frame_Entry a1) = dlist h A1_Head (map Frame_Entry a1)"
    by (rule dlist_cong) (use s am h'(4) in \<open>auto simp: s2q_links_def\<close>)
  moreover have "h' (Frame_Entry i) = unlinked" if "i \<notin> set (a1 @ us @ vs)" for i
    using that s am h'(3,4) by (cases "i = f") (auto simp: s2q_links_def)
  ultimately show ?thesis
    using s am n False h'(1-3) by (auto simp: s2q_links_def remove1_append remove1_idem)
qed

section \<open>Refinement\<close>

text \<open>
  A reference under S2Q does to the two lists what the algorithm says: a new page goes to the
  tail of A1; a page on A1 is promoted to the front of Am and marked referenced; a page on Am
  moves to the front.
\<close>

lemma S2QOnRef_refines:
  assumes ok: "frames_ok m" and f: "f \<in> used m" and a: "s2q_abs m (a1, am)"
    and sub: "set a1 \<union> set am \<subseteq> used m" and new: "f \<in> set a1 \<union> set am \<or> \<not> frame_ref m f"
  shows "\<exists>m'. CSC369_PolicyS2QOnRef f m = Inr m' \<and> core_eq m m' \<and> s2q_abs m' (s2q_ref f (a1, am))"
proof -
  obtain fr where fr: "frame_read f m = Inr fr" "\<not> free fr" "pte fr = pte (frames m ! f)"
    using ok f by (auto simp: frames_ok_def used_def)
  have ql: "s2q_links (links m) a1 am" and r1: "\<forall>i \<in> set a1. \<not> frame_ref m i"
    and rm: "\<forall>i \<in> set am. frame_ref m i" using a by (auto simp: s2q_abs_def)
  show ?thesis
  proof (cases "f \<in> set (a1 @ am)")
    case False
    obtain h' where "list_add_tail A1_Head (Frame_Entry f) (links m) = Inr h'" "s2q_links h' (a1 @ [f]) am"
      using s2q_links_append [OF ql False] by blast
    then show ?thesis
      using fr False new r1 rm s2q_links_linked [OF ql, of f]
      by (auto simp: CSC369_PolicyS2QOnRef_def Let_def s2q_abs_def s2q_ref_def)
  next
    case True
    define m1 where "m1 = (if frame_ref m f then m else set_refs True {f} m)"
    have m1': "links m1 = links m" "core_eq m m1" "\<And>i. i \<in> used m \<Longrightarrow> frame_ref m1 i = (i = f \<or> frame_ref m i)"
      using f by (auto simp: m1_def frame_ref_set_refs [OF ok] intro: core_eq_refs)
    obtain h1 where h1: "list_del (Frame_Entry f) (links m) = Inr h1" "s2q_links h1 (remove1 f a1) (remove1 f am)"
      using s2q_links_del [OF ql True] by blast
    have d: "distinct a1" "distinct am" using ql by (auto simp: s2q_links_def)
    then have "f \<notin> set (remove1 f a1 @ remove1 f am)" by (simp add: set_remove1_eq)
    then obtain h2 where h2: "list_add_head Am_Head (Frame_Entry f) h1 = Inr h2"
      "s2q_links h2 (remove1 f a1) (f # remove1 f am)"
      using s2q_links_push [OF h1(2)] by blast
    have "CSC369_PolicyS2QOnRef f m = Inr (m1\<lparr>links := h2\<rparr>)"
    proof (cases "frame_ref m f")
      case ref: True
      then show ?thesis
        using h1(1) h2(1) fr(1,2) True s2q_links_linked [OF ql, of f] IsReferenced_frame [OF ok f]
        by (simp add: CSC369_PolicyS2QOnRef_def Let_def with_links_def fr(3) m1_def)
    next
      case ref: False
      then show ?thesis
        using h1(1) h2(1) fr(1,2) True s2q_links_linked [OF ql, of f] IsReferenced_frame [OF ok f]
          SetReferenced_frame [OF ok f, of True]
        by (simp add: CSC369_PolicyS2QOnRef_def Let_def with_links_def fr(3) m1_def)
    qed
    moreover have "s2q_abs (m1\<lparr>links := h2\<rparr>) (s2q_ref f (a1, am))"
      using h2(2) True sub r1 rm f d
      by (auto simp: s2q_abs_def s2q_ref_def m1'(3) set_remove1_eq subset_iff)
    ultimately show ?thesis using m1'(2) by auto
  qed
qed

lemma remove1_hd: "xs \<noteq> [] \<Longrightarrow> remove1 (hd xs) xs = tl xs"
  by (cases xs) auto

lemma remove1_last: "distinct xs \<Longrightarrow> xs \<noteq> [] \<Longrightarrow> remove1 (last xs) xs = butlast xs"
  by (cases xs rule: rev_exhaust) (auto simp: remove1_append)

lemma S2QEvict_refines:
  assumes ok: "frames_ok m" and a: "s2q_abs m (a1, am)" and U: "set a1 \<union> set am = used m"
    and ne: "length a1 > memsize m div 10 \<or> am \<noteq> []"
  shows "\<exists>v m'. CSC369_PolicyS2QEvict m = Inr (v, m') \<and> unat v = s2q_victim (memsize m) (a1, am) \<and>
    core_eq m m' \<and> s2q_abs m' (s2q_evict (memsize m) (a1, am)) \<and>
    s2q_victim (memsize m) (a1, am) \<in> used m \<and> \<not> frame_ref m' (s2q_victim (memsize m) (a1, am))"
proof -
  define f where "f = s2q_victim (memsize m) (a1, am)"
  define q where "q = s2q_evict (memsize m) (a1, am)"
  have ql: "s2q_links (links m) a1 am" and r1: "\<forall>i \<in> set a1. \<not> frame_ref m i"
    and rm: "\<forall>i \<in> set am. frame_ref m i" using a by (auto simp: s2q_abs_def)
  have d: "distinct (a1 @ am)" and l1: "dlist (links m) A1_Head (map Frame_Entry a1)"
    and lm: "dlist (links m) Am_Head (map Frame_Entry am)"
    using ql by (auto simp: s2q_links_def)
  have c: "list_count A1_Head (links m) = Inr (length a1)" using list_count_spec [OF l1] by simp
  have e: "(if length a1 > memsize m div 10 then list_first_entry A1_Head (links m)
      else list_last_entry Am_Head (links m)) = Some (Frame_Entry f)"
  proof (cases "length a1 > memsize m div 10")
    case True
    then have "a1 \<noteq> []" by auto
    then show ?thesis using True list_first_entry_spec [OF l1]
      by (simp add: f_def s2q_victim_def hd_append hd_map)
  next
    case False
    then have "am \<noteq> []" using ne by simp
    then show ?thesis using False list_last_entry_spec [OF lm]
      by (simp add: f_def s2q_victim_def last_map)
  qed
  have fin: "f \<in> set (a1 @ am)" and qd: "q = (remove1 f a1, remove1 f am)"
  proof -
    show "f \<in> set (a1 @ am)"
      using ne by (cases "a1 = []") (auto simp: f_def s2q_victim_def)
    show "q = (remove1 f a1, remove1 f am)"
    proof (cases "length a1 > memsize m div 10")
      case True
      then have "a1 \<noteq> []" by auto
      then have "hd a1 \<notin> set am" using d by (cases a1) auto
      with True \<open>a1 \<noteq> []\<close> show ?thesis
        by (simp add: q_def f_def s2q_evict_def s2q_victim_def remove1_hd remove1_idem)
    next
      case False
      then have "am \<noteq> []" using ne by simp
      then have "last am \<notin> set a1" using d last_in_set [of am] by auto
      with False \<open>am \<noteq> []\<close> d show ?thesis
        by (simp add: q_def f_def s2q_evict_def s2q_victim_def remove1_last remove1_idem)
    qed
  qed
  have fu: "f \<in> used m" using fin U by auto
  obtain h' where h': "list_del (Frame_Entry f) (links m) = Inr h'" "h' (Frame_Entry f) = unlinked"
    "s2q_links h' (remove1 f a1) (remove1 f am)"
    using s2q_links_del [OF ql fin] by blast
  then have h'': "list_entry_init (Frame_Entry f) h' = h'" by (auto simp: list_entry_init_def)
  define m1 where "m1 = m\<lparr>links := h'\<rparr>"
  have ok1: "frames_ok m1" "f \<in> used m1" using ok fu by (simp_all add: m1_def)
  have ok2: "frames_ok (set_refs False {f} m1)" "f \<in> used (set_refs False {f} m1)"
    using ok1 frames_ok_set_refs by auto
  obtain v where v: "CSC369_PTEGetFrameNumber (pte (frames m1 ! f)) (heap (set_refs False {f} m1)) = Inr v" "unat v = f"
    using GetFrameNumber_frame [OF ok2] by auto
  have fl: "f < length (frames m)" using ok fu by (auto simp: frames_ok_def used_def)
  have "CSC369_PolicyS2QEvict m = Inr (v, set_refs False {f} m1)"
    using c e h'(1) h'' v(1) fl SetReferenced_frame [OF ok1, of False]
    by (simp add: CSC369_PolicyS2QEvict_def Let_def with_links_def m1_def)
  moreover have "core_eq m (set_refs False {f} m1)"
    by (rule core_eq_refs) (use fu in \<open>simp_all add: m1_def\<close>)
  moreover have "s2q_abs (set_refs False {f} m1) q"
  proof -
    have "frame_ref (set_refs False {f} m1) i = (i \<noteq> f \<and> frame_ref m i)" if "i \<in> used m" for i
      using that fu frame_ref_set_refs [OF ok1(1), of i "{f}" False] by (simp add: m1_def)
    moreover have "links (set_refs False {f} m1) = h'" by (simp add: m1_def)
    ultimately show ?thesis
      using h'(3) d r1 rm U qd by (simp add: s2q_abs_def set_remove1_eq)
        (metis Diff_iff Un_iff singletonI)
  qed
  moreover have "\<not> frame_ref (set_refs False {f} m1) f"
    using frame_ref_set_refs [OF ok1, of "{f}" False] ok1(2) by simp
  ultimately show ?thesis using v(2) fu unfolding f_def q_def by blast
qed

section \<open>The contract\<close>

lemma s2q_links_init:
  assumes "\<And>i. h (Frame_Entry i) = unlinked"
  shows "s2q_links (list_init Am_Head (list_init A1_Head h)) [] []"
proof -
  have "dlist (list_init Am_Head (list_init A1_Head h)) A1_Head [] = dlist (list_init A1_Head h) A1_Head []"
    by (rule dlist_cong) simp
  with assms show ?thesis by (simp add: s2q_links_def dlist_init)
qed

lemma s2q_ref_set: "set (fst (s2q_ref f q)) \<union> set (snd (s2q_ref f q)) \<supseteq> insert f (set (fst q) \<union> set (snd q))"
  by (auto simp: s2q_ref_def split: prod.split)

lemma s2q_sets_ref:
  assumes "distinct (a1 @ am)"
  shows "set (fst (s2q_ref f (a1, am))) \<union> set (snd (s2q_ref f (a1, am))) = insert f (set a1 \<union> set am)"
  using s2q_ref_set [of f "(a1, am)"] assms notin_set_remove1 [of _ _ f] by (auto simp: s2q_ref_def)

lemma s2q_sets_evict:
  assumes "distinct (a1 @ am)" and "length a1 > n div 10 \<or> am \<noteq> []"
  shows "set (fst (s2q_evict n (a1, am))) \<union> set (snd (s2q_evict n (a1, am))) =
    (set a1 \<union> set am) - {s2q_victim n (a1, am)}"
proof (cases "length a1 > n div 10")
  case True
  then obtain x xs where "a1 = x # xs" by (cases a1) auto
  with True assms(1) show ?thesis by (auto simp: s2q_evict_def s2q_victim_def)
next
  case False
  then obtain x xs where "am = xs @ [x]" using assms(2) by (cases am rule: rev_exhaust) auto
  with False assms(1) show ?thesis by (auto simp: s2q_evict_def s2q_victim_def)
qed

interpretation s2q: replacement_policy
  CSC369_PolicyS2QInit CSC369_PolicyS2QOnRef CSC369_PolicyS2QEvict s2q_inv
proof
  fix m :: machine
  assume "policy_fresh m" "0 < memsize m"
  then have "s2q_abs (CSC369_PolicyS2QInit m) ([], [])"
    by (simp add: CSC369_PolicyS2QInit_def s2q_abs_def s2q_links_init policy_fresh_def)
  then show "core_eq m (CSC369_PolicyS2QInit m) \<and> s2q_inv {} (CSC369_PolicyS2QInit m)"
    by (force simp: s2q_inv_def CSC369_PolicyS2QInit_def)
next
  fix m :: machine
  assume m: "frames_ok m" "0 < memsize m" "used m = {..<memsize m}" "s2q_inv {..<memsize m} m"
  then obtain a1 am where a: "s2q_abs m (a1, am)" and U: "set a1 \<union> set am = used m"
    by (auto simp: s2q_inv_def)
  then have ql: "distinct (a1 @ am)" by (simp add: s2q_abs_def s2q_links_def)
  have ne: "length a1 > memsize m div 10 \<or> am \<noteq> []"
  proof (cases "am = []")
    case True
    then have "distinct a1" "set a1 = {..<memsize m}" using U m(3) ql by auto
    then have "length a1 = memsize m" using distinct_card [of a1] by simp
    then show ?thesis using m(2) by simp
  qed simp
  let ?f = "s2q_victim (memsize m) (a1, am)"
  obtain v m' where e: "CSC369_PolicyS2QEvict m = Inr (v, m')" "unat v = ?f" "core_eq m m'"
    "s2q_abs m' (s2q_evict (memsize m) (a1, am))" "?f \<in> used m" "\<not> frame_ref m' ?f"
    using S2QEvict_refines [OF m(1) a U ne] by blast
  moreover have "s2q_inv ({..<memsize m} - {unat v}) m'"
    unfolding s2q_inv_def e(2)
    by (rule exI [of _ "s2q_evict (memsize m) (a1, am)"])
      (simp only: e(4) s2q_sets_evict [OF ql ne] U m(3) simp_thms)
  ultimately show "\<exists>v m'. CSC369_PolicyS2QEvict m = Inr (v, m') \<and> unat v < memsize m \<and>
      core_eq m m' \<and> s2q_inv ({..<memsize m} - {unat v}) m' \<and> \<not> frame_ref m' (unat v)"
    using m(3) by auto
next
  fix m :: machine and f U
  assume m: "frames_ok m" "f \<in> used m" "U \<subseteq> used m" "f \<in> U \<or> \<not> frame_ref m f" "s2q_inv U m"
  then obtain a1 am where a: "s2q_abs m (a1, am)" and U: "set a1 \<union> set am = U"
    by (auto simp: s2q_inv_def)
  obtain m' where "CSC369_PolicyS2QOnRef f m = Inr m'" "core_eq m m'" "s2q_abs m' (s2q_ref f (a1, am))"
    using S2QOnRef_refines [OF m(1,2) a] U m(3,4) by auto
  moreover have "s2q_inv (insert f U) m'"
    using calculation(3) s2q_sets_ref [of a1 am f] a U unfolding s2q_inv_def s2q_abs_def s2q_links_def
    by (metis fst_conv snd_conv)
  ultimately show "\<exists>m'. CSC369_PolicyS2QOnRef f m = Inr m' \<and> core_eq m m' \<and> s2q_inv (insert f U) m'"
    by blast
next
  fix m m' :: machine and U
  assume "s2q_inv U m" "policy_same m m'" "\<And>i. i \<in> U \<Longrightarrow> frame_ref m' i = frame_ref m i"
  then obtain q where "s2q_abs m q" "set (fst q) \<union> set (snd q) = U" "links m' = links m"
    "\<And>i. i \<in> set (fst q) \<union> set (snd q) \<Longrightarrow> frame_ref m' i = frame_ref m i"
    by (auto simp: s2q_inv_def policy_same_def)
  then show "s2q_inv U m'" unfolding s2q_inv_def by (intro exI [of _ q]) (auto simp: s2q_abs_def)
qed

section \<open>Properties\<close>

lemma s2q_abs_init: "s2q_abs (CSC369_PolicyS2QInit (full_machine n)) ([], [])"
  by (simp add: CSC369_PolicyS2QInit_def s2q_abs_def s2q_links_init)

lemma s2q_sample:
  "\<exists>m. frames_ok m \<and> used m = {0, 1} \<and> memsize m = 2 \<and> s2q_abs m ([0], []) \<and> \<not> frame_ref m 1"
proof -
  let ?m = "CSC369_PolicyS2QInit (full_machine 2)"
  have ok: "frames_ok ?m" by (simp add: CSC369_PolicyS2QInit_def full_machine_ok)
  have us: "used ?m = {0, 1}" by (auto simp: CSC369_PolicyS2QInit_def)
  have nr: "\<not> frame_ref ?m 0" "\<not> frame_ref ?m 1" by (simp_all add: CSC369_PolicyS2QInit_def)
  have "s2q_links (links ?m) [] []" using s2q_abs_init [of 2] by (simp add: s2q_abs_def)
  then obtain h where h: "s2q_links h [0] []" using s2q_links_append [of _ "[]" "[]" 0] by auto
  have "s2q_abs (?m\<lparr>links := h\<rparr>) ([0], [])" using h nr by (simp add: s2q_abs_def)
  then show ?thesis
    using ok us nr by (intro exI [of _ "?m\<lparr>links := h\<rparr>"]) (simp add: CSC369_PolicyS2QInit_def)
qed

lemma S2QOnRef_sample:
  "\<exists>m m'. s2q_abs m ([0], []) \<and> CSC369_PolicyS2QOnRef 0 m = Inr m' \<and> s2q_abs m' ([], [0])"
proof -
  obtain m where m: "frames_ok m" "used m = {0, 1}" "s2q_abs m ([0], [])" using s2q_sample by blast
  have "\<exists>m'. CSC369_PolicyS2QOnRef 0 m = Inr m' \<and> core_eq m m' \<and> s2q_abs m' (s2q_ref 0 ([0], []))"
    by (rule S2QOnRef_refines [OF m(1) _ m(3)]) (simp_all add: m(2))
  then show ?thesis using m(3) by (auto simp: s2q_ref_def)
qed

text \<open>
  C19: with every frame in use, eviction under S2Q takes the oldest page of A1 when A1 holds more
  than a tenth of the frames, and the least recently used page of Am otherwise; the victim
  leaves its list and is left unreferenced.
\<close>

theorem s2q_evict_spec:
  assumes "frames_ok m" "s2q_abs m (a1, am)" "set a1 \<union> set am = used m"
    and "length a1 > memsize m div 10 \<or> am \<noteq> []"
  shows "\<exists>v m'. CSC369_PolicyS2QEvict m = Inr (v, m') \<and> unat v = s2q_victim (memsize m) (a1, am) \<and>
    core_eq m m' \<and> s2q_abs m' (s2q_evict (memsize m) (a1, am)) \<and>
    unat v \<in> used m \<and> \<not> frame_ref m' (unat v)"
  using S2QEvict_refines [OF assms] by metis

theorem s2q_evict_spec_witness:
  "\<exists>m v m'. s2q_abs m ([0], []) \<and> CSC369_PolicyS2QEvict m = Inr (v, m') \<and> unat v = 0 \<and> s2q_abs m' ([], [])"
proof -
  let ?m = "CSC369_PolicyS2QInit (full_machine 1)"
  have ok: "frames_ok ?m" by (simp add: CSC369_PolicyS2QInit_def full_machine_ok)
  have us: "used ?m = {0}" by (auto simp: CSC369_PolicyS2QInit_def)
  have "s2q_links (links ?m) [] []" using s2q_abs_init [of 1] by (simp add: s2q_abs_def)
  then obtain h where h: "s2q_links h [0] []" using s2q_links_append [of _ "[]" "[]" 0] by auto
  let ?m1 = "?m\<lparr>links := h\<rparr>"
  have a: "s2q_abs ?m1 ([0], [])" using h by (simp add: s2q_abs_def CSC369_PolicyS2QInit_def)
  have n: "memsize ?m1 = 1" by (simp add: CSC369_PolicyS2QInit_def)
  have "\<exists>v m'. CSC369_PolicyS2QEvict ?m1 = Inr (v, m') \<and> unat v = s2q_victim (memsize ?m1) ([0], []) \<and>
    core_eq ?m1 m' \<and> s2q_abs m' (s2q_evict (memsize ?m1) ([0], [])) \<and>
    unat v \<in> used ?m1 \<and> \<not> frame_ref m' (unat v)"
    by (rule s2q_evict_spec [OF _ a]) (use ok us in \<open>simp_all add: CSC369_PolicyS2QInit_def\<close>)
  then show ?thesis using a n by (auto simp: s2q_victim_def s2q_evict_def)
qed

end
