(* ===== verification/Simulation.thy ===== *)
theory Simulation
  imports MMTranslate PolicyRR PolicyRand PolicyClock PolicyS2Q "HOL-Library.Signed_Division"
begin

text \<open>
  \<open>csc369_simulation.c\<close>: creation of the simulation and the execution of one access.  The
  error message for a byte that is not the expected one is the result of
  \<open>ExecuteMemInstruction\<close>: \<open>Some b\<close> when the read found \<open>b\<close>.  The specification is a flat
  memory of 48-bit addresses, \<open>flat_step\<close>; the simulator refines it under every policy that
  keeps the contract.
\<close>

section \<open>The code\<close>

definition ExecuteMemInstruction ::
  "(nat \<Rightarrow> machine \<Rightarrow> machine res) \<Rightarrow> (machine \<Rightarrow> (u64 \<times> machine) res) \<Rightarrow> CSC369_MemAccess \<Rightarrow>
   machine \<Rightarrow> (byte option \<times> machine) res" where
  "ExecuteMemInstruction on_reference evict access m =
     bindR (CSC369_MMGetFrameNumber evict access m) (\<lambda>(fnum, m).
     bindR (CSC369_CoremapGetFrame fnum m) (\<lambda>f.
     bindR (on_reference f m) (\<lambda>m.
     let offset = sint (virtual_address access) smod int CSC369_PAGE_SIZE;
         phys_addr = int (unat (fnum * of_nat CSC369_SIMULATED_FRAME_SIZE)) + offset
     in if phys_addr < 0 \<or> int (length (physmem m)) \<le> phys_addr then Inl OutOfBounds
        else if is_write access then
          Inr (None, m\<lparr>physmem := (physmem m)[nat phys_addr := access_value access]\<rparr>)
        else
          let actual_value = physmem m ! nat phys_addr
          in Inr (if actual_value \<noteq> access_value access then Some actual_value else None, m))))"

text \<open>The results of the C library calls of the creation.\<close>

record csc369_env =
  calloc_simulation :: bool
  trace_opens :: bool
  calloc_physmem :: bool
  calloc_swap :: bool
  calloc_bitmap :: bool
  calloc_words :: bool
  mkstemp_works :: bool
  calloc_coremap :: bool
  calloc_frames :: bool
  disk_limit :: nat
  random_values :: "nat \<Rightarrow> nat"

definition initial_stats :: CSC369_MMStats where
  "initial_stats = \<lparr>ref_count = 0, hit_count = 0, miss_count = 0, evict_clean_count = 0, evict_dirty_count = 0\<rparr>"

definition CSC369_SimulationCreate ::
  "csc369_env \<Rightarrow> kmalloc \<Rightarrow> nat \<Rightarrow> u64 \<Rightarrow> CSC369_Policy option \<Rightarrow> machine option res" where
  "CSC369_SimulationCreate env k num_frames swap_size policy =
     (case policy of
        None \<Rightarrow> Inl AssertFail
      | Some pol \<Rightarrow>
          if \<not> calloc_simulation env then Inr None
          else if \<not> trace_opens env then Inr None
          else if \<not> calloc_physmem env then Inr None
          else
            let mem = replicate (num_frames * CSC369_SIMULATED_FRAME_SIZE) 0 in
            bindR (CSC369_SwapCreate (calloc_swap env) (calloc_bitmap env) (calloc_words env)
                     (mkstemp_works env) (disk_limit env) swap_size) (\<lambda>swap.
            case swap of
              None \<Rightarrow> Inr None
            | Some sw \<Rightarrow>
                (case CSC369_CoremapCreate (calloc_coremap env) (calloc_frames env) num_frames of
                   None \<Rightarrow> Inr None
                 | Some (fs, n) \<Rightarrow>
                     (case CSC369_MMCreate \<lparr>km = k, pte_mem = Map.empty, pt_mem = Map.empty\<rparr> of
                        (None, _, h) \<Rightarrow> Inr None
                      | (Some mm, root, h) \<Rightarrow>
                          Inr (Some (CSC369_PolicyInit pol
                            \<lparr>heap = h, mm_struct = Some mm, mm_root = root, frames = fs, frame_count = n, mswap = sw,
                             physmem = mem, stats = initial_stats, memsize = num_frames,
                             links = (\<lambda>e. unlinked), clock_list = None, clock_hand = None,
                             rr_next = 0, rnd = random_values env, rnd_calls = 0\<rparr>))))))"

text \<open>The loop of \<open>CSC369_SimulationRun\<close> over the accesses the trace yields.\<close>

fun run_accesses ::
  "CSC369_Policy \<Rightarrow> CSC369_MemAccess list \<Rightarrow> machine \<Rightarrow> (byte option list \<times> machine) res" where
  "run_accesses pol [] m = Inr ([], m)"
| "run_accesses pol (a # as) m =
     bindR (ExecuteMemInstruction (CSC369_PolicyOnRef pol) (CSC369_PolicyEvict pol) a m) (\<lambda>(r, m).
     bindR (run_accesses pol as m) (\<lambda>(rs, m). Inr (r # rs, m)))"

section \<open>The specification\<close>

text \<open>A flat memory of bytes; a read reports the byte it finds when it is not the expected one.\<close>

definition flat_step :: "CSC369_MemAccess \<Rightarrow> (nat \<Rightarrow> byte) \<Rightarrow> byte option \<times> (nat \<Rightarrow> byte)" where
  "flat_step a mem =
     (let va = unat (virtual_address a)
      in if is_write a then (None, mem(va := access_value a))
         else (if mem va \<noteq> access_value a then Some (mem va) else None, mem))"

fun flat_run :: "CSC369_MemAccess list \<Rightarrow> (nat \<Rightarrow> byte) \<Rightarrow> byte option list" where
  "flat_run [] mem = []"
| "flat_run (a # as) mem = (case flat_step a mem of (r, mem) \<Rightarrow> r # flat_run as mem)"

text \<open>The addresses the code can handle: 48 bits, with an offset inside the simulated frame.\<close>

definition va_ok :: "u64 \<Rightarrow> bool" where
  "va_ok va \<longleftrightarrow> unat va < 2 ^ 48 \<and> unat va mod 4096 < 16"

definition mem_rel :: "(nat \<Rightarrow> byte) \<Rightarrow> machine \<Rightarrow> bool" where
  "mem_rel mem m \<longleftrightarrow>
     (\<forall>va. va_ok va \<longrightarrow> page_bytes m (page_path va) ! (unat va mod 4096) = mem (unat va))"

definition touched :: "CSC369_MemAccess list \<Rightarrow> nat list set" where
  "touched as = page_path ` virtual_address ` set as"

section \<open>One access\<close>

lemma frame_offset:
  fixes va :: u64
  assumes "unat va < 2 ^ 48"
  shows "sint va smod 4096 = int (unat va mod 4096)"
proof -
  have "int (unat va) < int (2 ^ 48)" using assms by (simp only: of_nat_less_iff)
  then have "uint va < 2 ^ 48" by simp
  then have s: "sint va = uint va" by (intro sint_small) simp
  have "k smod 4096 = k mod 4096" if "0 \<le> k" for k :: int
    using that by (cases "k = 0") (simp_all add: signed_modulo_int_def)
  then have "sint va smod 4096 = uint va mod 4096" by (simp add: s)
  then show ?thesis by (simp add: zmod_int)
qed

lemma physmem_ok:
  assumes "length pm = length (physmem m)"
  shows "mm_ok H (m\<lparr>physmem := pm\<rparr>) = mm_ok H m" "page_ptr (m\<lparr>physmem := pm\<rparr>) = page_ptr m"
    "page (m\<lparr>physmem := pm\<rparr>) = page m"
proof -
  have p: "page_ptr (m\<lparr>physmem := pm\<rparr>) = page_ptr m" "page (m\<lparr>physmem := pm\<rparr>) = page m"
    using page_cong [of "m\<lparr>physmem := pm\<rparr>" m] by simp_all
  then show "page_ptr (m\<lparr>physmem := pm\<rparr>) = page_ptr m" "page (m\<lparr>physmem := pm\<rparr>) = page m" by simp_all
  show "mm_ok H (m\<lparr>physmem := pm\<rparr>) = mm_ok H m"
    unfolding mm_ok_def page_ok_def p using assms by (simp add: mm_base_def used_def)
qed

lemma store_bytes:
  fixes b :: byte
  assumes ok: "mm_ok {} m" and x: "page m x = Some e" "valid e" and off: "off < 16"
  defines "m' \<equiv> m\<lparr>physmem := (physmem m)[16 * unat (frame_number e) + off := b]\<rparr>"
  shows "page_bytes m' = (page_bytes m)(x := (page_bytes m x)[off := b])"
proof
  fix xs
  let ?i = "16 * unat (frame_number e) + off"
  have pg: "page m' = page m" using physmem_ok [of "(physmem m)[?i := b]" m] by (simp add: m'_def)
  have fb: "frame_bytes (physmem m') g =
      (if g = unat (frame_number e) then (frame_bytes (physmem m) g)[off := b] else frame_bytes (physmem m) g)" for g
  proof (cases "g = unat (frame_number e)")
    case True
    then show ?thesis
      using off slice_list_update_inside [of "16 * g" ?i 16 "physmem m" b] by (simp add: m'_def frame_bytes_def)
  next
    case False
    then have "?i < 16 * g \<or> 16 * g + 16 \<le> ?i" using off by arith
    then show ?thesis using False slice_list_update_disjoint [of ?i "16 * g" 16 "physmem m" b]
      by (simp add: m'_def frame_bytes_def)
  qed
  show "page_bytes m' xs = ((page_bytes m)(x := (page_bytes m x)[off := b])) xs"
  proof (cases "xs = x")
    case True
    then show ?thesis using x by (simp add: page_bytes_def pg pte_bytes_def fb)
  next
    case False
    show ?thesis
    proof (cases "page m xs")
      case None
      then show ?thesis using False by (simp add: page_bytes_def pg)
    next
      case (Some d)
      have "pte_bytes m' d = pte_bytes m d"
      proof (cases "valid d")
        case True
        then have "unat (frame_number d) \<noteq> unat (frame_number e)"
          using frame_unique [OF ok Some True x] False by blast
        then show ?thesis using True by (simp add: pte_bytes_def fb)
      qed (simp add: pte_bytes_def m'_def)
      then show ?thesis using Some False by (simp add: page_bytes_def pg)
    qed
  qed
qed

lemma page_bytes_length:
  assumes "mm_ok H m"
  shows "length (page_bytes m xs) = 16"
proof (cases "page m xs")
  case None
  then show ?thesis by (simp add: page_bytes_def)
next
  case (Some e)
  have b: "length (physmem m) = 16 * memsize m" "swap_wf (mswap m)"
    using mm_ok_base [OF assms] by (auto simp: mm_base_def)
  note ok = mm_ok_page [OF assms Some]
  show ?thesis
  proof (cases "valid e \<or> \<not> on_swap e")
    case True
    then have "valid e \<longrightarrow> unat (frame_number e) < memsize m" using ok by (auto simp: page_ok_def used_def)
    then show ?thesis using True Some b(1)
      by (auto simp: page_bytes_def pte_bytes_def frame_bytes_def min_def)
  next
    case False
    then obtain s where "has_slot (mswap m) e s" using ok by (auto simp: page_ok_def slot_ok_def)
    moreover from this have "unat (swap_offset e) = 16 * s"
      using slot_offset_unat slot_lt [OF b(2)] by (auto simp: has_slot_def)
    ultimately show ?thesis using False Some
      by (auto simp: page_bytes_def pte_bytes_def has_slot_def min_def)
  qed
qed

lemma mem_rel_store:
  assumes rel: "mem_rel mem m" and va: "va_ok va" and len: "length (page_bytes m (page_path va)) = 16"
    and pb: "page_bytes m' = (page_bytes m)(page_path va := (page_bytes m (page_path va))[unat va mod 4096 := b])"
  shows "mem_rel (mem(unat va := b)) m'"
  unfolding mem_rel_def
proof (intro allI impI)
  fix vb assume vb: "va_ok vb"
  then have old: "page_bytes m (page_path vb) ! (unat vb mod 4096) = mem (unat vb)"
    using rel by (simp add: mem_rel_def)
  show "page_bytes m' (page_path vb) ! (unat vb mod 4096) = (mem(unat va := b)) (unat vb)"
  proof (cases "page_path vb = page_path va")
    case True
    then have d: "unat vb div 4096 = unat va div 4096" by (simp only: page_path_page)
    have "unat vb = unat va \<longleftrightarrow> unat vb mod 4096 = unat va mod 4096"
      using d by (metis div_mult_mod_eq)
    then show ?thesis using True old va vb len by (simp add: pb va_ok_def nth_list_update)
  next
    case False
    then have "unat vb \<noteq> unat va" by (auto simp: page_path_def)
    with False old show ?thesis by (simp add: pb)
  qed
qed

text \<open>
  The invariant of a run: \<open>T\<close> are the pages of the trace, \<open>B\<close> the bytes allocated at the
  start.
\<close>

definition sim_ok :: "(nat set \<Rightarrow> machine \<Rightarrow> bool) \<Rightarrow> nat list set \<Rightarrow> int \<Rightarrow> machine \<Rightarrow> bool" where
  "sim_ok pinv T B m \<longleftrightarrow> mm_ok {} m \<and> pinv (used m) m \<and> finite T \<and> dom (page m) \<subseteq> T \<and>
     card T \<le> unat (nbits (swapmap (mswap m))) \<and>
     bytes_malloced (km (heap m)) \<le> B + pt_alloc_bytes * int (card (dom (page m))) \<and>
     B + pt_alloc_bytes * int (card T) \<le> 2 ^ 31"

lemma sim_quota:
  assumes "sim_ok pinv T B m" "x \<in> T" "page m x = None"
  shows "bytes_malloced (km (heap m)) + pt_alloc_bytes \<le> 2 ^ 31"
proof -
  have "insert x (dom (page m)) \<subseteq> T" "finite T" using assms by (auto simp: sim_ok_def)
  then have "card (insert x (dom (page m))) \<le> card T" by (rule card_mono [rotated])
  moreover have "finite (dom (page m))" using assms(1) by (auto simp: sim_ok_def intro: finite_subset)
  ultimately have "int (card (dom (page m))) + 1 \<le> int (card T)" using assms(3) by (simp add: domIff)
  then have "pt_alloc_bytes * (int (card (dom (page m))) + 1) \<le> pt_alloc_bytes * int (card T)"
    by (intro mult_left_mono) (simp_all add: pt_alloc_bytes_def)
  then show ?thesis using assms(1) by (simp add: sim_ok_def algebra_simps)
qed

context replacement_policy begin

lemma execute_ok:
  assumes s: "sim_ok inv T B m" and va: "va_ok (virtual_address a)"
    and x: "page_path (virtual_address a) \<in> T" and rel: "mem_rel mem m"
  shows "\<exists>m'. ExecuteMemInstruction on_ref evict a m = Inr (fst (flat_step a mem), m') \<and>
    sim_ok inv T B m' \<and> mem_rel (snd (flat_step a mem)) m' \<and> memsize m' = memsize m \<and>
    ref_count (stats m') = ref_count (stats m) + 1 \<and>
    hit_count (stats m') + miss_count (stats m') = hit_count (stats m) + miss_count (stats m) + 1"
proof -
  let ?va = "virtual_address a"
  let ?x = "page_path ?va" and ?off = "unat ?va mod 4096"
  have v48: "unat ?va < 2 ^ 48" and off: "?off < 16" using va by (simp_all add: va_ok_def)
  note s' = s [unfolded sim_ok_def]
  obtain v m1 where g: "CSC369_MMGetFrameNumber evict a m = Inr (v, m1)" "translated inv m ?x v m1"
    using MMGetFrameNumber_ok [of m a T] s' v48 x sim_quota [OF s x] by auto
  note t = translatedD [OF g(2)]
  obtain d where d: "page m1 ?x = Some d" "valid d" "frame_number d = v" using t(2) by blast
  obtain U where U: "U \<subseteq> used m1" "insert (unat v) U = used m1" "inv U m1" "unat v \<in> U \<or> \<not> frame_ref m1 (unat v)"
    using t(5) by (elim exE conjE)
  have ok1: "mm_ok {} m1" by (rule t(1))
  have vu: "unat v \<in> used m1" using U(2) by blast
  then have vm: "unat v < memsize m1" by (simp add: used_def)
  obtain m2 where r: "on_ref (unat v) m1 = Inr m2" "core_eq m1 m2" "inv (insert (unat v) U) m2"
    using on_ref_ok [OF mm_ok_frames_ok [OF ok1] vu U(1,4,3)] by blast
  note c = r(2) [unfolded core_eq_def] and sv = core_eq_view [OF r(2) ok1]
  have ok2: "mm_ok {} m2" using same_view_ok [OF sv ok1] .
  have us2: "used m2 = used m1" using same_view_used [OF sv] .
  obtain e where e: "page m2 ?x = Some e" "valid e" "frame_number e = v"
    using same_view_page2 [OF sv d(1)] d by (auto simp: same_entry_def)
  have b: "length (physmem m2) = 16 * memsize m2" "memsize m2 = memsize m1" "memsize m1 \<le> 2 ^ 28"
    using mm_ok_base [OF ok2] c by (auto simp: mm_base_def)
  have fu: "unat (v * 16 :: u64) = 16 * unat v" using vm b by (simp add: unat_word_ariths)
  let ?p = "16 * unat v + ?off"
  have "uint (v * 16) = int (16 * unat v)" unfolding uint_nat fu ..
  then have pa: "uint (v * 16) + sint ?va smod 4096 = int ?p"
    using frame_offset [OF v48] by simp
  have fit: "?p < length (physmem m2)" using vm b off by simp
  have pb: "page_bytes m2 = page_bytes m" using same_view_bytes [OF sv] t by simp
  have val: "physmem m2 ! ?p = mem (unat ?va)"
  proof -
    have "page_bytes m ?x ! ?off = mem (unat ?va)" using rel va by (simp add: mem_rel_def)
    moreover have "page_bytes m2 ?x = slice (physmem m2) (16 * unat v) 16"
      using e by (simp add: page_bytes_def pte_bytes_def frame_bytes_def)
    ultimately show ?thesis using pb off fit by simp
  qed
  have code: "ExecuteMemInstruction on_ref evict a m = Inr (fst (flat_step a mem),
      if is_write a then m2\<lparr>physmem := (physmem m2)[?p := access_value a]\<rparr> else m2)"
    using g(1) r(1) vm fit val
    by (simp add: ExecuteMemInstruction_def CSC369_CoremapGetFrame_def pa flat_step_def Let_def
        del: of_nat_add of_nat_mult)
  have s2: "sim_ok inv T B m2"
  proof -
    have "dom (page m2) = insert ?x (dom (page m))" using same_view_dom [OF sv] t by simp
    moreover have "card (insert ?x (dom (page m))) = (if page m ?x = None then 1 else 0) + card (dom (page m))"
      using s' finite_subset [of "dom (page m)" T] by (auto simp: card_insert_if)
    ultimately show ?thesis
      using s' ok2 r(3) U(2) us2 x c t by (auto simp: sim_ok_def kept_def algebra_simps split: if_splits)
  qed
  have stats: "ref_count (stats m2) = ref_count (stats m) + 1"
    "hit_count (stats m2) + miss_count (stats m2) = hit_count (stats m) + miss_count (stats m) + 1"
    "memsize m2 = memsize m"
    using c t by (auto simp: kept_def)
  show ?thesis
  proof (cases "is_write a")
    case False
    then have "mem_rel (snd (flat_step a mem)) m2"
      using rel pb by (simp add: mem_rel_def flat_step_def Let_def)
    then show ?thesis using code s2 stats False by simp
  next
    case True
    let ?m = "m2\<lparr>physmem := (physmem m2)[?p := access_value a]\<rparr>"
    note po = physmem_ok [of "(physmem m2)[?p := access_value a]" m2]
    have um: "used ?m = used m2" by (simp add: used_def)
    have "inv (used ?m) ?m"
      unfolding um by (rule inv_cong [of _ m2])
        (use s2 frame_ref_cong [of ?m m2] in \<open>simp_all add: sim_ok_def policy_same_def\<close>)
    then have "sim_ok inv T B ?m" using s2 po by (simp add: sim_ok_def)
    moreover have "mem_rel (mem(unat ?va := access_value a)) ?m"
    proof (rule mem_rel_store [OF rel va page_bytes_length])
      show "mm_ok {} m" using s' by blast
      show "page_bytes ?m = (page_bytes m)(?x := (page_bytes m ?x)[?off := access_value a])"
        using store_bytes [OF ok2 e(1,2) off, of "access_value a"] e(3) pb by simp
    qed
    ultimately show ?thesis using code stats True by (simp add: flat_step_def Let_def)
  qed
qed

lemma run_ok:
  assumes "CSC369_PolicyOnRef pol = on_ref" "CSC369_PolicyEvict pol = evict"
  shows "sim_ok inv T B m \<Longrightarrow> \<forall>a \<in> set as. va_ok (virtual_address a) \<Longrightarrow> touched as \<subseteq> T \<Longrightarrow> mem_rel mem m \<Longrightarrow>
    \<exists>m'. run_accesses pol as m = Inr (flat_run as mem, m') \<and> sim_ok inv T B m' \<and> memsize m' = memsize m \<and>
      ref_count (stats m') = ref_count (stats m) + of_nat (length as) \<and>
      hit_count (stats m') + miss_count (stats m') = hit_count (stats m) + miss_count (stats m) + of_nat (length as)"
proof (induction as arbitrary: m mem)
  case Nil
  then show ?case by simp
next
  case (Cons a as)
  have a: "va_ok (virtual_address a)" "page_path (virtual_address a) \<in> T" using Cons.prems by (auto simp: touched_def)
  obtain m1 where e: "ExecuteMemInstruction on_ref evict a m = Inr (fst (flat_step a mem), m1)"
    "sim_ok inv T B m1" "mem_rel (snd (flat_step a mem)) m1" "memsize m1 = memsize m"
    "ref_count (stats m1) = ref_count (stats m) + 1"
    "hit_count (stats m1) + miss_count (stats m1) = hit_count (stats m) + miss_count (stats m) + 1"
    using execute_ok [OF Cons.prems(1) a Cons.prems(4)] by blast
  have "touched as \<subseteq> T" "\<forall>a \<in> set as. va_ok (virtual_address a)" using Cons.prems by (auto simp: touched_def)
  then obtain m2 where "run_accesses pol as m1 = Inr (flat_run as (snd (flat_step a mem)), m2)"
    "sim_ok inv T B m2" "memsize m2 = memsize m1"
    "ref_count (stats m2) = ref_count (stats m1) + of_nat (length as)"
    "hit_count (stats m2) + miss_count (stats m2) = hit_count (stats m1) + miss_count (stats m1) + of_nat (length as)"
    using Cons.IH [OF e(2) _ _ e(3)] by blast
  then show ?case using e assms by (simp add: split_beta)
qed

end

section \<open>Creation\<close>

definition env_ok :: "csc369_env \<Rightarrow> bool" where
  "env_ok env \<longleftrightarrow> calloc_simulation env \<and> trace_opens env \<and> calloc_physmem env \<and> calloc_swap env \<and>
     calloc_bitmap env \<and> calloc_words env \<and> mkstemp_works env \<and> calloc_coremap env \<and> calloc_frames env"

definition create_bytes :: int where
  "create_bytes = 32 + 32776"

text \<open>The allocator has room for the given number of pages; \<open>malloc\<close> itself does not fail.\<close>

definition km_room :: "kmalloc \<Rightarrow> nat \<Rightarrow> bool" where
  "km_room k pages \<longleftrightarrow> libc_ok (libc k) \<and> 0 \<le> bytes_malloced k \<and>
     bytes_malloced k + create_bytes + pt_alloc_bytes * int pages \<le> 2 ^ 31"

definition sizes_ok :: "csc369_env \<Rightarrow> nat \<Rightarrow> u64 \<Rightarrow> bool" where
  "sizes_ok env num_frames swap_size \<longleftrightarrow> 0 < num_frames \<and> num_frames \<le> 2 ^ 28 \<and>
     unat swap_size < 2 ^ 59 \<and> 16 * unat swap_size \<le> disk_limit env"

lemma coremap_frames_eq: "coremap_frames n = replicate n \<lparr>free = True, pte = None\<rparr>"
proof (rule nth_equalityI)
  let ?F = "\<lambda>k. foldl (\<lambda>fs i. fs[i := (fs ! i)\<lparr>free := True\<rparr>]) (replicate n \<lparr>free = False, pte = None\<rparr>) [0..<k]"
  have F: "length (?F k) = n \<and> (\<forall>i < n. ?F k ! i = \<lparr>free = i < k, pte = None\<rparr>)" for k
  proof (induction k)
    case (Suc k)
    have "?F (Suc k) ! i = \<lparr>free = i < Suc k, pte = None\<rparr>" if "i < n" for i
      using Suc that by (cases "i = k") (auto simp: less_Suc_eq)
    with Suc show ?case by simp
  qed simp
  then show "length (coremap_frames n) = length (replicate n \<lparr>free = True, pte = None\<rparr>)"
    by (simp add: coremap_frames_def)
  fix i assume "i < length (coremap_frames n)"
  then show "coremap_frames n ! i = replicate n \<lparr>free = True, pte = None\<rparr> ! i"
    using F [of n] by (simp add: coremap_frames_def)
qed

lemma MMCreate_ok:
  assumes k: "libc_ok (libc k)" "0 \<le> bytes_malloced k" "bytes_malloced k + create_bytes \<le> 2 ^ 31"
  obtains mm r h where "CSC369_MMCreate \<lparr>km = k, pte_mem = Map.empty, pt_mem = Map.empty\<rparr> = (Some mm, Some r, h)"
    "pt_wf h r" "\<And>i. tslot h r i = None" "bytes_malloced (km h) = bytes_malloced k + create_bytes"
proof -
  let ?h = "\<lparr>km = k, pte_mem = Map.empty, pt_mem = Map.empty\<rparr>"
  obtain mm where mm: "CSC369_malloc sizeof_mm k = (Some mm, k\<lparr>num_mallocs := num_mallocs k + 1,
      bytes_malloced := bytes_malloced k + uint sizeof_mm, malloc_map := (malloc_map k)(mm \<mapsto> sizeof_mm),
      libc_calls := Suc (libc_calls k)\<rparr>)" (is "_ = (_, ?k)")
    using malloc_succeeds [OF k(1,2), of sizeof_mm] k(3)
    by (auto simp: sizeof_mm_def create_bytes_def KMALLOC_MAX_eq)
  let ?h1 = "?h\<lparr>km := ?k\<rparr>"
  obtain t a k' where t: "CSC369_PageTableCreate ?h1 =
      (Some t, ?h1\<lparr>km := k', pt_mem := (pt_mem ?h1)(t \<mapsto> \<lparr>ptes_block = a, ptes = (\<lambda>i. None)\<rparr>)\<rparr>)" (is "_ = (_, ?h2)")
    "handed_out k' = {t, a} \<union> handed_out (km ?h1)" "libc k' = libc (km ?h1)"
    "bytes_malloced k' = bytes_malloced (km ?h1) + 32776"
    by (rule PageTableCreate_ok [of ?h1]) (use k in \<open>auto simp: sizeof_mm_def create_bytes_def\<close>)
  show thesis
  proof (rule that [of mm t ?h2])
    show "CSC369_MMCreate ?h = (Some mm, Some t, ?h2)"
      using mm t(1) by (simp add: CSC369_MMCreate_def)
    show slots: "tslot ?h2 t i = None" for i by (simp add: tslot_def)
    have none: "tslot ?h2 u i = None" "subt ?h2 p = None" for u i p by (simp_all add: tslot_def subt_def)
    show "pt_wf ?h2 t"
      unfolding pt_wf_def none using t(2-4) k by (simp add: sizeof_mm_def)
    show "bytes_malloced (km ?h2) = bytes_malloced k + create_bytes"
      using t(4) by (simp add: sizeof_mm_def create_bytes_def)
  qed
qed

text \<open>With every allocation granted, the creation returns a simulation in its initial state.\<close>

lemma SimulationCreate_ok:
  assumes env: "env_ok env" and sz: "sizes_ok env n swap_size" and km: "km_room k pages"
  obtains m where "CSC369_SimulationCreate env k n swap_size (Some pol) = Inr (Some (CSC369_PolicyInit pol m))"
    "mm_ok {} m" "page m = Map.empty" "used m = {}" "policy_fresh m" "memsize m = n" "0 < memsize m"
    "nbits (swapmap (mswap m)) = swap_size" "stats m = initial_stats"
    "bytes_malloced (km (heap m)) = bytes_malloced k + create_bytes" "rnd m = random_values env"
proof -
  have "0 \<le> pt_alloc_bytes * int pages" by (simp add: pt_alloc_bytes_def)
  then have q: "libc_ok (libc k)" "0 \<le> bytes_malloced k" "bytes_malloced k + create_bytes \<le> 2 ^ 31"
    using km by (auto simp: km_room_def)
  obtain mm r h where c: "CSC369_MMCreate \<lparr>km = k, pte_mem = Map.empty, pt_mem = Map.empty\<rparr> = (Some mm, Some r, h)"
    "pt_wf h r" "\<And>i. tslot h r i = None" "bytes_malloced (km h) = bytes_malloced k + create_bytes"
    using MMCreate_ok [OF q] by blast
  have "unat swap_size + 63 < 2 ^ 64" using sz by (simp add: sizes_ok_def)
  from BitmapCreate_ok [OF this] obtain b where b: "CSC369_BitmapCreate True True swap_size = Inr (Some b)"
    "nbits b = swap_size" "bm_wf b" "bm_used b = {}" by blast
  define sw where "sw = \<lparr>swapmap = b, swapfile = [], file_limit = disk_limit env\<rparr>"
  define m where "m = \<lparr>heap = h, mm_struct = Some mm, mm_root = Some r, frames = coremap_frames n, frame_count = n, mswap = sw,
    physmem = replicate (n * CSC369_SIMULATED_FRAME_SIZE) 0, stats = initial_stats, memsize = n,
    links = (\<lambda>e. unlinked), clock_list = None, clock_hand = None,
    rr_next = 0, rnd = random_values env, rnd_calls = 0\<rparr>"
  have "swap_wf sw" using b sz by (simp add: swap_wf_def sw_def sizes_ok_def)
  then have base: "mm_base m"
    using c(2) sz by (simp add: mm_base_def m_def coremap_frames_eq sizes_ok_def)
  have us: "used m = {}" by (auto simp: used_def m_def coremap_frames_eq)
  have at: "pte_at h r xs = None" if len: "length xs = 3" for xs
  proof -
    obtain i j l where "xs = [i, j, l]" using len by (auto simp: length_Suc_conv numeral_eq_Suc)
    then show ?thesis using c(3) by simp
  qed
  have pg: "page m = Map.empty"
    by (rule ext) (simp add: page_def page_ptr_def m_def at)
  show thesis
  proof (rule that [of m])
    show "CSC369_SimulationCreate env k n swap_size (Some pol) = Inr (Some (CSC369_PolicyInit pol m))"
      using env b(1) c(1)
      by (simp add: CSC369_SimulationCreate_def env_ok_def CSC369_SwapCreate_def CSC369_CoremapCreate_def m_def sw_def Let_def)
    show "mm_ok {} m"
      by (rule mm_okI [OF base]) (use us pg b(4) in \<open>simp_all add: m_def sw_def\<close>)
    show "policy_fresh m" by (simp add: policy_fresh_def m_def)
  qed (use us pg sz c(4) b(2) in \<open>simp_all add: m_def sw_def sizes_ok_def\<close>)
qed

context replacement_policy begin

lemma create_sim_ok:
  assumes "env_ok env" "sizes_ok env n swap_size" "km_room k (card T)"
    and T: "finite T" "card T \<le> unat swap_size" and pol: "CSC369_PolicyInit pol = init"
  obtains m where "CSC369_SimulationCreate env k n swap_size (Some pol) = Inr (Some m)"
    "sim_ok inv T (bytes_malloced k + create_bytes) m" "mem_rel (\<lambda>_. 0) m" "memsize m = n" "stats m = initial_stats"
    "dom (page m) = {}" "used m = {}"
proof -
  obtain m where m: "CSC369_SimulationCreate env k n swap_size (Some pol) = Inr (Some (CSC369_PolicyInit pol m))"
    "mm_ok {} m" "page m = Map.empty" "used m = {}" "policy_fresh m" "memsize m = n" "0 < memsize m"
    "nbits (swapmap (mswap m)) = swap_size" "stats m = initial_stats"
    "bytes_malloced (km (heap m)) = bytes_malloced k + create_bytes"
    using SimulationCreate_ok [OF assms(1-3)] by blast
  have i: "core_eq m (init m)" "inv {} (init m)" using init_ok [OF m(5,7)] by simp_all
  note sv = core_eq_view [OF i(1) m(2)]
  have bytes: "page_bytes (init m) = (\<lambda>xs. replicate 16 0)"
    using same_view_bytes [OF sv] m(3) by (simp add: page_bytes_def fun_eq_iff)
  have dp: "dom (page (init m)) = {}" using same_view_dom [OF sv] m(3) by simp
  then have "sim_ok inv T (bytes_malloced k + create_bytes) (init m)"
    using same_view_ok [OF sv m(2)] same_view_used [OF sv] m i assms(3) T
    by (simp add: sim_ok_def core_eq_def km_room_def)
  moreover have "mem_rel (\<lambda>_. 0) (init m)" by (simp add: mem_rel_def bytes va_ok_def)
  ultimately show thesis using that [of "init m"] m i(1) pol dp same_view_used [OF sv] by (simp add: core_eq_def)
qed

text \<open>Creation and run together: the simulator behaves as the flat memory does.\<close>

lemma simulate_ok:
  assumes env: "env_ok env" "sizes_ok env n swap_size" "km_room k (card (touched as))"
    and room: "card (touched as) \<le> unat swap_size" and va: "\<forall>a \<in> set as. va_ok (virtual_address a)"
    and pol: "CSC369_PolicyInit pol = init" "CSC369_PolicyOnRef pol = on_ref" "CSC369_PolicyEvict pol = evict"
  obtains m m' where "CSC369_SimulationCreate env k n swap_size (Some pol) = Inr (Some m)"
    "run_accesses pol as m = Inr (flat_run as (\<lambda>_. 0), m')"
    "mm_ok {} m'" "inv (used m') m'" "memsize m' = n"
    "ref_count (stats m') = of_nat (length as)"
    "hit_count (stats m') + miss_count (stats m') = of_nat (length as)"
proof -
  have fin: "finite (touched as)" by (simp add: touched_def)
  obtain m where m: "CSC369_SimulationCreate env k n swap_size (Some pol) = Inr (Some m)"
    "sim_ok inv (touched as) (bytes_malloced k + create_bytes) m" "mem_rel (\<lambda>_. 0) m"
    "memsize m = n" "stats m = initial_stats"
    using create_sim_ok [OF env fin room pol(1)] by blast
  from run_ok [OF pol(2,3) m(2) va order_refl m(3)] obtain m' where
    r: "run_accesses pol as m = Inr (flat_run as (\<lambda>_. 0), m')"
      "sim_ok inv (touched as) (bytes_malloced k + create_bytes) m'" "memsize m' = memsize m"
      "ref_count (stats m') = ref_count (stats m) + of_nat (length as)"
      "hit_count (stats m') + miss_count (stats m') = hit_count (stats m) + miss_count (stats m) + of_nat (length as)"
    by blast
  show thesis
    by (rule that [OF m(1) r(1)]) (use r m in \<open>simp_all add: sim_ok_def initial_stats_def\<close>)
qed

end

end
