(* ===== verification/CreateFailure.thy ===== *)
theory CreateFailure
  imports Simulation
begin

text \<open>
  The resources that a simulation holds, and the error paths of its creation: every call that
  fails makes \<open>CSC369_SimulationCreate\<close> destroy what it has created so far and return NULL.  The
  resources are the blocks and files of the C library and the blocks of the tracking allocator,
  the struct of the memory manager and the root table with its array of entries.  Theory \<open>Simulation\<close> models the values of the structs; here they are the pointers
  that decide which destructors run, and the state is the set of the resources held.  Releasing
  a resource that is not held is a fault, \<open>BadPointer\<close>.
\<close>

section \<open>Resources\<close>

datatype resource =
    Simulation_Struct | Trace_Struct | Trace_File | Physmem_Array | Swap_Struct | Bitmap_Struct
  | Bitmap_Words | Swap_File | Coremap_Struct | Coremap_Frames | MM_Struct | Table_Struct | Table_Entries

instantiation resource :: enum
begin

definition enum_resource :: "resource list" where
  "enum_resource = [Simulation_Struct, Trace_Struct, Trace_File, Physmem_Array, Swap_Struct, Bitmap_Struct,
     Bitmap_Words, Swap_File, Coremap_Struct, Coremap_Frames, MM_Struct, Table_Struct, Table_Entries]"

definition enum_all_resource :: "(resource \<Rightarrow> bool) \<Rightarrow> bool" where
  "enum_all_resource P \<longleftrightarrow> list_all P enum_class.enum"

definition enum_ex_resource :: "(resource \<Rightarrow> bool) \<Rightarrow> bool" where
  "enum_ex_resource P \<longleftrightarrow> list_ex P enum_class.enum"

instance
proof
  show u: "(UNIV :: resource set) = set enum_class.enum"
    using resource.exhaust by (auto simp: enum_resource_def)
  show "distinct (enum_class.enum :: resource list)" by (simp add: enum_resource_def)
  show "enum_class.enum_all P \<longleftrightarrow> Ball UNIV P" for P :: "resource \<Rightarrow> bool"
    by (simp add: u enum_all_resource_def list_all_iff)
  show "enum_class.enum_ex P \<longleftrightarrow> Bex UNIV P" for P :: "resource \<Rightarrow> bool"
    by (simp add: u enum_ex_resource_def list_ex_iff)
qed

end


text \<open>\<open>stray_close\<close>: a file descriptor that the simulation never opened was closed.\<close>

record lib_state =
  held :: "resource set"
  stray_close :: bool


definition acquire :: "resource \<Rightarrow> lib_state \<Rightarrow> lib_state" where
  "acquire r st = st\<lparr>held := insert r (held st)\<rparr>"

definition release :: "resource \<Rightarrow> lib_state \<Rightarrow> lib_state res" where
  "release r st = (if r \<in> held st then Inr (st\<lparr>held := held st - {r}\<rparr>) else Inl BadPointer)"

definition release_if :: "bool \<Rightarrow> resource \<Rightarrow> lib_state \<Rightarrow> lib_state res" where
  "release_if b r st = (if b then release r st else Inr st)"

section \<open>The parts of the simulation\<close>










text \<open>
  The results of the calls of the creation that \<open>csc369_env\<close> does not list one by one: those of
  the trace reader, and those of \<open>CSC369_malloc\<close> for the memory manager and its root table.
\<close>

record lib_calls =
  calloc_trace :: bool
  fopen_trace :: bool
  malloc_mm :: bool
  malloc_table :: bool
  malloc_entries :: bool





section \<open>The simulation\<close>






section \<open>Lemmas\<close>


lemma release_simps [simp]:
  "r \<in> held st \<Longrightarrow> release r st = Inr (st\<lparr>held := held st - {r}\<rparr>)" "release_if False r st = Inr st"
  "release_if True r st = release r st"
  by (simp_all add: release_def release_if_def)

lemma acquire_simps [simp]:
  "held (acquire r st) = insert r (held st)" "stray_close (acquire r st) = stray_close st"
  by (simp_all add: acquire_def)






text \<open>The calls that have to succeed, those before the creation of the memory manager first.\<close>

definition early_calls_work :: "lib_calls \<Rightarrow> csc369_env \<Rightarrow> bool" where
  "early_calls_work c env \<longleftrightarrow> calloc_simulation env \<and> calloc_trace c \<and> fopen_trace c \<and>
     calloc_physmem env \<and> calloc_swap env \<and> calloc_bitmap env \<and> calloc_words env \<and>
     mkstemp_works env \<and> calloc_coremap env \<and> calloc_frames env"

definition calls_work :: "lib_calls \<Rightarrow> csc369_env \<Rightarrow> bool" where
  "calls_work c env \<longleftrightarrow> early_calls_work c env \<and> malloc_mm c \<and> malloc_table c \<and> malloc_entries c"






text \<open>The two models of the creation agree on when it returns a simulation.\<close>

lemma create_agrees:
  assumes "unat swap_size + 63 < 2 ^ 64" "trace_opens env \<longleftrightarrow> calloc_trace c \<and> fopen_trace c"
    "malloc_mm c \<and> malloc_table c \<and> malloc_entries c \<longleftrightarrow>
       fst (CSC369_MMCreate \<lparr>km = k, pte_mem = Map.empty, pt_mem = Map.empty\<rparr>) \<noteq> None"
  shows "\<exists>r. CSC369_SimulationCreate env k n swap_size (Some pol) = Inr r \<and>
     (r \<noteq> None \<longleftrightarrow> calls_work c env)"
proof -
  obtain p root h where h: "CSC369_MMCreate \<lparr>km = k, pte_mem = Map.empty, pt_mem = Map.empty\<rparr> = (p, root, h)"
    by (cases "CSC369_MMCreate \<lparr>km = k, pte_mem = Map.empty, pt_mem = Map.empty\<rparr>")
  obtain b where "CSC369_BitmapCreate True True swap_size = Inr (Some b)"
    using BitmapCreate_ok [OF assms(1)] by blast
  then have "\<exists>sw. CSC369_SwapCreate (calloc_swap env) (calloc_bitmap env) (calloc_words env) (mkstemp_works env)
      (disk_limit env) swap_size = Inr sw \<and>
      (sw \<noteq> None \<longleftrightarrow> calloc_swap env \<and> calloc_bitmap env \<and> calloc_words env \<and> mkstemp_works env)"
    by (cases "calloc_bitmap env"; cases "calloc_words env")
      (simp_all add: CSC369_SwapCreate_def CSC369_BitmapCreate_def)
  then obtain sw where sw: "CSC369_SwapCreate (calloc_swap env) (calloc_bitmap env) (calloc_words env) (mkstemp_works env)
      (disk_limit env) swap_size = Inr sw"
    "sw \<noteq> None \<longleftrightarrow> calloc_swap env \<and> calloc_bitmap env \<and> calloc_words env \<and> mkstemp_works env" by blast
  show ?thesis
    using assms(2,3) h sw(2) unfolding CSC369_SimulationCreate_def sw(1) calls_work_def early_calls_work_def
    by (cases sw; cases p) (auto simp: CSC369_CoremapCreate_def Let_def)
qed

text \<open>The value model has the same leak: the block of the memory manager stays in use.\<close>

lemma MMCreate_failure_leaks:
  assumes "CSC369_malloc sizeof_mm k = (Some mm, k1)" "CSC369_malloc sizeof_page_table k1 = (None, k1')"
  shows "CSC369_MMCreate \<lparr>km = k, pte_mem = Map.empty, pt_mem = Map.empty\<rparr> =
     (None, None, \<lparr>km = k1', pte_mem = Map.empty, pt_mem = Map.empty\<rparr>)"
  using assms by (simp add: CSC369_MMCreate_def CSC369_PageTableCreate_def)

section \<open>Properties\<close>


end
