(* ===== verification/PageTableTest.thy ===== *)
theory PageTableTest
  imports PageTableInv
begin

text \<open>
  The unit test of the page table, \<open>tests/check_page_table.c\<close>: the fixture and the two tests as
  functions that fault when a check fails, and the proof that they pass whatever blocks \<open>malloc\<close>
  returns.  The tests leave by \<open>_exit\<close>, so that the tear-down is not reached.
\<close>

definition set_up :: "(nat \<Rightarrow> ptr) \<Rightarrow> (ptr \<times> pt_heap) res" where
  "set_up lib =
     (case CSC369_PageTableCreate \<lparr>km = CSC369_MallocInit lib, pte_mem = Map.empty, pt_mem = Map.empty\<rparr> of
        (t, h) \<Rightarrow> bindR (assertR (t \<noteq> None)) (\<lambda>_. Inr (t, h)))"

definition test_search_none_exist :: "(nat \<Rightarrow> ptr) \<Rightarrow> unit res" where
  "test_search_none_exist lib =
     bindR (set_up lib) (\<lambda>(t, h).
     bindR (CSC369_PageTableSearch t 42 h) (\<lambda>p.
     assertR (p = None)))"

definition test_allocate_pte :: "(nat \<Rightarrow> ptr) \<Rightarrow> unit res" where
  "test_allocate_pte lib =
     bindR (set_up lib) (\<lambda>(t, h).
     bindR (CSC369_PageTableAllocate t (of_nat CSC369_PAGE_SIZE + 31) h) (\<lambda>(p, h).
     bindR (assertR (p \<noteq> None)) (\<lambda>_.
     bindR (CSC369_PTEIsValid p h) (\<lambda>b.
     bindR (assertR (b = False)) (\<lambda>_.
     bindR (CSC369_PTEIsDirty p h) (\<lambda>b.
     bindR (assertR (b = False)) (\<lambda>_.
     bindR (CSC369_PTEIsReferenced p h) (\<lambda>b.
     bindR (assertR (b = False)) (\<lambda>_.
     bindR (CSC369_PTEGetFrameNumber p h) (\<lambda>f.
     assertR (f = 0)))))))))))"

text \<open>The fixture gives a well-formed table without entries.\<close>

lemma set_up_ok:
  assumes "libc_ok lib"
  obtains t h where "set_up lib = Inr (Some t, h)" "pt_wf h t" "\<And>i. tslot h t i = None"
    "bytes_malloced (km h) + pt_alloc_bytes \<le> 2 ^ 31"
proof -
  let ?h = "\<lparr>km = CSC369_MallocInit lib, pte_mem = Map.empty, pt_mem = Map.empty\<rparr>"
  have "libc_ok (libc (km ?h))" "0 \<le> bytes_malloced (km ?h)" "bytes_malloced (km ?h) + 32776 \<le> 2 ^ 31"
    using assms by (simp_all add: CSC369_MallocInit_def)
  then obtain t a k where c: "CSC369_PageTableCreate ?h =
      (Some t, ?h\<lparr>km := k, pt_mem := (pt_mem ?h)(t \<mapsto> \<lparr>ptes_block = a, ptes = (\<lambda>i. None)\<rparr>)\<rparr>)" (is "_ = (_, ?h')")
    "handed_out k = {t, a} \<union> handed_out (km ?h)" "libc k = libc (km ?h)" "bytes_malloced k = bytes_malloced (km ?h) + 32776"
    by (rule PageTableCreate_ok)
  have none: "tslot ?h' u i = None" "subt ?h' p = None" for u i p by (simp_all add: tslot_def subt_def)
  show thesis
  proof (rule that [of t ?h'])
    show "set_up lib = Inr (Some t, ?h')" using c(1) by (simp add: set_up_def)
    show "pt_wf ?h' t"
      unfolding pt_wf_def none using c(2-4) assms by (simp add: CSC369_MallocInit_def)
    show "bytes_malloced (km ?h') + pt_alloc_bytes \<le> 2 ^ 31"
      using c(4) by (simp add: CSC369_MallocInit_def pt_alloc_bytes_def)
  qed (rule none)
qed

lemma unit_tests_pass:
  assumes "libc_ok lib"
  shows "test_search_none_exist lib = Inr ()" "test_allocate_pte lib = Inr ()"
proof -
  obtain t h where h: "set_up lib = Inr (Some t, h)" "pt_wf h t" "\<And>i. tslot h t i = None"
    "bytes_malloced (km h) + pt_alloc_bytes \<le> 2 ^ 31"
    by (rule set_up_ok [OF assms]) blast
  have none: "pte_at h t (page_path va) = None" for va using h(3) by (simp add: page_path_def)
  have "CSC369_PageTableSearch (Some t) 42 h = Inr (pte_at h t (page_path 42))"
    by (rule PageTableSearch_low [OF h(2)]) simp_all
  then show "test_search_none_exist lib = Inr ()" using h(1) none by (simp add: test_search_none_exist_def)
  let ?va = "of_nat CSC369_PAGE_SIZE + 31 :: u64"
  have va: "unat ?va < 2 ^ 48" by simp
  obtain p h' where al: "CSC369_PageTableAllocate (Some t) ?va h = Inr (Some p, h')"
    "pte_at h t (page_path ?va) = None \<longrightarrow> pte_mem h' p = Some init_pte"
    by (rule PageTableAllocate_spec [OF h(2) va h(4)]) (rule that)
  have e: "pte_mem h' p = Some init_pte" by (rule mp [OF al(2) none])
  show "test_allocate_pte lib = Inr ()"
    unfolding test_allocate_pte_def h(1) bindR_simps prod.case al(1)
    by (simp add: pte_getter_defs e) (simp add: init_pte_def)
qed

end
