(* ===== verification/Trace.thy ===== *)
theory Trace
  imports Defs "HOL-Library.Char_ord"
begin

text \<open>
  \<open>csc369_trace.c\<close>: reading one memory access from the trace file.  The file is the string of
  its unread characters with the end-of-file flag of \<open>stdio\<close>.  \<open>fgets\<close> stores at most 255
  characters, stops after a newline, and sets the flag when it runs into the end of the file.
  \<open>scan_access\<close> is \<open>sscanf\<close> with the format of the code: a character, a hexadecimal and a
  decimal number with optional sign and leading white space, where a number that does not fit
  saturates and the last one is cut to a byte, as the C library does.
\<close>

section \<open>The file\<close>

record csc369_trace =
  unread :: string
  eof :: bool
  buffer :: string
  line_number :: u64

definition newline :: char where
  "newline = CHR 0x0A"

fun read_line :: "nat \<Rightarrow> string \<Rightarrow> string \<times> string \<times> bool" where
  "read_line 0 cs = ([], cs, False)"
| "read_line (Suc n) [] = ([], [], True)"
| "read_line (Suc n) (c # cs) =
     (if c = newline then ([c], cs, False)
      else case read_line n cs of (l, r, e) \<Rightarrow> (c # l, r, e))"

text \<open>\<open>fgets(buffer, 256, file)\<close>: the flag tells a result other than NULL.\<close>

definition trace_fgets :: "csc369_trace \<Rightarrow> bool \<times> csc369_trace" where
  "trace_fgets tr =
     (case read_line 255 (unread tr) of
        (l, r, e) \<Rightarrow>
          if l = [] then (False, tr\<lparr>unread := r, eof := True\<rparr>)
          else (True, tr\<lparr>unread := r, eof := e, buffer := l\<rparr>))"

definition CSC369_TraceCreate :: "bool \<Rightarrow> bool \<Rightarrow> string \<Rightarrow> csc369_trace option" where
  "CSC369_TraceCreate calloc_trace fopen_ok contents =
     (if \<not> calloc_trace then None
      else if \<not> fopen_ok then None
      else Some \<lparr>unread = contents, eof = False, buffer = [], line_number = 0\<rparr>)"

section \<open>Scanning a line\<close>

definition is_space :: "char \<Rightarrow> bool" where
  "is_space c \<longleftrightarrow> of_char c = (32 :: nat) \<or> (9 \<le> (of_char c :: nat) \<and> of_char c \<le> (13 :: nat))"

definition digit_value :: "char \<Rightarrow> nat option" where
  "digit_value c =
     (let n = of_char c :: nat in
      if 48 \<le> n \<and> n \<le> 57 then Some (n - 48)
      else if 97 \<le> n \<and> n \<le> 102 then Some (n - 87)
      else if 65 \<le> n \<and> n \<le> 70 then Some (n - 55)
      else None)"

definition is_digit :: "nat \<Rightarrow> char \<Rightarrow> bool" where
  "is_digit base c \<longleftrightarrow> (case digit_value c of None \<Rightarrow> False | Some d \<Rightarrow> d < base)"

definition digits_value :: "nat \<Rightarrow> string \<Rightarrow> nat" where
  "digits_value base ds = foldl (\<lambda>n c. base * n + the (digit_value c)) 0 ds"

definition scan_prefix :: "nat \<Rightarrow> string \<Rightarrow> string" where
  "scan_prefix base s =
     (case s of
        c # d # s' \<Rightarrow> if base = 16 \<and> c = CHR ''0'' \<and> (d = CHR ''x'' \<or> d = CHR ''X'') then s' else s
      | _ \<Rightarrow> s)"

definition scan_sign :: "string \<Rightarrow> bool \<times> string" where
  "scan_sign s =
     (case s of
        [] \<Rightarrow> (False, s)
      | c # s' \<Rightarrow> if c = CHR ''-'' then (True, s') else if c = CHR ''+'' then (False, s') else (False, s))"

definition number_value :: "bool \<Rightarrow> nat \<Rightarrow> u64" where
  "number_value neg n =
     (if n < 2 ^ 64 then (if neg then - of_nat n else of_nat n) else - 1)"

definition scan_number :: "nat \<Rightarrow> string \<Rightarrow> (u64 \<times> string) option" where
  "scan_number base s =
     (case scan_sign (dropWhile is_space s) of
        (neg, s) \<Rightarrow>
          let s = scan_prefix base s; ds = takeWhile (is_digit base) s
          in if ds = [] then None
             else Some (number_value neg (digits_value base ds), dropWhile (is_digit base) s))"

definition scan_access :: "string \<Rightarrow> (char \<times> u64 \<times> byte) option" where
  "scan_access buf =
     (case takeWhile (\<lambda>c. c \<noteq> CHR 0x00) buf of
        [] \<Rightarrow> None
      | type # s \<Rightarrow>
          (case scan_number 16 s of
             None \<Rightarrow> None
           | Some (va, s) \<Rightarrow>
               (case scan_number 10 s of
                  None \<Rightarrow> None
                | Some (v, s) \<Rightarrow> Some (type, va, ucast v))))"

section \<open>Reading one access\<close>

lemma read_line_length: "read_line n cs = (l, r, e) \<Longrightarrow> length cs = length l + length r"
  by (induction n cs arbitrary: l r e rule: read_line.induct) (auto split: if_splits prod.splits)

lemma trace_fgets_unread:
  "trace_fgets tr = (b, tr') \<Longrightarrow> length (unread tr') \<le> length (unread tr) \<and> (b \<longrightarrow> length (unread tr') < length (unread tr))"
  using read_line_length [of 255 "unread tr"]
  by (auto simp: trace_fgets_def split: prod.splits if_splits)

text \<open>The loop that skips the lines starting with an equals sign.\<close>

function skip_lines :: "csc369_trace \<Rightarrow> csc369_trace" where
  "skip_lines tr =
     (case trace_fgets tr of
        (got, tr') \<Rightarrow>
          if got \<and> hd (buffer tr') = CHR ''='' then skip_lines tr' else tr')"
  by pat_completeness auto
termination
  by (relation "measure (\<lambda>tr. length (unread tr))") (auto dest: trace_fgets_unread [OF sym])

declare skip_lines.simps [simp del]

text \<open>\<open>Some\<close> of the access, or \<open>None\<close> for the result \<open>-1\<close>.\<close>

definition CSC369_TraceRead :: "csc369_trace \<Rightarrow> CSC369_MemAccess option \<times> csc369_trace" where
  "CSC369_TraceRead tr =
     (let tr = skip_lines (tr\<lparr>line_number := line_number tr + 1\<rparr>) in
      if eof tr then (None, tr)
      else case scan_access (buffer tr) of
        None \<Rightarrow> (None, tr)
      | Some (type, va, v) \<Rightarrow>
          (let t = (if type = CHR ''I'' then Some CSC369_ACCESS_TYPE_INSTRUCTION_FETCH
                    else if type = CHR ''L'' then Some CSC369_ACCESS_TYPE_LOAD
                    else if type = CHR ''S'' then Some CSC369_ACCESS_TYPE_STORE
                    else if type = CHR ''M'' then Some CSC369_ACCESS_TYPE_MODIFY
                    else None)
           in case t of
                None \<Rightarrow> (None, tr)
              | Some t \<Rightarrow>
                  if of_nat CSC369_SIMULATED_FRAME_SIZE < va mod of_nat CSC369_PAGE_SIZE then (None, tr)
                  else (Some \<lparr>access_type = t, virtual_address = va, access_value = v\<rparr>, tr)))"

lemma skip_lines_unread: "length (unread (skip_lines tr)) \<le> length (unread tr)"
proof (induction tr rule: skip_lines.induct)
  case (1 tr)
  obtain got tr' where t: "trace_fgets tr = (got, tr')" by (cases "trace_fgets tr")
  then show ?case
    using 1 [OF t [symmetric]] trace_fgets_unread [OF t] by (subst skip_lines.simps) auto
qed

lemma skip_lines_progress:
  "eof (skip_lines tr) \<or> length (unread (skip_lines tr)) < length (unread tr)"
proof (cases "trace_fgets tr")
  case (Pair got tr')
  show ?thesis
  proof (cases got)
    case True
    then have "length (unread tr') < length (unread tr)" using trace_fgets_unread [OF Pair] by simp
    then show ?thesis
      using Pair True skip_lines_unread [of tr'] by (subst (2) skip_lines.simps) auto
  next
    case False
    then have "eof tr'" using Pair by (auto simp: trace_fgets_def split: prod.splits if_splits)
    then show ?thesis using Pair False by (subst skip_lines.simps) simp
  qed
qed

lemma TraceRead_progress:
  "CSC369_TraceRead tr = (Some a, tr') \<Longrightarrow> length (unread tr') < length (unread tr)"
  using skip_lines_progress [of "tr\<lparr>line_number := line_number tr + 1\<rparr>"]
  by (auto simp: CSC369_TraceRead_def Let_def split: if_splits option.splits prod.splits)

text \<open>The accesses of a trace, up to the first line that is refused.\<close>

function trace_accesses :: "csc369_trace \<Rightarrow> CSC369_MemAccess list" where
  "trace_accesses tr =
     (case CSC369_TraceRead tr of
        (None, tr') \<Rightarrow> []
      | (Some a, tr') \<Rightarrow> a # trace_accesses tr')"
  by pat_completeness auto
termination
  by (relation "measure (\<lambda>tr. length (unread tr))") (auto dest: TraceRead_progress [OF sym])

declare trace_accesses.simps [simp del]

section \<open>Printing an access\<close>

text \<open>The format of the traces: type, address in hexadecimal, value in decimal.\<close>

definition digit_char :: "nat \<Rightarrow> char" where
  "digit_char d = char_of (if d < 10 then d + 48 else d + 87)"

fun show_digits :: "nat \<Rightarrow> nat \<Rightarrow> nat \<Rightarrow> string" where
  "show_digits 0 base n = []"
| "show_digits (Suc k) base n =
     (if n < base then [digit_char n] else show_digits k base (n div base) @ [digit_char (n mod base)])"

definition type_char :: "CSC369_AccessType \<Rightarrow> char" where
  "type_char t = (case t of
      CSC369_ACCESS_TYPE_STORE \<Rightarrow> CHR ''S''
    | CSC369_ACCESS_TYPE_MODIFY \<Rightarrow> CHR ''M''
    | CSC369_ACCESS_TYPE_LOAD \<Rightarrow> CHR ''L''
    | CSC369_ACCESS_TYPE_INSTRUCTION_FETCH \<Rightarrow> CHR ''I'')"

definition show_access :: "CSC369_MemAccess \<Rightarrow> string" where
  "show_access a = type_char (access_type a) # CHR '' '' # show_digits 16 16 (unat (virtual_address a)) @
     CHR '' '' # show_digits 3 10 (unat (access_value a)) @ [newline]"

lemma digit_char_code:
  "d < 16 \<Longrightarrow> (of_char (digit_char d) :: nat) = (if d < 10 then d + 48 else d + 87)"
  by (simp add: digit_char_def)

lemma digit_char_value: "d < 16 \<Longrightarrow> digit_value (digit_char d) = Some d"
  by (simp add: digit_value_def Let_def digit_char_code)

lemma digit_char_neq:
  assumes "d < 16" and "(of_char c :: nat) < 48 \<or> 102 < (of_char c :: nat)"
  shows "digit_char d \<noteq> c"
proof
  assume "digit_char d = c"
  then have "(of_char c :: nat) = (if d < 10 then d + 48 else d + 87)" using digit_char_code [OF assms(1)] by simp
  with assms show False by (simp split: if_splits)
qed

lemma digit_char_other:
  assumes "d < 16"
  shows "\<not> is_space (digit_char d)" "digit_char d \<noteq> newline" "digit_char d \<noteq> CHR 0x00"
    "digit_char d \<noteq> CHR ''x''" "digit_char d \<noteq> CHR ''X''" "digit_char d \<noteq> CHR ''-''" "digit_char d \<noteq> CHR ''+''"
proof -
  show "\<not> is_space (digit_char d)" using assms by (simp add: is_space_def digit_char_code)
  show "digit_char d \<noteq> newline" "digit_char d \<noteq> CHR 0x00" "digit_char d \<noteq> CHR ''x''"
    "digit_char d \<noteq> CHR ''-''" "digit_char d \<noteq> CHR ''+''"
    by (rule digit_char_neq [OF assms], simp add: newline_def)+
  show "digit_char d \<noteq> CHR ''X''"
  proof
    assume "digit_char d = CHR ''X''"
    then have "(of_char (digit_char d) :: nat) = 88" by simp
    then show False using digit_char_code [OF assms] assms by (simp split: if_splits)
  qed
qed

lemma show_digits_chars:
  assumes "2 \<le> base" "base \<le> 16"
  shows "\<forall>c \<in> set (show_digits k base n). \<exists>d < base. c = digit_char d"
proof (induction k arbitrary: n)
  case (Suc k)
  have "n mod base < base" using assms(1) by (intro mod_less_divisor) linarith
  then show ?case using Suc by auto
qed simp

lemma digits_value_snoc:
  "digits_value base (ds @ [c]) = base * digits_value base ds + the (digit_value c)"
  by (simp add: digits_value_def)

lemma show_digits_value:
  assumes "2 \<le> base" "base \<le> 16"
  shows "n < base ^ k \<Longrightarrow> digits_value base (show_digits k base n) = n"
proof (induction k arbitrary: n)
  case 0
  then show ?case by (simp add: digits_value_def)
next
  case (Suc k)
  show ?case
  proof (cases "n < base")
    case True
    then show ?thesis using assms by (simp add: digits_value_def digit_char_value)
  next
    case False
    have "n div base < base ^ k" using Suc.prems by (simp add: less_mult_imp_div_less mult.commute)
    then have "digits_value base (show_digits k base (n div base)) = n div base" by (rule Suc.IH)
    moreover have "n mod base < base" using assms(1) by (intro mod_less_divisor) linarith
    then have "n mod base < 16" using assms(2) by linarith
    ultimately show ?thesis using False by (simp add: digits_value_snoc digit_char_value)
  qed
qed

lemma show_digits_length: "length (show_digits k base n) \<le> k"
  by (induction k base n rule: show_digits.induct) auto

lemma show_digits_Nil: "0 < k \<Longrightarrow> show_digits k base n \<noteq> []"
  by (cases k) auto

section \<open>Round trip\<close>

lemma scan_prefix_id:
  assumes "base = 16 \<Longrightarrow> \<forall>c \<in> set (tl s). c \<noteq> CHR ''x'' \<and> c \<noteq> CHR ''X''"
  shows "scan_prefix base s = s"
proof (cases s)
  case (Cons c s')
  then show ?thesis using assms by (cases s') (simp_all add: scan_prefix_def)
qed (simp add: scan_prefix_def)

lemma scan_number_show:
  assumes base: "2 \<le> base" "base \<le> 16" and n: "n < base ^ k" "0 < k" "n < 2 ^ 64"
    and c: "\<not> is_digit base c" and nx: "\<forall>d \<in> set (c # s). d \<noteq> CHR ''x'' \<and> d \<noteq> CHR ''X''"
  shows "scan_number base (CHR '' '' # show_digits k base n @ c # s) = Some (of_nat n, c # s)"
proof -
  let ?ds = "show_digits k base n"
  have dc: "\<exists>d < base. x = digit_char d" if "x \<in> set ?ds" for x
    using show_digits_chars [OF base] that by blast
  have digs: "\<forall>x \<in> set ?ds. is_digit base x"
  proof
    fix x assume "x \<in> set ?ds"
    then obtain d where "d < base" "x = digit_char d" using dc by blast
    moreover from this have "d < 16" using base by linarith
    ultimately show "is_digit base x" by (simp add: is_digit_def digit_char_value)
  qed
  obtain x xs where ds: "?ds = x # xs" using show_digits_Nil [OF n(2)] by (cases ?ds) auto
  then obtain d where "d < base" "x = digit_char d" using dc [of x] by auto
  then have d: "d < 16" "x = digit_char d" using base by linarith+
  have skip: "dropWhile is_space (CHR '' '' # ?ds @ c # s) = ?ds @ c # s"
  proof -
    have "is_space (CHR '' '')" by (simp add: is_space_def)
    then show ?thesis using digit_char_other(1) [OF d(1)] d(2) ds by simp
  qed
  have sign: "scan_sign (?ds @ c # s) = (False, ?ds @ c # s)"
    using digit_char_other(6,7) [OF d(1)] d(2) ds by (simp add: scan_sign_def)
  have "y \<noteq> CHR ''x'' \<and> y \<noteq> CHR ''X''" if y: "y \<in> set ?ds" for y
  proof -
    obtain d where "d < base" "y = digit_char d" using dc [OF y] by blast
    moreover from this have "d < 16" using base by linarith
    ultimately show ?thesis using digit_char_other(4,5) by simp
  qed
  with nx have "\<forall>y \<in> set (?ds @ c # s). y \<noteq> CHR ''x'' \<and> y \<noteq> CHR ''X''" by auto
  then have pre: "scan_prefix base (?ds @ c # s) = ?ds @ c # s"
    by (intro scan_prefix_id) (metis list.set_sel(2) tl_Nil list.sel(2))
  have "takeWhile (is_digit base) (?ds @ c # s) = ?ds" "dropWhile (is_digit base) (?ds @ c # s) = c # s"
    using digs c by (simp_all add: takeWhile_append2 dropWhile_append2)
  then show ?thesis
    using show_digits_value [OF base n(1)] n(3) ds skip sign pre
    by (simp add: scan_number_def Let_def number_value_def)
qed

lemma show_digits_set:
  assumes "2 \<le> base" "base \<le> 16" "c \<in> set (show_digits k base n)"
  shows "c \<noteq> newline" "c \<noteq> CHR 0x00" "c \<noteq> CHR ''x''" "c \<noteq> CHR ''X''"
proof -
  obtain d where "d < base" "c = digit_char d" using show_digits_chars [OF assms(1,2)] assms(3) by blast
  moreover from this have "d < 16" using assms(2) by linarith
  ultimately show "c \<noteq> newline" "c \<noteq> CHR 0x00" "c \<noteq> CHR ''x''" "c \<noteq> CHR ''X''" using digit_char_other by simp_all
qed

lemma type_char_simps [simp]:
  "type_char t \<noteq> newline" "newline \<noteq> type_char t" "type_char t \<noteq> CHR 0x00" "type_char t \<noteq> CHR ''=''"
  by (cases t; simp add: type_char_def newline_def)+

lemma scan_access_show:
  "scan_access (show_access a) = Some (type_char (access_type a), virtual_address a, access_value a)"
proof -
  let ?va = "virtual_address a" and ?v = "access_value a"
  let ?t2 = "show_digits 3 10 (unat ?v) @ [newline]"
  have d2: "\<forall>c \<in> set ?t2. c \<noteq> CHR 0x00 \<and> c \<noteq> CHR ''x'' \<and> c \<noteq> CHR ''X''"
    using show_digits_set [of 10 _ 3 "unat ?v"] by (auto simp: newline_def)
  have d1: "\<forall>c \<in> set (show_digits 16 16 (unat ?va)). c \<noteq> CHR 0x00"
    using show_digits_set [of 16 _ 16 "unat ?va"] by auto
  have nul: "takeWhile (\<lambda>c. c \<noteq> CHR 0x00) (show_access a) = show_access a"
    using d1 d2 by (intro takeWhile_eq_all_conv [THEN iffD2]) (auto simp: show_access_def)
  have va: "unat ?va < 16 ^ 16" using unsigned_less [of ?va] by simp
  have v: "unat ?v < 256" using unsigned_less [of ?v] by simp
  have sp: "\<not> is_digit 16 (CHR '' '')" "\<not> is_digit 10 newline"
    by (simp_all add: is_digit_def digit_value_def newline_def)
  have n1: "scan_number 16 (CHR '' '' # show_digits 16 16 (unat ?va) @ CHR '' '' # ?t2) = Some (?va, CHR '' '' # ?t2)"
    using scan_number_show [of 16 "unat ?va" 16 "CHR '' ''" ?t2] va sp(1) d2 unsigned_less [of ?va] by simp
  have n2: "scan_number 10 (CHR '' '' # ?t2) = Some (of_nat (unat ?v), [newline])"
    using scan_number_show [of 10 "unat ?v" 3 newline "[]"] v sp(2) by (simp add: newline_def)
  have "ucast (of_nat (unat ?v) :: u64) = ?v"
    by (rule bit_word_eqI) (simp add: bit_simps)
  then show ?thesis unfolding scan_access_def nul using n1 n2 by (simp add: show_access_def)
qed

lemma read_line_line:
  "newline \<notin> set l \<Longrightarrow> length l < n \<Longrightarrow> read_line n (l @ newline # r) = (l @ [newline], r, False)"
proof (induction l arbitrary: n)
  case Nil
  then show ?case by (cases n) auto
next
  case (Cons c l)
  then show ?case by (cases n) auto
qed

text \<open>Reading a printed access whose offset the code accepts.\<close>

lemma TraceRead_show:
  assumes u: "unread tr = show_access a @ r" and off: "unat (virtual_address a) mod 4096 \<le> 16"
  obtains tr' where "CSC369_TraceRead tr = (Some a, tr')" "unread tr' = r"
proof -
  define l where "l = type_char (access_type a) # CHR '' '' # show_digits 16 16 (unat (virtual_address a)) @
     CHR '' '' # show_digits 3 10 (unat (access_value a))"
  have sl: "show_access a = l @ [newline]" by (simp add: l_def show_access_def)
  have nl: "newline \<notin> set l"
    using show_digits_set [of 10 newline 3 "unat (access_value a)"]
      show_digits_set [of 16 newline 16 "unat (virtual_address a)"]
    using type_char_simps(2) [of "access_type a"] by (auto simp: l_def newline_def)
  have len: "length l < 255"
    using show_digits_length [of 16 16 "unat (virtual_address a)"] show_digits_length [of 3 10 "unat (access_value a)"]
    by (simp add: l_def)
  let ?tr = "tr\<lparr>line_number := line_number tr + 1\<rparr>"
  have "read_line 255 (unread ?tr) = (show_access a, r, False)"
    using read_line_line [OF nl len, of r] u sl by simp
  then have "trace_fgets ?tr = (True, ?tr\<lparr>unread := r, eof := False, buffer := show_access a\<rparr>)" (is "_ = (_, ?tr')")
    by (simp add: trace_fgets_def sl)
  moreover have "hd (show_access a) \<noteq> CHR ''=''" by (simp add: show_access_def)
  ultimately have sk: "skip_lines ?tr = ?tr'" by (subst skip_lines.simps) simp
  have "unat (virtual_address a mod 4096) \<le> 16" using off by (simp add: unat_mod)
  then have nb: "\<not> 16 < virtual_address a mod 4096" by (simp add: word_less_nat_alt)
  have "CSC369_TraceRead tr = (Some a, ?tr')"
    using sk scan_access_show [of a] nb by (cases "access_type a") (simp_all add: CSC369_TraceRead_def Let_def type_char_def)
  then show thesis using that by simp
qed

lemma TraceRead_empty: "unread tr = [] \<Longrightarrow> fst (CSC369_TraceRead tr) = None"
  by (simp add: CSC369_TraceRead_def skip_lines.simps [of "tr\<lparr>line_number := line_number tr + 1\<rparr>"]
      trace_fgets_def Let_def numeral_eq_Suc)

lemma trace_accesses_show:
  "\<forall>a \<in> set as. unat (virtual_address a) mod 4096 \<le> 16 \<Longrightarrow> unread tr = concat (map show_access as) \<Longrightarrow>
   trace_accesses tr = as"
proof (induction as arbitrary: tr)
  case Nil
  then show ?case using TraceRead_empty [of tr]
    by (subst trace_accesses.simps) (auto split: prod.splits)
next
  case (Cons a as)
  obtain tr' where t: "CSC369_TraceRead tr = (Some a, tr')" "unread tr' = concat (map show_access as)"
    using TraceRead_show [of tr a "concat (map show_access as)"] Cons.prems by auto
  then show ?case using Cons by (subst trace_accesses.simps) simp
qed

section \<open>Properties\<close>

text \<open>A line that starts with an equals sign is skipped.\<close>

lemma skip_lines_overwrites:
  assumes "unread s = unread tr" "line_number s = line_number tr"
  shows "skip_lines s = skip_lines tr \<or> (eof (skip_lines s) \<and> eof (skip_lines tr))"
proof -
  obtain l r e where l: "read_line 255 (unread tr) = (l, r, e)" by (cases "read_line 255 (unread tr)")
  show ?thesis
  proof (cases "l = []")
    case True
    then have "trace_fgets s = (False, s\<lparr>unread := r, eof := True\<rparr>)" "trace_fgets tr = (False, tr\<lparr>unread := r, eof := True\<rparr>)"
      using l assms by (simp_all add: trace_fgets_def)
    then show ?thesis by (simp add: skip_lines.simps [of s] skip_lines.simps [of tr])
  next
    case False
    have "s\<lparr>unread := r, eof := e, buffer := l\<rparr> = tr\<lparr>unread := r, eof := e, buffer := l\<rparr>"
      using assms by (cases s; cases tr) simp
    then have "trace_fgets s = trace_fgets tr" using False l assms by (simp add: trace_fgets_def)
    moreover have "fst (trace_fgets tr)" using False l by (simp add: trace_fgets_def)
    ultimately have "skip_lines s = skip_lines tr"
      by (cases "trace_fgets tr") (simp add: skip_lines.simps [of s] skip_lines.simps [of tr])
    then show ?thesis by blast
  qed
qed

lemma trace_accesses_comment:
  assumes "unread tr = CHR ''='' # c @ newline # r" "newline \<notin> set c" "length c < 254"
  shows "trace_accesses tr = trace_accesses (tr\<lparr>unread := r\<rparr>)"
proof -
  let ?tr = "tr\<lparr>line_number := line_number tr + 1\<rparr>" and ?s = "tr\<lparr>unread := r, line_number := line_number tr + 1\<rparr>"
  let ?t = "?tr\<lparr>unread := r, eof := False, buffer := CHR ''='' # c @ [newline]\<rparr>"
  have "CHR ''='' \<noteq> newline" by (simp add: newline_def)
  then have "read_line 255 (unread tr) = (CHR ''='' # c @ [newline], r, False)"
    using read_line_line [of "CHR ''='' # c" 255 r] assms by simp
  then have "trace_fgets ?tr = (True, ?t)" by (simp add: trace_fgets_def)
  then have "skip_lines ?tr = skip_lines ?t" by (subst skip_lines.simps) simp
  then have "skip_lines ?tr = skip_lines ?s \<or> (eof (skip_lines ?tr) \<and> eof (skip_lines ?s))"
    using skip_lines_overwrites [of ?t ?s] by simp
  then have "CSC369_TraceRead tr = CSC369_TraceRead (tr\<lparr>unread := r\<rparr>) \<or>
      (fst (CSC369_TraceRead tr) = None \<and> fst (CSC369_TraceRead (tr\<lparr>unread := r\<rparr>)) = None)"
  proof
    assume "skip_lines ?tr = skip_lines ?s"
    then show ?thesis by (simp add: CSC369_TraceRead_def Let_def)
  next
    assume "eof (skip_lines ?tr) \<and> eof (skip_lines ?s)"
    then show ?thesis by (simp add: CSC369_TraceRead_def Let_def)
  qed
  then show ?thesis
    by (auto simp: trace_accesses.simps [of tr] trace_accesses.simps [of "tr\<lparr>unread := r\<rparr>"] split: prod.splits)
qed

text \<open>A line of a trace file: a comment or an access.\<close>

definition show_line :: "string + CSC369_MemAccess \<Rightarrow> string" where
  "show_line x = (case x of Inl c \<Rightarrow> CHR ''='' # c @ [newline] | Inr a \<Rightarrow> show_access a)"

definition line_ok :: "string + CSC369_MemAccess \<Rightarrow> bool" where
  "line_ok x = (case x of
      Inl c \<Rightarrow> newline \<notin> set c \<and> length c < 254
    | Inr a \<Rightarrow> unat (virtual_address a) mod CSC369_PAGE_SIZE \<le> CSC369_SIMULATED_FRAME_SIZE)"

definition line_accesses :: "(string + CSC369_MemAccess) list \<Rightarrow> CSC369_MemAccess list" where
  "line_accesses ls = concat (map (case_sum (\<lambda>_. []) (\<lambda>a. [a])) ls)"

lemma show_line_simps [simp]:
  "show_line (Inl c) = CHR ''='' # c @ [newline]" "show_line (Inr a) = show_access a"
  by (simp_all add: show_line_def)

lemma line_ok_simps [simp]:
  "line_ok (Inl c) = (newline \<notin> set c \<and> length c < 254)"
  "line_ok (Inr a) = (unat (virtual_address a) mod 4096 \<le> 16)"
  by (simp_all add: line_ok_def)

lemma line_accesses_simps [simp]:
  "line_accesses [] = []" "line_accesses (Inl c # ls) = line_accesses ls"
  "line_accesses (Inr a # ls) = a # line_accesses ls"
  by (simp_all add: line_accesses_def)

text \<open>Lines are read one by one, whatever follows them.\<close>

lemma trace_accesses_append:
  assumes "list_all line_ok ls" "\<And>tr. unread tr = r \<Longrightarrow> trace_accesses tr = as"
  shows "unread tr = concat (map show_line ls) @ r \<Longrightarrow> trace_accesses tr = line_accesses ls @ as"
  using assms(1)
proof (induction ls arbitrary: tr)
  case Nil
  then show ?case using assms(2) by simp
next
  case (Cons x ls)
  show ?case
  proof (cases x)
    case (Inl c)
    then have "trace_accesses tr = trace_accesses (tr\<lparr>unread := concat (map show_line ls) @ r\<rparr>)"
      using Cons.prems by (intro trace_accesses_comment [where c = c]) simp_all
    then show ?thesis using Cons.IH [of "tr\<lparr>unread := concat (map show_line ls) @ r\<rparr>"] Cons.prems Inl by simp
  next
    case (Inr a)
    then have u: "unread tr = show_access a @ concat (map show_line ls) @ r" "unat (virtual_address a) mod 4096 \<le> 16"
      using Cons.prems by simp_all
    obtain tr' where "CSC369_TraceRead tr = (Some a, tr')" "unread tr' = concat (map show_line ls) @ r"
      by (rule TraceRead_show [OF u])
    then show ?thesis using Cons.IH [of tr'] Cons.prems Inr by (simp add: trace_accesses.simps [of tr])
  qed
qed

lemma trace_accesses_lines:
  assumes "list_all line_ok ls" "unread tr = concat (map show_line ls)"
  shows "trace_accesses tr = line_accesses ls"
  using trace_accesses_append [OF assms(1), of "[]" "[]" tr] trace_accesses_show [of "[]"] assms(2) by simp

lemma line_accesses_map [simp]: "line_accesses (map Inr as) = as"
  by (induction as) simp_all

lemma trace_round_trip_text:
  "list_all line_ok ls \<Longrightarrow>
   \<exists>tr. CSC369_TraceCreate True True (concat (map show_line ls)) = Some tr \<and> trace_accesses tr = line_accesses ls"
  by (simp add: CSC369_TraceCreate_def trace_accesses_lines)

text \<open>
  C27: reading a trace file of printed accesses and comment lines, in any order, gives exactly
  the accesses back, in order; the comments, lines that start with an equals sign, are skipped.
\<close>

theorem trace_round_trip:
  assumes "list_all line_ok ls"
  shows "\<exists>tr. CSC369_TraceCreate True True (concat (map show_line ls)) = Some tr \<and> trace_accesses tr = line_accesses ls"
  using assms by (rule trace_round_trip_text)

theorem trace_round_trip_witness:
  "\<exists>tr. CSC369_TraceCreate True True (concat (map show_line [Inl ''= start'',
       Inr \<lparr>access_type = CSC369_ACCESS_TYPE_STORE, virtual_address = 0x7fff0000100f, access_value = 200\<rparr>, Inl '''']))
       = Some tr \<and>
     trace_accesses tr = [\<lparr>access_type = CSC369_ACCESS_TYPE_STORE, virtual_address = 0x7fff0000100f, access_value = 200\<rparr>]"
proof -
  let ?a = "\<lparr>access_type = CSC369_ACCESS_TYPE_STORE, virtual_address = 0x7fff0000100f, access_value = 200\<rparr>"
  have "list_all line_ok [Inl ''= start'', Inr ?a, Inl '''']" by (simp add: newline_def)
  from trace_round_trip [OF this] show ?thesis by simp
qed

text \<open>
  The reader accepts an address whose offset is one past the simulated frame: it compares
  with \<open>>\<close> where the message says the offset must be inside the frame.
\<close>

lemma trace_accepts_offset_past_frame:
  assumes "unread tr = show_access a @ r" "unat (virtual_address a) mod CSC369_PAGE_SIZE = CSC369_SIMULATED_FRAME_SIZE"
  shows "fst (CSC369_TraceRead tr) = Some a"
  using TraceRead_show [OF assms(1)] assms(2) by (metis FRAME_SIZE_eq PAGE_SIZE_eq fst_conv order_refl)






end
