(* ===== verification/Memsim.thy ===== *)
theory Memsim
  imports Simulation Trace
begin

text \<open>
  \<open>CSC369_SimulationRun\<close> and \<open>memsim.c\<close>: the loop that reads the trace and executes its
  accesses, the table of replacement policies, and the command line.  The option letters and
  arguments that \<open>getopt\<close> yields are a list.
\<close>

section \<open>The run\<close>

declare bindR_cong [fundef_cong]

function CSC369_SimulationRun ::
  "CSC369_Policy \<Rightarrow> csc369_trace \<Rightarrow> machine \<Rightarrow> (byte option list \<times> machine) res" where
  "CSC369_SimulationRun pol tr m =
     (case CSC369_TraceRead tr of
        (None, tr') \<Rightarrow> Inr ([], m)
      | (Some a, tr') \<Rightarrow>
          bindR (ExecuteMemInstruction (CSC369_PolicyOnRef pol) (CSC369_PolicyEvict pol) a m) (\<lambda>(r, m).
          bindR (CSC369_SimulationRun pol tr' m) (\<lambda>(rs, m). Inr (r # rs, m))))"
  by pat_completeness auto
termination
  by (relation "measure (\<lambda>(pol, tr, m). length (unread tr))") (auto dest: TraceRead_progress [OF sym])

declare CSC369_SimulationRun.simps [simp del]

lemma SimulationRun_accesses: "CSC369_SimulationRun pol tr m = run_accesses pol (trace_accesses tr) m"
proof (induction pol tr m rule: CSC369_SimulationRun.induct)
  case (1 pol tr m)
  obtain x tr' where t: "CSC369_TraceRead tr = (x, tr')" by (cases "CSC369_TraceRead tr")
  show ?case
  proof (cases x)
    case None
    then show ?thesis using t by (subst CSC369_SimulationRun.simps, subst trace_accesses.simps) simp
  next
    case (Some a)
    then have "CSC369_SimulationRun pol tr' m' = run_accesses pol (trace_accesses tr') m'"
      if "ExecuteMemInstruction (CSC369_PolicyOnRef pol) (CSC369_PolicyEvict pol) a m = Inr (r, m')" for r m'
      using 1 [OF t [symmetric] Some that refl] by simp
    then show ?thesis
      using t Some by (subst CSC369_SimulationRun.simps, subst trace_accesses.simps)
        (auto intro!: bindR_cong split: prod.splits)
  qed
qed

section \<open>The policies\<close>

definition CSC369_POLICIES :: "CSC369_Policy list" where
  "CSC369_POLICIES = [policy_Rand, policy_RR, policy_Clock, policy_S2Q]"

fun find_policy :: "string \<Rightarrow> CSC369_Policy list \<Rightarrow> CSC369_Policy option" where
  "find_policy s [] = None"
| "find_policy s (p # ps) = (if policy_name p = s then Some p else find_policy s ps)"

definition GetReplacementAlgorithm :: "string \<Rightarrow> CSC369_Policy option" where
  "GetReplacementAlgorithm s = find_policy s CSC369_POLICIES"

section \<open>The command line\<close>

record csc369_args =
  arg_memsize :: u64
  arg_swapsize :: u64
  arg_trace_file :: "string option"
  arg_replacement :: "string option"

definition no_args :: csc369_args where
  "no_args = \<lparr>arg_memsize = 0, arg_swapsize = 0, arg_trace_file = None, arg_replacement = None\<rparr>"

definition strtoul10 :: "string \<Rightarrow> u64" where
  "strtoul10 s = (case scan_number 10 s of None \<Rightarrow> 0 | Some (v, _) \<Rightarrow> v)"

text \<open>\<open>None\<close>: the usage message was printed.\<close>

fun parse_options :: "(char \<times> string) list \<Rightarrow> csc369_args \<Rightarrow> csc369_args option" where
  "parse_options [] args = Some args"
| "parse_options ((opt, optarg) # opts) args =
     (if opt = CHR ''f'' then parse_options opts (args\<lparr>arg_trace_file := Some optarg\<rparr>)
      else if opt = CHR ''m'' then parse_options opts (args\<lparr>arg_memsize := strtoul10 optarg\<rparr>)
      else if opt = CHR ''a'' then parse_options opts (args\<lparr>arg_replacement := Some optarg\<rparr>)
      else if opt = CHR ''s'' then parse_options opts (args\<lparr>arg_swapsize := strtoul10 optarg\<rparr>)
      else None)"

definition CreateSimulationFromArgs ::
  "csc369_env \<Rightarrow> kmalloc \<Rightarrow> (char \<times> string) list \<Rightarrow> (CSC369_Policy option \<times> machine) option res" where
  "CreateSimulationFromArgs env k opts =
     (case parse_options opts no_args of
        None \<Rightarrow> Inr None
      | Some args \<Rightarrow>
          (case (arg_trace_file args, arg_replacement args) of
             (Some f, Some alg) \<Rightarrow>
               if arg_memsize args = 0 \<or> arg_swapsize args = 0 then Inr None
               else
                 let pol = GetReplacementAlgorithm alg in
                 bindR (CSC369_SimulationCreate env k (unat (arg_memsize args)) (arg_swapsize args) pol) (\<lambda>sim.
                 Inr (map_option (Pair pol) sim))
           | _ \<Rightarrow> Inr None))"

text \<open>
  \<open>get_time\<close> returns this sum of the seconds and the nanoseconds of the process clock, divided
  by \<open>10 ^ 9\<close>.
\<close>

definition get_time_total :: "u64 \<Rightarrow> u64 \<Rightarrow> u64" where
  "get_time_total tv_sec tv_nsec = tv_sec + tv_nsec"

section \<open>Every policy keeps the contract\<close>

definition policy_inv :: "CSC369_Policy \<Rightarrow> nat set \<Rightarrow> machine \<Rightarrow> bool" where
  "policy_inv pol =
     (if policy_name pol = ''Rand'' then rand_inv
      else if policy_name pol = ''RR'' then rr_inv
      else if policy_name pol = ''Clock'' then clock_inv
      else s2q_inv)"

lemma policies_contract:
  assumes "pol \<in> set CSC369_POLICIES"
  shows "replacement_policy (CSC369_PolicyInit pol) (CSC369_PolicyOnRef pol) (CSC369_PolicyEvict pol) (policy_inv pol)"
proof -
  have eqs: "policy_inv policy_Rand = rand_inv" "policy_inv policy_RR = rr_inv"
    "policy_inv policy_Clock = clock_inv" "policy_inv policy_S2Q = s2q_inv"
    by (simp_all add: policy_inv_def policy_Rand_def policy_RR_def policy_Clock_def policy_S2Q_def)
  from assms consider "pol = policy_Rand" | "pol = policy_RR" | "pol = policy_Clock" | "pol = policy_S2Q"
    by (auto simp: CSC369_POLICIES_def)
  then show ?thesis
  proof cases
    case 1
    then show ?thesis using rand.replacement_policy_axioms unfolding 1 eqs by (simp add: policy_Rand_def)
  next
    case 2
    then show ?thesis using rr.replacement_policy_axioms unfolding 2 eqs by (simp add: policy_RR_def)
  next
    case 3
    then show ?thesis using clock.replacement_policy_axioms unfolding 3 eqs by (simp add: policy_Clock_def)
  next
    case 4
    then show ?thesis using s2q.replacement_policy_axioms unfolding 4 eqs by (simp add: policy_S2Q_def)
  qed
qed

lemma find_policies: "pol \<in> set CSC369_POLICIES \<Longrightarrow> GetReplacementAlgorithm (policy_name pol) = Some pol"
  by (auto simp: CSC369_POLICIES_def GetReplacementAlgorithm_def
      policy_Rand_def policy_RR_def policy_Clock_def policy_S2Q_def)

lemma find_policy_None: "s \<notin> policy_name ` set ps \<Longrightarrow> find_policy s ps = None"
  by (induction ps) auto

end
