(* ===== verification/Reach.thy ===== *)
theory Reach
  imports Memsim
begin

text \<open>
  The simulator as a state machine: the machines that a creation and any sequence of accesses
  lead to, as an inductive predicate, and the invariant every one of them satisfies.  The
  accesses are arbitrary ones to the pages \<open>T\<close>; the conditions \<open>run_conditions\<close> say that the
  sizes fit and that the allocator and the swap file have room for these pages.
\<close>

section \<open>Reachable machines\<close>

inductive reachable ::
  "CSC369_Policy \<Rightarrow> csc369_env \<Rightarrow> kmalloc \<Rightarrow> nat \<Rightarrow> u64 \<Rightarrow> nat list set \<Rightarrow> machine \<Rightarrow> bool"
  for pol env k n swap_size T where
  created: "CSC369_SimulationCreate env k n swap_size (Some pol) = Inr (Some m) \<Longrightarrow>
     reachable pol env k n swap_size T m"
| accessed: "reachable pol env k n swap_size T m \<Longrightarrow> va_ok (virtual_address a) \<Longrightarrow>
     page_path (virtual_address a) \<in> T \<Longrightarrow>
     ExecuteMemInstruction (CSC369_PolicyOnRef pol) (CSC369_PolicyEvict pol) a m = Inr (r, m') \<Longrightarrow>
     reachable pol env k n swap_size T m'"

definition run_conditions ::
  "CSC369_Policy \<Rightarrow> csc369_env \<Rightarrow> kmalloc \<Rightarrow> nat \<Rightarrow> u64 \<Rightarrow> nat list set \<Rightarrow> bool" where
  "run_conditions pol env k n swap_size T \<longleftrightarrow> pol \<in> set CSC369_POLICIES \<and> env_ok env \<and>
     sizes_ok env n swap_size \<and> finite T \<and> km_room k (card T) \<and> card T \<le> unat swap_size"

section \<open>The invariant\<close>

text \<open>Every reachable machine satisfies the invariant of a run and represents some flat memory.\<close>

lemma reachable_ok:
  assumes "reachable pol env k n swap_size T m" "run_conditions pol env k n swap_size T"
  shows "sim_ok (policy_inv pol) T (bytes_malloced k + create_bytes) m \<and> memsize m = n \<and> (\<exists>mem. mem_rel mem m)"
  using assms(1)
proof induction
  case (created m)
  note c = assms(2) [unfolded run_conditions_def]
  obtain m1 where "CSC369_SimulationCreate env k n swap_size (Some pol) = Inr (Some m1)"
    "sim_ok (policy_inv pol) T (bytes_malloced k + create_bytes) m1" "mem_rel (\<lambda>_. 0) m1" "memsize m1 = n"
    using replacement_policy.create_sim_ok [OF policies_contract [of pol], of env n swap_size k T pol] c by blast
  then show ?case using created by auto
next
  case (accessed m a r m')
  note c = assms(2) [unfolded run_conditions_def]
  obtain mem where "mem_rel mem m" using accessed by blast
  then obtain m1 where "ExecuteMemInstruction (CSC369_PolicyOnRef pol) (CSC369_PolicyEvict pol) a m =
      Inr (fst (flat_step a mem), m1)" "sim_ok (policy_inv pol) T (bytes_malloced k + create_bytes) m1"
    "mem_rel (snd (flat_step a mem)) m1" "memsize m1 = memsize m"
    using replacement_policy.execute_ok [OF policies_contract [of pol]] accessed c by metis
  then show ?case using accessed by auto
qed

lemma reachable_mm_ok:
  assumes "reachable pol env k n swap_size T m" "run_conditions pol env k n swap_size T"
  shows "mm_ok {} m" "policy_inv pol (used m) m" "dom (page m) \<subseteq> T"
    "card T \<le> unat (nbits (swapmap (mswap m)))" "finite T"
  using reachable_ok [OF assms] by (simp_all add: sim_ok_def)

lemma run_reachable:
  "reachable pol env k n swap_size T m \<Longrightarrow> \<forall>a \<in> set as. va_ok (virtual_address a) \<Longrightarrow> touched as \<subseteq> T \<Longrightarrow>
   run_accesses pol as m = Inr (rs, m') \<Longrightarrow> reachable pol env k n swap_size T m'"
proof (induction as arbitrary: m rs)
  case (Cons a as)
  obtain r m1 rs1 where e: "ExecuteMemInstruction (CSC369_PolicyOnRef pol) (CSC369_PolicyEvict pol) a m = Inr (r, m1)"
    "run_accesses pol as m1 = Inr (rs1, m')"
    using Cons.prems(4) by auto
  have "reachable pol env k n swap_size T m1"
    using reachable.accessed [OF Cons.prems(1) _ _ e(1)] Cons.prems by (auto simp: touched_def)
  then show ?case using Cons.IH [OF _ _ _ e(2)] Cons.prems by (simp add: touched_def)
qed simp

section \<open>A sample run\<close>

text \<open>One frame, eight slots, round robin; two pages that evict each other.\<close>

definition sample_env :: csc369_env where
  "sample_env = \<lparr>calloc_simulation = True, trace_opens = True, calloc_physmem = True, calloc_swap = True,
     calloc_bitmap = True, calloc_words = True, mkstemp_works = True, calloc_coremap = True,
     calloc_frames = True, disk_limit = 128, random_values = (\<lambda>i. 5 * i)\<rparr>"

definition sample_km :: kmalloc where
  "sample_km = CSC369_MallocInit (\<lambda>i. Some (Suc i))"

definition sample_accesses :: "CSC369_MemAccess list" where
  "sample_accesses =
     [\<lparr>access_type = CSC369_ACCESS_TYPE_STORE, virtual_address = 0x1003, access_value = 5\<rparr>,
      \<lparr>access_type = CSC369_ACCESS_TYPE_MODIFY, virtual_address = 0x7f0000002001, access_value = 6\<rparr>,
      \<lparr>access_type = CSC369_ACCESS_TYPE_LOAD, virtual_address = 0x1003, access_value = 5\<rparr>,
      \<lparr>access_type = CSC369_ACCESS_TYPE_INSTRUCTION_FETCH, virtual_address = 0x7f0000002001, access_value = 9\<rparr>]"

lemma sample_va: "\<forall>a \<in> set sample_accesses. va_ok (virtual_address a)"
  by (simp add: sample_accesses_def va_ok_def)

lemma sample_touched: "card (touched sample_accesses) \<le> 4"
proof -
  have "card (touched sample_accesses) \<le> card (set sample_accesses)"
    unfolding touched_def image_image by (rule card_image_le) simp
  also have "\<dots> \<le> length sample_accesses" by (rule card_length)
  finally show ?thesis by (simp add: sample_accesses_def)
qed

lemma sample_km_room: "p \<le> 4 \<Longrightarrow> km_room sample_km p"
  by (auto simp: km_room_def sample_km_def CSC369_MallocInit_def libc_ok_def create_bytes_def
      pt_alloc_bytes_def inj_on_def)

lemma sample_conditions:
  "pol \<in> set CSC369_POLICIES \<Longrightarrow> run_conditions pol sample_env sample_km 1 8 (touched sample_accesses)"
  using sample_touched sample_km_room [OF sample_touched]
  by (simp add: run_conditions_def env_ok_def sizes_ok_def sample_env_def touched_def)

lemma sample_RR: "policy_RR \<in> set CSC369_POLICIES"
  by (simp add: CSC369_POLICIES_def)

lemma sample_reachable:
  obtains m where "reachable policy_RR sample_env sample_km 1 8 (touched sample_accesses) m"
proof -
  have c: "env_ok sample_env" "sizes_ok sample_env 1 8" "km_room sample_km (card (touched sample_accesses))"
    "finite (touched sample_accesses)" "card (touched sample_accesses) \<le> unat (8 :: u64)"
    using sample_conditions [OF sample_RR] unfolding run_conditions_def by blast+
  obtain m where "CSC369_SimulationCreate sample_env sample_km 1 8 (Some policy_RR) = Inr (Some m)"
    by (rule replacement_policy.create_sim_ok [OF policies_contract [OF sample_RR] c refl])
  then show thesis using that reachable.created by blast
qed

lemma strtoul10_samples: "strtoul10 ''1'' = 1" "strtoul10 ''8'' = 8"
  by (simp_all add: strtoul10_def scan_number_def scan_sign_def scan_prefix_def is_space_def is_digit_def
      digit_value_def digits_value_def number_value_def Let_def)

end
