(* ===== verification/History.thy ===== *)
theory History
  imports Reach
begin

text \<open>
  The history of the pages through a run: every access of a reachable machine moves the pages
  along the state machine of theory \<open>PageLife\<close>, evicts a page exactly when a fault finds every
  frame in use, and keeps the statistics in balance.
\<close>

section \<open>One access\<close>

lemma state_of_physmem [simp]:
  "state_of (m\<lparr>physmem := pm\<rparr>) = state_of m" "occupancy (m\<lparr>physmem := pm\<rparr>) = occupancy m"
  using state_of_cong [OF page_cong(2) [of "m\<lparr>physmem := pm\<rparr>" m]]
  by (simp_all add: occupancy_def evictions_def used_def)

lemma core_eq_occupancy:
  assumes "core_eq m m'" "mm_ok {} m"
  shows "occupancy m' = occupancy m"
proof -
  have "used m' = used m" by (rule same_view_used [OF core_eq_view [OF assms]])
  then show ?thesis using assms(1) by (simp add: occupancy_def evictions_def core_eq_def)
qed

context replacement_policy begin

lemma execute_effect:
  assumes s: "sim_ok inv T B m" and va: "va_ok (virtual_address a)"
    and x: "page_path (virtual_address a) \<in> T"
    and e: "ExecuteMemInstruction on_ref evict a m = Inr (r, m')"
  shows "access_effect (all_used m) (is_write a) (page_path (virtual_address a)) (state_of m) (state_of m')"
    "occupancy m' - miss_count (stats m') = occupancy m - miss_count (stats m)"
    "page_access on_ref evict (page_path (virtual_address a)) m m'"
    "hit_count (stats m') = hit_count (stats m) + (if frame_of m (page_path (virtual_address a)) \<noteq> None then 1 else 0)"
proof -
  let ?x = "page_path (virtual_address a)"
  have s': "mm_ok {} m" "inv (used m) m" "finite T" "insert ?x (dom (page m)) \<subseteq> T"
    "card T \<le> unat (nbits (swapmap (mswap m)))" using s x by (auto simp: sim_ok_def)
  obtain v m1 where g: "CSC369_MMGetFrameNumber evict a m = Inr (v, m1)" "translated inv m ?x v m1"
    "access_effect (all_used m) (is_write a) ?x (state_of m) (state_of m1)"
    "occupancy m1 = occupancy m + (if resident m ?x then 0 else 1)"
    "served evict ?x m v m1"
    using MMGetFrameNumber_effect [OF s'(1,2) _ s'(3-5) sim_quota [OF s x]] va by (auto simp: va_ok_def)
  note t = translatedD [OF g(2)]
  obtain U where U: "U \<subseteq> used m1" "insert (unat v) U = used m1" "inv U m1" "unat v \<in> U \<or> \<not> frame_ref m1 (unat v)"
    using t(5) by (elim exE conjE)
  have "unat v \<in> used m1" using U(2) by blast
  then obtain m2 where o: "on_ref (unat v) m1 = Inr m2" "core_eq m1 m2"
    using on_ref_ok [OF mm_ok_frames_ok [OF t(1)] _ U(1,4,3)] by blast
  have m': "m' = m2 \<or> (\<exists>pm. m' = m2\<lparr>physmem := pm\<rparr>)"
    using e g(1) o(1) by (auto simp: ExecuteMemInstruction_def CSC369_CoremapGetFrame_def Let_def split: if_splits)
  then have "state_of m' = state_of m2" "occupancy m' = occupancy m2" "stats m' = stats m2" by auto
  moreover have "stats m2 = stats m1" using o(2) by (simp add: core_eq_def)
  moreover note core_eq_state [OF o(2) t(1)] core_eq_occupancy [OF o(2) t(1)]
  ultimately show "access_effect (all_used m) (is_write a) ?x (state_of m) (state_of m')"
    "occupancy m' - miss_count (stats m') = occupancy m - miss_count (stats m)"
    using g(3,4) t(10) by (simp_all split: if_splits)
  have "frame_of m' = frame_of m2" "used m' = used m2" "policy_view (used m1) m2 m'"
    using m' frame_of_cong [of m' m2] page_cong(2) [of m' m2] frame_ref_cong [of m' m2]
    by (auto simp: used_def policy_view_def policy_same_def)
  moreover note frame_of_view [OF core_eq_view [OF o(2) t(1)]] same_view_used [OF core_eq_view [OF o(2) t(1)]]
  ultimately show "page_access on_ref evict ?x m m'"
    using g(5) o(1) mm_ok_frames_ok [OF t(1)] unfolding page_access_def
    by (intro exI [of _ v] exI [of _ m1] exI [of _ m2]) simp
  have "resident m ?x \<longleftrightarrow> frame_of m ?x \<noteq> None" by (simp add: resident_def frame_of_def split: option.splits)
  then show "hit_count (stats m') = hit_count (stats m) + (if frame_of m ?x \<noteq> None then 1 else 0)"
    using t(9) m' o(2) by (auto simp: core_eq_def)
qed

end

section \<open>Every reachable machine\<close>

text \<open>Between accesses no entry is merely allocated, and misses are frames in use and evictions.\<close>

definition pages_settled :: "machine \<Rightarrow> bool" where
  "pages_settled m \<longleftrightarrow> (\<forall>xs. state_of m xs \<noteq> Allocated)"

lemma effect_settled:
  assumes "access_effect full w x L L'" "\<forall>y. L y \<noteq> Allocated"
  shows "\<forall>y. L' y \<noteq> Allocated"
proof
  fix y
  show "L' y \<noteq> Allocated"
    using access_effect_step [OF assms(1)] assms(2) step_known by (cases "y = x") metis+
qed

lemma reachable_settled:
  assumes "reachable pol env k n swap_size T m" "run_conditions pol env k n swap_size T"
  shows "pages_settled m \<and> occupancy m = miss_count (stats m)"
  using assms(1)
proof induction
  case (created m)
  note c = assms(2) [unfolded run_conditions_def]
  obtain m1 where "CSC369_SimulationCreate env k n swap_size (Some pol) = Inr (Some m1)"
    "stats m1 = initial_stats" "dom (page m1) = {}" "used m1 = {}"
    using replacement_policy.create_sim_ok [OF policies_contract [of pol], of env n swap_size k T pol] c by blast
  then show ?case using created
    by (simp add: pages_settled_def state_of_def occupancy_def evictions_def initial_stats_def)
next
  case (accessed m a r m')
  note c = assms(2) [unfolded run_conditions_def]
  have s: "sim_ok (policy_inv pol) T (bytes_malloced k + create_bytes) m"
    using reachable_ok [OF accessed.hyps(1) assms(2)] by blast
  note eff = replacement_policy.execute_effect [OF policies_contract [OF conjunct1 [OF c]] s accessed.hyps(2-4)]
  show ?case using accessed.IH eff(2) effect_settled [OF eff(1)] by (simp add: pages_settled_def)
qed

lemma reachable_effect:
  assumes "reachable pol env k n swap_size T m" "run_conditions pol env k n swap_size T"
    "va_ok (virtual_address a)" "page_path (virtual_address a) \<in> T"
    "ExecuteMemInstruction (CSC369_PolicyOnRef pol) (CSC369_PolicyEvict pol) a m = Inr (r, m')"
  shows "access_effect (all_used m) (is_write a) (page_path (virtual_address a)) (state_of m) (state_of m')"
proof -
  have "pol \<in> set CSC369_POLICIES" using assms(2) by (simp add: run_conditions_def)
  from replacement_policy.execute_effect(1) [OF policies_contract [OF this] conjunct1 [OF reachable_ok [OF assms(1,2)]] assms(3-5)]
  show ?thesis .
qed

section \<open>A whole run\<close>

lemma run_page_steps:
  "reachable pol env k n swap_size T m \<Longrightarrow> run_conditions pol env k n swap_size T \<Longrightarrow>
   \<forall>a \<in> set as. va_ok (virtual_address a) \<Longrightarrow> touched as \<subseteq> T \<Longrightarrow>
   run_accesses pol as m = Inr (rs, m') \<Longrightarrow> page_path_steps (state_of m xs) (state_of m' xs)"
proof (induction as arbitrary: m rs)
  case (Cons a as)
  obtain r m1 rs1 where e: "ExecuteMemInstruction (CSC369_PolicyOnRef pol) (CSC369_PolicyEvict pol) a m = Inr (r, m1)"
    "run_accesses pol as m1 = Inr (rs1, m')"
    using Cons.prems(5) by auto
  have a: "va_ok (virtual_address a)" "page_path (virtual_address a) \<in> T" using Cons.prems by (auto simp: touched_def)
  have m1: "reachable pol env k n swap_size T m1" by (rule reachable.accessed [OF Cons.prems(1) a e(1)])
  have settled: "state_of m (page_path (virtual_address a)) \<noteq> Allocated"
    using reachable_settled [OF Cons.prems(1,2)] by (simp add: pages_settled_def)
  note st = access_effect_step [OF reachable_effect [OF Cons.prems(1,2) a e(1)] settled]
  have "state_of m1 xs = state_of m xs \<or> (\<exists>ev. page_step ev (state_of m xs) (state_of m1 xs))"
    using st by (cases "xs = page_path (virtual_address a)") blast+
  moreover have "page_path_steps (state_of m1 xs) (state_of m' xs)"
    using Cons.IH [OF m1 Cons.prems(2) _ _ e(2)] Cons.prems by (simp add: touched_def)
  ultimately show ?case by (metis (mono_tags, lifting) converse_rtranclp_into_rtranclp)
qed simp

text \<open>Every list of accesses to known pages is served.\<close>

lemma reachable_run:
  assumes "reachable pol env k n swap_size T m" "run_conditions pol env k n swap_size T"
    "\<forall>a \<in> set as. va_ok (virtual_address a)" "touched as \<subseteq> T"
  obtains rs m' where "run_accesses pol as m = Inr (rs, m')" "reachable pol env k n swap_size T m'"
    "length rs = length as"
proof -
  have pol: "pol \<in> set CSC369_POLICIES" using assms(2) by (simp add: run_conditions_def)
  obtain mem where s: "sim_ok (policy_inv pol) T (bytes_malloced k + create_bytes) m" "mem_rel mem m"
    using reachable_ok [OF assms(1,2)] by blast
  obtain m' where r: "run_accesses pol as m = Inr (flat_run as mem, m')"
    using replacement_policy.run_ok [OF policies_contract [OF pol] refl refl s(1) assms(3,4) s(2)] by blast
  have "length (flat_run as mem) = length as" for mem by (induction as arbitrary: mem) (auto split: prod.splits)
  then show thesis using that r run_reachable [OF assms(1,3,4) r] by blast
qed

lemma run_append:
  "run_accesses pol (as @ bs) m = bindR (run_accesses pol as m) (\<lambda>(rs, m1).
     bindR (run_accesses pol bs m1) (\<lambda>(rs', m2). Inr (rs @ rs', m2)))"
  by (induction as arbitrary: m) (auto simp: bindR_assoc split_beta bindR_def split: sum.splits)

lemma run_slot:
  assumes "page_path_steps (state_of m xs) (state_of m' xs)"
  shows "slot_in (state_of m xs) = None \<or> slot_in (state_of m' xs) = slot_in (state_of m xs)"
  using steps_keep_slot [OF assms] by (cases "slot_in (state_of m xs)") auto

section \<open>A sample history\<close>

text \<open>The second access of the sample run takes the only frame from the page of the first.\<close>

lemma sample_created:
  obtains m where "reachable policy_RR sample_env sample_km 1 8 (touched sample_accesses) m"
    "state_of m = (\<lambda>_. Absent)" "used m = {}" "memsize m = 1"
proof -
  have c: "env_ok sample_env" "sizes_ok sample_env 1 8" "km_room sample_km (card (touched sample_accesses))"
    "finite (touched sample_accesses)" "card (touched sample_accesses) \<le> unat (8 :: u64)"
    using sample_conditions [OF sample_RR] unfolding run_conditions_def by blast+
  obtain m where "CSC369_SimulationCreate sample_env sample_km 1 8 (Some policy_RR) = Inr (Some m)"
    "memsize m = 1" "dom (page m) = {}" "used m = {}"
    by (rule replacement_policy.create_sim_ok [OF policies_contract [OF sample_RR] c refl])
  moreover from this have "state_of m = (\<lambda>_. Absent)" by (simp add: state_of_def fun_eq_iff)
  ultimately show thesis by (intro that [of m] reachable.created)
qed

lemma sample_history:
  obtains m1 r m2 slot where
    "reachable policy_RR sample_env sample_km 1 8 (touched sample_accesses) m1"
    "ExecuteMemInstruction CSC369_PolicyRROnRef CSC369_PolicyRREvict (sample_accesses ! 1) m1 = Inr (r, m2)"
    "reachable policy_RR sample_env sample_km 1 8 (touched sample_accesses) m2"
    "state_of m1 (page_path 0x1003) = Resident None True" "all_used m1"
    "\<not> in_frame (state_of m1 (page_path 0x7f0000002001))"
    "state_of m2 (page_path 0x1003) = Swapped slot"
proof -
  let ?A = "page_path 0x1003" and ?B = "page_path 0x7f0000002001" and ?as = sample_accesses
  let ?r = "reachable policy_RR sample_env sample_km 1 8 (touched ?as)"
  note cond = sample_conditions [OF sample_RR]
  have AB: "?A \<noteq> ?B" by (simp add: page_path_page)
  have as: "va_ok (virtual_address (?as ! 0))" "va_ok (virtual_address (?as ! 1))"
    "page_path (virtual_address (?as ! 0)) \<in> touched ?as" "page_path (virtual_address (?as ! 1)) \<in> touched ?as"
    "virtual_address (?as ! 0) = 0x1003" "virtual_address (?as ! 1) = 0x7f0000002001"
    by (simp_all add: sample_accesses_def va_ok_def touched_def)
  obtain m where m: "?r m" "state_of m = (\<lambda>_. Absent)" "used m = {}" "memsize m = 1" by (rule sample_created)
  have step: "\<exists>r m'. ExecuteMemInstruction (CSC369_PolicyOnRef policy_RR) (CSC369_PolicyEvict policy_RR) a m = Inr (r, m')"
    if a: "?r m" "va_ok (virtual_address a)" "page_path (virtual_address a) \<in> touched ?as" for m a
  proof -
    have "\<forall>b \<in> set [a]. va_ok (virtual_address b)" "touched [a] \<subseteq> touched ?as"
      using a by (simp_all add: touched_def [of "[a]"])
    from reachable_run [OF a(1) cond this] obtain rs m' where "run_accesses policy_RR [a] m = Inr (rs, m')" by blast
    then show ?thesis by auto
  qed
  obtain r m1 where e1: "ExecuteMemInstruction (CSC369_PolicyOnRef policy_RR) (CSC369_PolicyEvict policy_RR) (?as ! 0) m = Inr (r, m1)"
    using step [OF m(1) as(1,3)] by blast
  have r1: "?r m1" by (rule reachable.accessed [OF m(1) as(1,3) e1])
  have "\<not> all_used m" using m(3,4) by (simp add: all_used_def lessThan_Suc)
  then have s1: "state_of m1 = (\<lambda>_. Absent)(?A := Resident None True)"
    using reachable_effect [OF m(1) cond as(1,3) e1] m(2) as(5) by (simp add: access_effect_def one_evicted_def)
  have mem: "memsize m1 = 1" using reachable_ok [OF r1 cond] by blast
  have "in_frame (state_of m1 ?A)" using s1 by simp
  then have "used m1 \<noteq> {}"
    using mm_ok_page [OF reachable_mm_ok(1) [OF r1 cond]] by (auto simp: in_frame_state page_ok_def)
  then have full: "all_used m1" using mem by (auto simp: all_used_def used_def)
  have nB: "\<not> in_frame (state_of m1 ?B)" using s1 AB by (auto simp: fun_upd_def)
  obtain r2 m2 where e2: "ExecuteMemInstruction (CSC369_PolicyOnRef policy_RR) (CSC369_PolicyEvict policy_RR) (?as ! 1) m1 = Inr (r2, m2)"
    using step [OF r1 as(2,4)] by blast
  obtain y s where y: "page_step Evict (state_of m1 y) s" "state_of m2 y = s \<or> y = ?B"
    using reachable_effect [OF r1 cond as(2,4) e2] full nB as(6) by (auto simp: access_effect_def one_evicted_def)
  have "y = ?A" using y(1) s1 by (auto elim: page_step_EvictE split: if_splits)
  moreover obtain slot where "s = Swapped slot" using y(1) by (auto elim: page_step_EvictE)
  ultimately have "state_of m2 ?A = Swapped slot" using y(2) AB by blast
  moreover have "?r m2" by (rule reachable.accessed [OF r1 as(2,4) e2])
  ultimately show thesis using that r1 e2 s1 full nB by (simp add: policy_RR_def)
qed

section \<open>Properties\<close>

text \<open>
  C8: in every machine the simulator reaches and under every policy, an access moves its page
  along the state machine of a page: into a frame, with the slot of the swap file it had, dirty
  if it is new, was dirty or is written; and it evicts exactly one other page when the page
  was not in a frame and every frame was in use, otherwise none.
\<close>

theorem page_life_cycle:
  assumes "reachable pol env k n swap_size T m" "run_conditions pol env k n swap_size T"
    "va_ok (virtual_address a)" "page_path (virtual_address a) \<in> T"
    "ExecuteMemInstruction (CSC369_PolicyOnRef pol) (CSC369_PolicyEvict pol) a m = Inr (r, m')"
  shows "page_step (Touch (is_write a)) (state_of m (page_path (virtual_address a)))
       (state_of m' (page_path (virtual_address a))) \<and>
     (\<forall>y. y = page_path (virtual_address a) \<or> state_of m' y = state_of m y \<or>
       page_step Evict (state_of m y) (state_of m' y)) \<and>
     card {y. y \<noteq> page_path (virtual_address a) \<and> state_of m' y \<noteq> state_of m y} =
       (if all_used m \<and> \<not> in_frame (state_of m (page_path (virtual_address a))) then 1 else 0)"
proof -
  note eff = reachable_effect [OF assms]
  have "state_of m (page_path (virtual_address a)) \<noteq> Allocated"
    using reachable_settled [OF assms(1,2)] by (simp add: pages_settled_def)
  from access_effect_step [OF eff this] access_effect_victims [OF eff] show ?thesis by blast
qed

theorem page_life_cycle_witness:
  "\<exists>m1 r m2. ExecuteMemInstruction CSC369_PolicyRROnRef CSC369_PolicyRREvict (sample_accesses ! 1) m1 = Inr (r, m2) \<and>
     card {y. y \<noteq> page_path 0x7f0000002001 \<and> state_of m2 y \<noteq> state_of m1 y} = 1"
proof -
  let ?a = "sample_accesses ! 1"
  obtain m1 r m2 slot where h: "reachable policy_RR sample_env sample_km 1 8 (touched sample_accesses) m1"
    "ExecuteMemInstruction CSC369_PolicyRROnRef CSC369_PolicyRREvict ?a m1 = Inr (r, m2)"
    "all_used m1" "\<not> in_frame (state_of m1 (page_path 0x7f0000002001))"
    by (rule sample_history)
  have a: "va_ok (virtual_address ?a)" "page_path (virtual_address ?a) \<in> touched sample_accesses"
    "virtual_address ?a = 0x7f0000002001"
    by (simp_all add: sample_accesses_def va_ok_def touched_def)
  have e: "ExecuteMemInstruction (CSC369_PolicyOnRef policy_RR) (CSC369_PolicyEvict policy_RR) ?a m1 = Inr (r, m2)"
    using h(2) by (simp add: policy_RR_def)
  from page_life_cycle [OF h(1) sample_conditions [OF sample_RR] a(1,2) e] h(2-4) show ?thesis
    unfolding a(3) by (intro exI [of _ m1] exI [of _ r] exI [of _ m2]) simp
qed

text \<open>
  C9: through any run from any reachable machine, every page follows the state machine: in
  particular a page keeps the slot of the swap file it once got, and no page is forgotten.
\<close>

theorem page_keeps_slot:
  assumes "reachable pol env k n swap_size T m" "run_conditions pol env k n swap_size T"
    "\<forall>a \<in> set as. va_ok (virtual_address a)" "touched as \<subseteq> T" "run_accesses pol as m = Inr (rs, m')"
  shows "page_path_steps (state_of m xs) (state_of m' xs) \<and>
     (slot_in (state_of m xs) = None \<or> slot_in (state_of m' xs) = slot_in (state_of m xs)) \<and>
     (state_of m xs = Absent \<or> state_of m' xs \<noteq> Absent)"
  using run_page_steps [OF assms] run_slot steps_known by blast

theorem page_keeps_slot_witness:
  "\<exists>m m' rs slot. run_accesses policy_RR sample_accesses m = Inr (rs, m') \<and>
     state_of m (page_path 0x1003) = Swapped slot \<and> slot_in (state_of m' (page_path 0x1003)) = Some slot"
proof -
  note cond = sample_conditions [OF sample_RR]
  obtain m1 r m slot where h: "reachable policy_RR sample_env sample_km 1 8 (touched sample_accesses) m"
    "state_of m (page_path 0x1003) = Swapped slot" by (rule sample_history)
  obtain rs m' where r: "run_accesses policy_RR sample_accesses m = Inr (rs, m')"
    by (rule reachable_run [OF h(1) cond sample_va order_refl])
  from page_keeps_slot [OF h(1) cond sample_va order_refl r, of "page_path 0x1003"]
  have "slot_in (state_of m' (page_path 0x1003)) = Some slot" using h(2) by simp
  with r h(2) show ?thesis by blast
qed

text \<open>
  C10: in every machine the simulator reaches, the number of misses is the number of frames in
  use plus the number of evictions, clean and dirty: each miss took a free frame or evicted one
  page.
\<close>

theorem misses_balance:
  assumes "reachable pol env k n swap_size T m" "run_conditions pol env k n swap_size T"
  shows "miss_count (stats m) =
     of_nat (card (used m)) + evict_clean_count (stats m) + evict_dirty_count (stats m)"
  using reachable_settled [OF assms] by (simp add: occupancy_def evictions_def add.assoc)

theorem misses_balance_witness:
  "\<exists>m. reachable policy_RR sample_env sample_km 1 8 (touched sample_accesses) m \<and>
     state_of m \<noteq> (\<lambda>_. Absent) \<and> miss_count (stats m) =
     of_nat (card (used m)) + evict_clean_count (stats m) + evict_dirty_count (stats m)"
proof -
  obtain m1 r m slot where h: "reachable policy_RR sample_env sample_km 1 8 (touched sample_accesses) m"
    "state_of m (page_path 0x1003) = Swapped slot" by (rule sample_history)
  then have "state_of m \<noteq> (\<lambda>_. Absent)" by auto
  with h(1) misses_balance [OF h(1) sample_conditions [OF sample_RR]] show ?thesis by blast
qed

text \<open>
  C11: every request is eventually served: from any reachable machine, whatever accesses
  come first, all of valid addresses (\<open>va_ok\<close>) on the known pages, the run goes on to the end and leaves the page of the last access in a frame, and the
  machine can go on from there.
\<close>

theorem every_access_served:
  assumes "reachable pol env k n swap_size T m" "run_conditions pol env k n swap_size T"
    "\<forall>b \<in> set (as @ [a]). va_ok (virtual_address b)" "touched (as @ [a]) \<subseteq> T"
  shows "\<exists>rs m'. run_accesses pol (as @ [a]) m = Inr (rs, m') \<and> length rs = length as + 1 \<and>
     in_frame (state_of m' (page_path (virtual_address a))) \<and> reachable pol env k n swap_size T m'"
proof -
  obtain rs m' where r: "run_accesses pol (as @ [a]) m = Inr (rs, m')" "length rs = length (as @ [a])"
    "reachable pol env k n swap_size T m'"
    by (rule reachable_run [OF assms])
  then obtain rs1 m1 v where e: "run_accesses pol as m = Inr (rs1, m1)"
    "ExecuteMemInstruction (CSC369_PolicyOnRef pol) (CSC369_PolicyEvict pol) a m1 = Inr (v, m')"
    by (auto simp: run_append)
  have as: "\<forall>b \<in> set as. va_ok (virtual_address b)" "touched as \<subseteq> T" "va_ok (virtual_address a)"
    "page_path (virtual_address a) \<in> T" using assms(3,4) by (auto simp: touched_def)
  have m1: "reachable pol env k n swap_size T m1" by (rule run_reachable [OF assms(1) as(1,2) e(1)])
  have "state_of m1 (page_path (virtual_address a)) \<noteq> Allocated"
    using reachable_settled [OF m1 assms(2)] by (simp add: pages_settled_def)
  from access_effect_step(1) [OF reachable_effect [OF m1 assms(2) as(3,4) e(2)] this]
  have "in_frame (state_of m' (page_path (virtual_address a)))" by (auto elim: page_step_TouchE)
  with r show ?thesis by auto
qed

theorem every_access_served_witness:
  "\<exists>m rs m'. reachable policy_RR sample_env sample_km 1 8 (touched sample_accesses) m \<and>
     run_accesses policy_RR (sample_accesses @ [sample_accesses ! 0]) m = Inr (rs, m') \<and>
     in_frame (state_of m' (page_path 0x1003))"
proof -
  obtain m where m: "reachable policy_RR sample_env sample_km 1 8 (touched sample_accesses) m"
    by (rule sample_reachable)
  have a: "sample_accesses ! 0 \<in> set sample_accesses" "virtual_address (sample_accesses ! 0) = 0x1003"
    by (simp_all add: sample_accesses_def)
  have "\<forall>b \<in> set (sample_accesses @ [sample_accesses ! 0]). va_ok (virtual_address b)"
    "touched (sample_accesses @ [sample_accesses ! 0]) \<subseteq> touched sample_accesses"
    using a(1) sample_va by (auto simp: touched_def)
  from every_access_served [OF m sample_conditions [OF sample_RR] this] m show ?thesis
    unfolding a(2) by blast
qed

end
