(* ===== verification/PagesFit.thy ===== *)
theory PagesFit
  imports History
begin

text \<open>
  Runs whose pages all fit into the frames: no page ever leaves its frame, nothing is written to
  the swap file, and the only misses are the first accesses to the pages, whatever the policy.
\<close>

section \<open>The frames in use\<close>

text \<open>Every frame in use holds one page.\<close>

lemma card_used:
  assumes "mm_ok {} m"
  shows "card (used m) = card {xs. in_frame (state_of m xs)}"
proof -
  let ?R = "{xs. in_frame (state_of m xs)}" and ?f = "\<lambda>xs. the (frame_of m xs)"
  have some: "xs \<in> ?R \<longleftrightarrow> (\<exists>f. frame_of m xs = Some f)" for xs
    by (auto simp: in_frame_state frame_of_def split: option.splits)
  have "inj_on ?f ?R"
  proof (rule inj_onI)
    fix xs ys assume "xs \<in> ?R" "ys \<in> ?R" "?f xs = ?f ys"
    then obtain f where "frame_of m xs = Some f" "frame_of m ys = Some f" using some by fastforce
    then show "xs = ys" by (rule frame_of_inj [OF assms])
  qed
  moreover have "?f ` ?R = used m"
  proof
    show "?f ` ?R \<subseteq> used m"
    proof
      fix i assume "i \<in> ?f ` ?R"
      then obtain xs where "frame_of m xs = Some i" using some by fastforce
      then show "i \<in> used m" using frame_of_used [OF assms] by blast
    qed
    show "used m \<subseteq> ?f ` ?R"
    proof
      fix i assume "i \<in> used m"
      then obtain xs e where "page m xs = Some e" "valid e" "unat (frame_number e) = i"
        using mm_ok_frame [OF assms] by blast
      then have "frame_of m xs = Some i" by (simp add: frame_of_def)
      then show "i \<in> ?f ` ?R" using some [of xs] by force
    qed
  qed
  ultimately show ?thesis using card_image by metis
qed

section \<open>The invariant\<close>

text \<open>Every known page is in a frame and owns no slot, and the misses are the known pages.\<close>

definition known :: "machine \<Rightarrow> nat list set" where
  "known m = {xs. state_of m xs \<noteq> Absent}"

definition nothing_swapped :: "machine \<Rightarrow> bool" where
  "nothing_swapped m \<longleftrightarrow> (\<forall>xs. state_of m xs = Absent \<or> (\<exists>d. state_of m xs = Resident None d)) \<and>
     miss_count (stats m) = of_nat (card (known m))"

lemma known_dom: "known m = dom (page m)"
  by (auto simp: known_def state_of_def pte_state_def split: option.splits if_splits)

lemma nothing_swapped_step:
  assumes r: "reachable pol env k n swap_size T m" and c: "run_conditions pol env k n swap_size T"
    and n: "card T \<le> n" and a: "va_ok (virtual_address a)" "page_path (virtual_address a) \<in> T"
    and e: "ExecuteMemInstruction (CSC369_PolicyOnRef pol) (CSC369_PolicyEvict pol) a m = Inr (v, m')"
    and i: "nothing_swapped m"
  shows "nothing_swapped m'"
proof -
  let ?x = "page_path (virtual_address a)" and ?L = "state_of m" and ?L' = "state_of m'"
  have pol: "pol \<in> set CSC369_POLICIES" using c by (simp add: run_conditions_def)
  note contract = policies_contract [OF pol]
  obtain mem where s: "sim_ok (policy_inv pol) T (bytes_malloced k + create_bytes) m" "mem_rel mem m" "memsize m = n"
    using reachable_ok [OF r c] by blast
  note mm = reachable_mm_ok [OF r c]
  note eff = replacement_policy.execute_effect [OF contract s(1) a e]
  have "hit_count (stats m') + miss_count (stats m') = hit_count (stats m) + miss_count (stats m) + 1"
    using replacement_policy.execute_ok [OF contract s(1) a s(2)] e by auto
  moreover have "frame_of m ?x \<noteq> None \<longleftrightarrow> ?L ?x \<noteq> Absent"
  proof -
    have "frame_of m ?x \<noteq> None \<longleftrightarrow> in_frame (?L ?x)"
      by (auto simp: in_frame_state frame_of_def split: option.splits)
    then show ?thesis using i by (metis in_frame.simps(1,2) nothing_swapped_def)
  qed
  ultimately have miss: "miss_count (stats m') = miss_count (stats m) + (if ?L ?x = Absent then 1 else 0)"
    using eff(4) by (simp split: if_splits)
  have "\<not> (all_used m \<and> \<not> in_frame (?L ?x))"
  proof
    assume au: "all_used m \<and> \<not> in_frame (?L ?x)"
    then have "?x \<notin> known m" using i by (auto simp: nothing_swapped_def known_def)
    then have "known m \<subset> T" using mm(3) a(2) by (auto simp: known_dom)
    then have "card (known m) < card T" using mm(5) by (rule psubset_card_mono [rotated])
    moreover have "known m = {xs. in_frame (?L xs)}"
      using i by (auto simp: nothing_swapped_def known_def)
    ultimately have "card (used m) < n" using card_used [OF mm(1)] n by simp
    then show False using au s(3) by (simp add: all_used_def)
  qed
  then have L': "?L' = ?L(?x := touched_state (is_write a) (?L ?x))"
    using eff(1) by (auto simp: access_effect_def one_evicted_def)
  have x: "?L ?x = Absent \<or> (\<exists>d. ?L ?x = Resident None d)" using i by (simp add: nothing_swapped_def)
  then have "\<exists>d. ?L' ?x = Resident None d" using L' by auto
  then have states: "?L' xs = Absent \<or> (\<exists>d. ?L' xs = Resident None d)" for xs
    using i L' by (cases "xs = ?x") (simp_all add: nothing_swapped_def)
  have "known m' = insert ?x (known m)" using x L' by (auto simp: known_def)
  moreover have "finite (known m)" using mm(3,5) finite_subset by (auto simp: known_dom)
  moreover have "?x \<in> known m \<longleftrightarrow> ?L ?x \<noteq> Absent" by (simp add: known_def)
  ultimately have "miss_count (stats m') = of_nat (card (known m'))"
    using miss i by (simp add: nothing_swapped_def card_insert_if)
  with states show ?thesis by (simp add: nothing_swapped_def)
qed

lemma reachable_nothing_swapped:
  assumes "reachable pol env k n swap_size T m" "run_conditions pol env k n swap_size T" "card T \<le> n"
  shows "nothing_swapped m"
  using assms(1)
proof induction
  case (created m)
  note c = assms(2) [unfolded run_conditions_def]
  obtain m1 where "CSC369_SimulationCreate env k n swap_size (Some pol) = Inr (Some m1)"
    "stats m1 = initial_stats" "dom (page m1) = {}"
    using replacement_policy.create_sim_ok [OF policies_contract [of pol], of env n swap_size k T pol] c by blast
  then show ?case using created by (simp add: nothing_swapped_def state_of_def known_dom initial_stats_def)
next
  case (accessed m a r m')
  show ?case by (rule nothing_swapped_step [OF accessed.hyps(1) assms(2,3) accessed.hyps(2-4) accessed.IH])
qed

section \<open>Properties\<close>

text \<open>
  C16: when the pages of a run fit into the frames, then under every policy each of them misses
  once, at its first access, every page the simulator knows is resident, and no slot of the
  swap file is in use.
\<close>

theorem fitting_pages_miss_once:
  assumes "reachable pol env k n swap_size T m" "run_conditions pol env k n swap_size T" "card T \<le> n"
  shows "miss_count (stats m) = of_nat (card (dom (page m))) \<and>
     (\<forall>xs e. page m xs = Some e \<longrightarrow> valid e) \<and> bm_used (swapmap (mswap m)) = {}"
proof -
  note ns = reachable_nothing_swapped [OF assms, unfolded nothing_swapped_def]
  note mm = reachable_mm_ok(1) [OF assms(1,2)]
  have e: "valid e \<and> swap_offset e = CSC369_INVALID_SWAP" if "page m xs = Some e" for xs e
  proof -
    have "\<exists>d. pte_state e = Resident None d"
      using conjunct1 [OF ns, rule_format, of xs] that
      by (simp add: state_of_def) (auto simp: pte_state_def split: if_splits)
    then show ?thesis by (auto simp: pte_state_def slot_of_def split: if_splits)
  qed
  moreover have "s \<notin> bm_used (swapmap (mswap m))" for s
  proof
    assume s: "s \<in> bm_used (swapmap (mswap m))"
    then obtain xs d where "page m xs = Some d" "swap_offset d = slot_offset s" using mm_ok_slot [OF mm] by blast
    moreover have "swap_wf (mswap m)" using mm_ok_base [OF mm] by (simp add: mm_base_def)
    ultimately show False using e slot_offset_valid [OF slot_lt [OF _ s]] by simp
  qed
  ultimately show ?thesis using conjunct2 [OF ns] by (auto simp: known_dom)
qed

theorem fitting_pages_miss_once_witness:
  "\<exists>m rs m'. run_accesses policy_RR sample_accesses m = Inr (rs, m') \<and> length rs = 4 \<and>
     miss_count (stats m') = of_nat (card (dom (page m'))) \<and> bm_used (swapmap (mswap m')) = {}"
proof -
  have c: "run_conditions policy_RR sample_env sample_km 4 8 (touched sample_accesses)"
    using sample_touched sample_km_room [OF sample_touched] sample_RR
    by (simp add: run_conditions_def env_ok_def sizes_ok_def sample_env_def touched_def)
  obtain m where "CSC369_SimulationCreate sample_env sample_km 4 8 (Some policy_RR) = Inr (Some m)"
    using SimulationCreate_ok [of sample_env 4 8 sample_km "card (touched sample_accesses)" policy_RR] c
    unfolding run_conditions_def by metis
  then have "reachable policy_RR sample_env sample_km 4 8 (touched sample_accesses) m" by (rule reachable.created)
  then obtain rs m' where r: "run_accesses policy_RR sample_accesses m = Inr (rs, m')" "length rs = length sample_accesses"
    "reachable policy_RR sample_env sample_km 4 8 (touched sample_accesses) m'"
    by (rule reachable_run [OF _ c sample_va order_refl]) (rule that)
  moreover have "length sample_accesses = 4" by (simp add: sample_accesses_def)
  ultimately show ?thesis using fitting_pages_miss_once [OF r(3) c sample_touched]
    by (intro exI [of _ m] exI [of _ rs] exI [of _ m']) simp
qed

end
