(* ===== verification/PTDestroy.thy ===== *)
theory PTDestroy
  imports PageTableInv
begin

text \<open>
  The destructors of \<open>csc369_page_table.c\<close>.  \<open>CSC369_PTEDestroy\<close> and
  \<open>CSC369_PageTableDestroy\<close> call each other through the pointers of the heap; nothing in the
  code bounds the recursion, so \<open>pt_destroy\<close> is a partial function over the three kinds of
  work: an entry, a table, and the rest of the loop over the slots of a table.  \<open>pt_own\<close> says
  that the blocks of the allocator in use are exactly those of the tree and one more, the
  \<open>CSC369_MM\<close> struct; under it the destruction of the root terminates, never frees a block
  twice, and leaves no block of the tree in use.
\<close>

section \<open>The code\<close>

datatype pt_task =
    Destroy_Entry ptr
  | Destroy_Table ptr
  | Destroy_Slots ptr nat

text \<open>The last statements of the two functions: freed memory is no longer an object.\<close>

definition drop_pte :: "ptr \<Rightarrow> pt_heap \<Rightarrow> pt_heap res" where
  "drop_pte p h =
     bindR (CSC369_free p (km h)) (\<lambda>k.
     Inr (h\<lparr>km := k, pte_mem := (case p of None \<Rightarrow> pte_mem h | Some a \<Rightarrow> (pte_mem h)(a := None))\<rparr>))"

definition drop_table :: "ptr \<Rightarrow> pt_heap \<Rightarrow> pt_heap res" where
  "drop_table t h = (case t of
      None \<Rightarrow> Inl NullDeref
    | Some a \<Rightarrow> (case pt_mem h a of
        None \<Rightarrow> Inl BadPointer
      | Some pt \<Rightarrow>
          bindR (CSC369_free (Some (ptes_block pt)) (km h)) (\<lambda>k.
          bindR (CSC369_free t k) (\<lambda>k.
          Inr (h\<lparr>km := k, pt_mem := (pt_mem h)(a := None)\<rparr>)))))"

partial_function (option) pt_destroy :: "pt_task \<Rightarrow> pt_heap \<Rightarrow> pt_heap res option" where
  "pt_destroy task h =
     (case task of
        Destroy_Entry p \<Rightarrow>
          (case pte_read p h of
             Inl e \<Rightarrow> Some (Inl e)
           | Inr e \<Rightarrow>
               (case page_table e of
                  None \<Rightarrow> Some (drop_pte p h)
                | Some t \<Rightarrow>
                    Option.bind (pt_destroy (Destroy_Table (Some t)) h) (\<lambda>r. Some (bindR r (drop_pte p)))))
      | Destroy_Table t \<Rightarrow>
          (case t of
             None \<Rightarrow> Some (Inl AssertFail)
           | Some a \<Rightarrow>
               Option.bind (pt_destroy (Destroy_Slots (Some a) 0) h) (\<lambda>r. Some (bindR r (drop_table (Some a)))))
      | Destroy_Slots t i \<Rightarrow>
          if i < 2 ^ 12 then
            (case pt_slot t i h of
               Inl e \<Rightarrow> Some (Inl e)
             | Inr s \<Rightarrow>
                 (case s of
                    None \<Rightarrow> pt_destroy (Destroy_Slots t (Suc i)) h
                  | Some p \<Rightarrow>
                      Option.bind (pt_destroy (Destroy_Entry (Some p)) h) (\<lambda>r.
                        case r of
                          Inl e \<Rightarrow> Some (Inl e)
                        | Inr h \<Rightarrow> pt_destroy (Destroy_Slots t (Suc i)) h)))
          else Some (Inr h))"

definition run_destroy :: "pt_task \<Rightarrow> pt_heap \<Rightarrow> pt_heap res" where
  "run_destroy task h = (case pt_destroy task h of None \<Rightarrow> Inl Diverges | Some r \<Rightarrow> r)"

definition CSC369_PTEDestroy :: "ptr \<Rightarrow> pt_heap \<Rightarrow> pt_heap res" where
  "CSC369_PTEDestroy p = run_destroy (Destroy_Entry p)"

definition CSC369_PageTableDestroy :: "ptr \<Rightarrow> pt_heap \<Rightarrow> pt_heap res" where
  "CSC369_PageTableDestroy t = run_destroy (Destroy_Table t)"

text \<open>The two functions satisfy the equations of the code.\<close>

lemma PTEDestroy_code:
  "CSC369_PTEDestroy p h =
     bindR (pte_read p h) (\<lambda>e.
     bindR (if page_table e \<noteq> None then CSC369_PageTableDestroy (page_table e) h else Inr h) (drop_pte p))"
  unfolding CSC369_PTEDestroy_def CSC369_PageTableDestroy_def run_destroy_def
  by (subst pt_destroy.simps)
    (cases "pte_read p h"; simp split: option.splits bind_splits)

lemma PageTableDestroy_code:
  "CSC369_PageTableDestroy t h =
     bindR (assertR (t \<noteq> None)) (\<lambda>_. bindR (run_destroy (Destroy_Slots t 0) h) (drop_table t))"
  unfolding CSC369_PageTableDestroy_def run_destroy_def
  by (subst pt_destroy.simps) (cases t; simp split: option.splits bind_splits)

lemma DestroySlots_code:
  "run_destroy (Destroy_Slots t i) h =
     (if i < 2 ^ 12 then
        bindR (pt_slot t i h) (\<lambda>s.
        bindR (if s \<noteq> None then CSC369_PTEDestroy s h else Inr h) (run_destroy (Destroy_Slots t (Suc i))))
      else Inr h)"
  unfolding CSC369_PTEDestroy_def run_destroy_def
  by (subst pt_destroy.simps)
    (cases "pt_slot t i h"; simp split: option.splits bind_splits sum.splits)

section \<open>Ownership of the blocks in use\<close>

definition blocks :: "pt_heap \<Rightarrow> addr set" where
  "blocks h = ptes_block ` ran (pt_mem h)"

definition tab_at :: "pt_heap \<Rightarrow> addr \<Rightarrow> nat list \<Rightarrow> ptr" where
  "tab_at h r xs = (if xs = [] then Some r else case pte_at h r xs of None \<Rightarrow> None | Some p \<Rightarrow> subt h p)"

text \<open>
  \<open>mm\<close> is the block of the \<open>CSC369_MM\<close> struct.  Every object has a path: the entries within
  three levels, the tables within two below the root.
\<close>

definition pt_own :: "addr \<Rightarrow> pt_heap \<Rightarrow> addr \<Rightarrow> bool" where
  "pt_own mm h r \<longleftrightarrow> kmalloc_wf (km h) \<and> dom (live (km h)) \<subseteq> handed_out (km h) \<and>
     dom (live (km h)) = {mm} \<union> dom (pte_mem h) \<union> dom (pt_mem h) \<union> blocks h \<and>
     (\<forall>a. live (km h) a \<noteq> Some 0) \<and>
     mm \<notin> dom (pte_mem h) \<union> dom (pt_mem h) \<union> blocks h \<and>
     dom (pte_mem h) \<inter> dom (pt_mem h) = {} \<and> dom (pte_mem h) \<inter> blocks h = {} \<and>
     dom (pt_mem h) \<inter> blocks h = {} \<and>
     (\<forall>t u a b. pt_mem h t = Some a \<and> pt_mem h u = Some b \<and> ptes_block a = ptes_block b \<longrightarrow> t = u) \<and>
     (\<forall>p \<in> dom (pte_mem h). \<exists>xs. length xs \<le> 3 \<and> pte_at h r xs = Some p) \<and>
     (\<forall>t \<in> dom (pt_mem h). \<exists>xs. length xs \<le> 2 \<and> tab_at h r xs = Some t)"

lemma pte_at_tab:
  "pte_at h r (xs @ [i]) = (case tab_at h r xs of None \<Rightarrow> None | Some t \<Rightarrow> tslot h t i)"
  by (auto simp: pte_at_snoc tab_at_def split: option.splits)

lemma tab_at_Nil [simp]: "tab_at h r [] = Some r"
  by (simp add: tab_at_def)

lemma pte_at_prefix: "pte_at h r (xs @ ys) = Some q \<Longrightarrow> xs \<noteq> [] \<Longrightarrow> \<exists>p. pte_at h r xs = Some p"
proof (induction ys arbitrary: q rule: rev_induct)
  case (snoc i ys)
  then have "pte_at h r ((xs @ ys) @ [i]) = Some q" by simp
  then obtain t where "tab_at h r (xs @ ys) = Some t" by (auto simp: pte_at_tab simp del: append_assoc split: option.splits)
  then obtain p where "pte_at h r (xs @ ys) = Some p" using snoc.prems(2) by (auto simp: tab_at_def split: option.splits)
  then show ?case using snoc.IH snoc.prems(2) by blast
qed simp

lemma tab_at_dom: "pt_wf h r \<Longrightarrow> tab_at h r xs = Some t \<Longrightarrow> t \<in> dom (pt_mem h)"
  unfolding tab_at_def pt_wf_def by (auto split: if_splits option.splits)

lemma tab_at_inj:
  assumes wf: "pt_wf h r" and t: "tab_at h r xs = Some t" "tab_at h r ys = Some t"
  shows "xs = ys"
proof -
  have root: "subt h q \<noteq> Some r" for q using wf unfolding pt_wf_def by blast
  have sub: "q = q'" if "subt h q = Some t" "subt h q' = Some t" for q q'
    using wf that unfolding pt_wf_def by blast
  show ?thesis
    using t root sub pte_at_inj [OF wf] by (auto simp: tab_at_def split: if_splits option.splits)
qed

lemma own_depth:
  assumes "pt_wf h r" "pt_own mm h r"
  shows "pte_at h r xs = Some p \<Longrightarrow> length xs \<le> 3" "tab_at h r xs = Some t \<Longrightarrow> length xs \<le> 2"
proof -
  assume x: "pte_at h r xs = Some p"
  then have "p \<in> dom (pte_mem h)" using pte_at_dom [OF assms(1)] by blast
  then obtain ys where "length ys \<le> 3" "pte_at h r ys = Some p" using assms(2) unfolding pt_own_def by blast
  then show "length xs \<le> 3" using pte_at_inj [OF assms(1) x] by blast
next
  assume x: "tab_at h r xs = Some t"
  then have "t \<in> dom (pt_mem h)" using tab_at_dom [OF assms(1)] by blast
  then obtain ys where "length ys \<le> 2" "tab_at h r ys = Some t" using assms(2) unfolding pt_own_def by blast
  then show "length xs \<le> 2" using tab_at_inj [OF assms(1) x] by blast
qed

section \<open>Destruction of a subtree\<close>

text \<open>
  The objects at the paths \<open>D\<close> of the original heap, and the heap in which the entries at \<open>E\<close>
  and the tables at \<open>T\<close> have been destroyed.
\<close>

definition ents :: "pt_heap \<Rightarrow> addr \<Rightarrow> nat list set \<Rightarrow> addr set" where
  "ents h r D = {p. \<exists>xs \<in> D. pte_at h r xs = Some p}"

definition tabs :: "pt_heap \<Rightarrow> addr \<Rightarrow> nat list set \<Rightarrow> addr set" where
  "tabs h r D = {t. \<exists>xs \<in> D. tab_at h r xs = Some t}"

definition blks :: "pt_heap \<Rightarrow> addr \<Rightarrow> nat list set \<Rightarrow> addr set" where
  "blks h r D = {b. \<exists>t \<in> tabs h r D. \<exists>pt. pt_mem h t = Some pt \<and> b = ptes_block pt}"

definition destroyed :: "pt_heap \<Rightarrow> addr \<Rightarrow> nat list set \<Rightarrow> nat list set \<Rightarrow> pt_heap \<Rightarrow> bool" where
  "destroyed h0 r E T h \<longleftrightarrow>
     pte_mem h = pte_mem h0 |` (- ents h0 r E) \<and> pt_mem h = pt_mem h0 |` (- tabs h0 r T) \<and>
     kmalloc_wf (km h) \<and> live (km h) = live (km h0) |` (- (ents h0 r E \<union> tabs h0 r T \<union> blks h0 r T))"

lemma ents_insert: "pte_at h r xs = Some p \<Longrightarrow> ents h r (insert xs D) = insert p (ents h r D)"
  by (auto simp: ents_def)

lemma tabs_insert: "tab_at h r xs = Some t \<Longrightarrow> tabs h r (insert xs D) = insert t (tabs h r D)"
  by (auto simp: tabs_def)

lemma blks_insert:
  "tab_at h r xs = Some t \<Longrightarrow> pt_mem h t = Some pt \<Longrightarrow>
   blks h r (insert xs D) = insert (ptes_block pt) (blks h r D)"
  by (auto simp: blks_def tabs_def)

lemma own_live:
  assumes "pt_own mm h r"
  shows "pte_mem h p = Some e \<Longrightarrow> \<exists>s. live (km h) p = Some s \<and> s \<noteq> 0"
    "pt_mem h t = Some pt \<Longrightarrow> \<exists>s. live (km h) t = Some s \<and> s \<noteq> 0"
    "pt_mem h t = Some pt \<Longrightarrow> \<exists>s. live (km h) (ptes_block pt) = Some s \<and> s \<noteq> 0"
proof -
  have d: "a \<in> dom (pte_mem h) \<union> dom (pt_mem h) \<union> blocks h \<Longrightarrow> \<exists>s. live (km h) a = Some s \<and> s \<noteq> 0" for a
  proof -
    assume "a \<in> dom (pte_mem h) \<union> dom (pt_mem h) \<union> blocks h"
    then have "a \<in> dom (live (km h))" using assms unfolding pt_own_def by blast
    then obtain s where "live (km h) a = Some s" by blast
    moreover from this have "s \<noteq> 0" using assms unfolding pt_own_def by metis
    ultimately show ?thesis by blast
  qed
  show "pte_mem h p = Some e \<Longrightarrow> \<exists>s. live (km h) p = Some s \<and> s \<noteq> 0" by (rule d) blast
  show "pt_mem h t = Some pt \<Longrightarrow> \<exists>s. live (km h) t = Some s \<and> s \<noteq> 0" by (rule d) blast
  show "pt_mem h t = Some pt \<Longrightarrow> \<exists>s. live (km h) (ptes_block pt) = Some s \<and> s \<noteq> 0"
    by (rule d) (auto simp: blocks_def ran_def)
qed

lemma obj_kinds:
  assumes "pt_wf h r" "pt_own mm h r"
  shows "ents h r D \<subseteq> dom (pte_mem h)" "tabs h r D \<subseteq> dom (pt_mem h)" "blks h r D \<subseteq> blocks h"
    "ents h r D \<inter> dom (pt_mem h) = {}" "ents h r D \<inter> blocks h = {}" "tabs h r D \<inter> dom (pte_mem h) = {}"
    "tabs h r D \<inter> blocks h = {}" "blks h r D \<inter> dom (pte_mem h) = {}" "blks h r D \<inter> dom (pt_mem h) = {}"
proof -
  show e: "ents h r D \<subseteq> dom (pte_mem h)" using pte_at_dom [OF assms(1)] unfolding ents_def by blast
  show t: "tabs h r D \<subseteq> dom (pt_mem h)" using tab_at_dom [OF assms(1)] unfolding tabs_def by blast
  show b: "blks h r D \<subseteq> blocks h" by (auto simp: blks_def blocks_def ran_def)
  have "dom (pte_mem h) \<inter> dom (pt_mem h) = {}" "dom (pte_mem h) \<inter> blocks h = {}" "dom (pt_mem h) \<inter> blocks h = {}"
    using assms(2) unfolding pt_own_def by blast+
  with e t b show "ents h r D \<inter> dom (pt_mem h) = {}" "ents h r D \<inter> blocks h = {}" "tabs h r D \<inter> dom (pte_mem h) = {}"
    "tabs h r D \<inter> blocks h = {}" "blks h r D \<inter> dom (pte_mem h) = {}" "blks h r D \<inter> dom (pt_mem h) = {}"
    by blast+
qed

lemma entry_alive:
  assumes wf: "pt_wf h0 r" "pt_own mm h0 r" and d: "destroyed h0 r E T h"
    and x: "pte_at h0 r xs = Some p" "xs \<notin> E"
  shows "pte_mem h p = pte_mem h0 p" "live (km h) p = live (km h0) p"
proof -
  have "p \<notin> ents h0 r E" using pte_at_inj [OF wf(1) x(1)] x(2) by (auto simp: ents_def)
  moreover have "p \<notin> tabs h0 r T" "p \<notin> blks h0 r T"
    using pte_at_dom [OF wf(1) x(1)] obj_kinds(6,8) [OF wf, of T] by blast+
  ultimately show "pte_mem h p = pte_mem h0 p" "live (km h) p = live (km h0) p"
    using d unfolding destroyed_def by simp_all
qed

lemma table_alive:
  assumes wf: "pt_wf h0 r" "pt_own mm h0 r" and d: "destroyed h0 r E T h"
    and x: "tab_at h0 r xs = Some t" "xs \<notin> T" and pt: "pt_mem h0 t = Some pt"
  shows "pt_mem h t = Some pt" "live (km h) t = live (km h0) t"
    "live (km h) (ptes_block pt) = live (km h0) (ptes_block pt)"
proof -
  have n: "t \<notin> tabs h0 r T" using tab_at_inj [OF wf(1) x(1)] x(2) by (auto simp: tabs_def)
  have nb: "ptes_block pt \<notin> blks h0 r T"
  proof
    assume "ptes_block pt \<in> blks h0 r T"
    then obtain u a where "u \<in> tabs h0 r T" "pt_mem h0 u = Some a" "ptes_block pt = ptes_block a"
      by (auto simp: blks_def)
    moreover from this have "u = t" using wf(2) pt unfolding pt_own_def by metis
    ultimately show False using n by blast
  qed
  have b: "ptes_block pt \<in> blocks h0" using pt by (auto simp: blocks_def ran_def)
  have nt: "t \<notin> ents h0 r E" "t \<notin> blks h0 r T" using pt obj_kinds(4) [OF wf, of E] obj_kinds(9) [OF wf, of T] by blast+
  have ne: "ptes_block pt \<notin> ents h0 r E" "ptes_block pt \<notin> tabs h0 r T"
    using b obj_kinds(5) [OF wf, of E] obj_kinds(7) [OF wf, of T] by blast+
  show "pt_mem h t = Some pt" "live (km h) t = live (km h0) t"
    "live (km h) (ptes_block pt) = live (km h0) (ptes_block pt)"
    using d n pt nb nt ne unfolding destroyed_def by simp_all
qed

lemma drop_pte_ok:
  assumes wf: "pt_wf h0 r" "pt_own mm h0 r" and d: "destroyed h0 r E T h"
    and x: "pte_at h0 r xs = Some p" "xs \<notin> E"
  obtains h' where "drop_pte (Some p) h = Inr h'" "destroyed h0 r (insert xs E) T h'"
proof -
  note a = entry_alive [OF wf d x]
  obtain e where "pte_mem h0 p = Some e" using pte_at_dom [OF wf(1) x(1)] by blast
  then obtain s where s: "live (km h) p = Some s" "s \<noteq> 0" using own_live(1) [OF wf(2)] a(2) by metis
  have "kmalloc_wf (km h)" using d by (simp add: destroyed_def)
  from free_ok [OF this s] obtain k where k: "CSC369_free (Some p) (km h) = Inr k" "kmalloc_wf k"
    "live k = (live (km h))(p := None)" by blast
  let ?h = "h\<lparr>km := k, pte_mem := (pte_mem h)(p := None)\<rparr>"
  have "destroyed h0 r (insert xs E) T ?h"
    using d k unfolding destroyed_def ents_insert [OF x(1)] by (auto simp: restrict_map_def fun_eq_iff)
  then show thesis using that k by (simp add: drop_pte_def)
qed

lemma drop_table_ok:
  assumes wf: "pt_wf h0 r" "pt_own mm h0 r" and d: "destroyed h0 r E T h"
    and x: "tab_at h0 r xs = Some t" "xs \<notin> T"
  obtains h' where "drop_table (Some t) h = Inr h'" "destroyed h0 r E (insert xs T) h'"
proof -
  obtain pt where pt: "pt_mem h0 t = Some pt" using tab_at_dom [OF wf(1) x(1)] by blast
  note a = table_alive [OF wf d x pt]
  obtain s u where s: "live (km h) t = Some s" "s \<noteq> 0" and u: "live (km h) (ptes_block pt) = Some u" "u \<noteq> 0"
    using own_live(2,3) [OF wf(2) pt] a(2,3) by metis
  have "kmalloc_wf (km h)" using d by (simp add: destroyed_def)
  from free_ok [OF this u] obtain k where k: "CSC369_free (Some (ptes_block pt)) (km h) = Inr k" "kmalloc_wf k"
    "live k = (live (km h))(ptes_block pt := None)" by blast
  have "ptes_block pt \<in> blocks h0" "t \<in> dom (pt_mem h0)" using pt by (auto simp: blocks_def ran_def)
  then have "t \<noteq> ptes_block pt" using wf(2) unfolding pt_own_def by blast
  then have "live k t = Some s" using k(3) s(1) by simp
  from free_ok [OF k(2) this s(2)] obtain k' where k': "CSC369_free (Some t) k = Inr k'" "kmalloc_wf k'"
    "live k' = (live k)(t := None)" by blast
  let ?h = "h\<lparr>km := k', pt_mem := (pt_mem h)(t := None)\<rparr>"
  have "destroyed h0 r E (insert xs T) ?h"
    using d k k' unfolding destroyed_def tabs_insert [OF x(1)] blks_insert [OF x(1) pt]
    by (auto simp: restrict_map_def fun_eq_iff)
  then show thesis using that k k' a(1) by (simp add: drop_table_def)
qed

text \<open>The paths below \<open>xs\<close>, and those that start with \<open>xs\<close> and an index from \<open>i\<close> on.\<close>

definition below :: "nat list \<Rightarrow> nat list set" where
  "below xs = range (append xs)"

definition below_from :: "nat list \<Rightarrow> nat \<Rightarrow> nat list set" where
  "below_from xs i = {xs @ j # ys | j ys. i \<le> j}"

lemma below_self [simp]: "xs \<in> below xs"
  by (auto simp: below_def intro: range_eqI [of _ _ "[]"])

lemma below_from_0: "insert xs (below_from xs 0) = below xs"
proof -
  have "xs @ ys \<in> insert xs (below_from xs 0)" for ys by (cases ys) (auto simp: below_from_def)
  then have "below xs \<subseteq> insert xs (below_from xs 0)" by (auto simp: below_def)
  moreover have "below_from xs 0 \<subseteq> below xs" by (auto simp: below_def below_from_def)
  ultimately show ?thesis by (simp add: insert_absorb subset_antisym)
qed

lemma below_from_Suc: "below_from xs i = below (xs @ [i]) \<union> below_from xs (Suc i)"
proof -
  have "xs @ j # ys \<in> below (xs @ [i]) \<union> below_from xs (Suc i)" if "i \<le> j" for j ys
    using that by (cases "j = i") (auto simp: below_def below_from_def)
  moreover have "below (xs @ [i]) \<subseteq> below_from xs i" by (auto simp: below_def below_from_def)
  moreover have "below_from xs (Suc i) \<subseteq> below_from xs i"
    unfolding below_from_def using Suc_leD by blast
  ultimately show ?thesis unfolding below_from_def by blast
qed

text \<open>Paths that lead nowhere do not matter.\<close>

lemma nothing_below:
  assumes "pte_at h r xs = None" "xs \<noteq> []"
  shows "pte_at h r (xs @ ys) = None" "tab_at h r (xs @ ys) = None"
proof -
  show n: "pte_at h r (xs @ ys) = None"
    using pte_at_prefix [of h r xs ys] assms by (cases "pte_at h r (xs @ ys)") auto
  then show "tab_at h r (xs @ ys) = None" using assms(2) by (simp add: tab_at_def)
qed

lemma destroyed_skip:
  assumes "\<And>xs. xs \<in> A \<Longrightarrow> pte_at h0 r xs = None" "\<And>xs. xs \<in> B \<Longrightarrow> tab_at h0 r xs = None"
  shows "destroyed h0 r (E \<union> A) (T \<union> B) h = destroyed h0 r E T h"
proof -
  have e: "ents h0 r (E \<union> A) = ents h0 r E" "tabs h0 r (T \<union> B) = tabs h0 r T"
    using assms by (fastforce simp: ents_def tabs_def)+
  then have "blks h0 r (T \<union> B) = blks h0 r T" by (simp add: blks_def)
  with e show ?thesis by (simp add: destroyed_def)
qed

definition clear_of :: "nat list set \<Rightarrow> nat list set \<Rightarrow> nat list set \<Rightarrow> bool" where
  "clear_of A E T \<longleftrightarrow> A \<inter> E = {} \<and> A \<inter> T = {}"

text \<open>
  What the induction on the height \<open>n\<close> shows of the table at \<open>xs\<close>, and what follows for an
  entry with that table.
\<close>

definition table_goes :: "pt_heap \<Rightarrow> addr \<Rightarrow> nat \<Rightarrow> bool" where
  "table_goes h0 r n \<longleftrightarrow> (\<forall>xs t E T h. length xs + n = 3 \<longrightarrow> tab_at h0 r xs = Some t \<longrightarrow>
     destroyed h0 r E T h \<longrightarrow> xs \<notin> T \<longrightarrow> clear_of (below_from xs 0) E T \<longrightarrow>
     (\<exists>h'. pt_destroy (Destroy_Table (Some t)) h = Some (Inr h') \<and>
        destroyed h0 r (E \<union> below_from xs 0) (T \<union> below xs) h'))"

lemma entry_goes:
  assumes wf: "pt_wf h0 r" "pt_own mm h0 r" and tg: "table_goes h0 r n"
    and x: "length xs + n = 3" "xs \<noteq> []" "pte_at h0 r xs = Some p" and d: "destroyed h0 r E T h"
    and c: "clear_of (below xs) E T"
  shows "\<exists>h'. pt_destroy (Destroy_Entry (Some p)) h = Some (Inr h') \<and>
    destroyed h0 r (E \<union> below xs) (T \<union> below xs) h'"
proof -
  have cl: "xs \<notin> E" "xs \<notin> T" "clear_of (below_from xs 0) E T"
    using c unfolding clear_of_def below_from_0 [symmetric] by blast+
  obtain e where e0: "pte_mem h0 p = Some e" using pte_at_dom [OF wf(1) x(3)] by blast
  then have e: "pte_mem h p = Some e" using entry_alive(1) [OF wf d x(3) cl(1)] by simp
  show ?thesis
  proof (cases "page_table e")
    case None
    obtain h' where h': "drop_pte (Some p) h = Inr h'" "destroyed h0 r (insert xs E) T h'"
      using drop_pte_ok [OF wf d x(3) cl(1)] by blast
    have no: "tab_at h0 r xs = None" using x e0 None by (simp add: tab_at_def subt_def)
    have ne: "pte_at h0 r ys = None" "tab_at h0 r ys = None" if ys: "ys \<in> below_from xs 0" for ys
    proof -
      obtain j zs where "ys = xs @ j # zs" using ys by (auto simp: below_from_def)
      then have y: "ys = (xs @ [j]) @ zs" by simp
      have "pte_at h0 r (xs @ [j]) = None" using no by (simp add: pte_at_tab)
      then show "pte_at h0 r ys = None" "tab_at h0 r ys = None" unfolding y by (rule nothing_below; simp)+
    qed
    have "destroyed h0 r (insert xs E \<union> below_from xs 0) (T \<union> below xs) h'"
      using h'(2) by (subst destroyed_skip) (use ne no in \<open>auto simp: below_from_0 [symmetric]\<close>)
    then have "destroyed h0 r (E \<union> below xs) (T \<union> below xs) h'" by (simp add: below_from_0 [symmetric])
    then show ?thesis using e None h'(1) by (subst pt_destroy.simps) simp
  next
    case (Some t)
    then have "tab_at h0 r xs = Some t" using x e0 by (simp add: tab_at_def subt_def)
    then obtain h1 where h1: "pt_destroy (Destroy_Table (Some t)) h = Some (Inr h1)"
      "destroyed h0 r (E \<union> below_from xs 0) (T \<union> below xs) h1"
      using tg x(1) d cl unfolding table_goes_def by blast
    have "xs \<notin> E \<union> below_from xs 0" using cl(1) by (auto simp: below_from_def)
    then obtain h' where h': "drop_pte (Some p) h1 = Inr h'"
      "destroyed h0 r (insert xs (E \<union> below_from xs 0)) (T \<union> below xs) h'"
      using drop_pte_ok [OF wf h1(2) x(3)] by blast
    then have "destroyed h0 r (E \<union> below xs) (T \<union> below xs) h'" by (simp add: below_from_0 [symmetric])
    then show ?thesis using e Some h1(1) h'(1) by (subst pt_destroy.simps) simp
  qed
qed

text \<open>The loop over the slots from \<open>i\<close> on.\<close>

lemma slots_go:
  assumes wf: "pt_wf h0 r" "pt_own mm h0 r" and tg: "table_goes h0 r n"
    and x: "length xs + n = 2" "tab_at h0 r xs = Some t" "xs \<notin> T"
  shows "destroyed h0 r E T h \<Longrightarrow> clear_of (below_from xs i) E T \<Longrightarrow>
    \<exists>h'. pt_destroy (Destroy_Slots (Some t) i) h = Some (Inr h') \<and>
      destroyed h0 r (E \<union> below_from xs i) (T \<union> below_from xs i) h'"
  using x(3)
proof (induction "4096 - i" arbitrary: i E T h)
  case 0
  then have i: "4096 \<le> i" by simp
  have ne: "pte_at h0 r ys = None" "tab_at h0 r ys = None" if ys: "ys \<in> below_from xs i" for ys
  proof -
    obtain j zs where "ys = xs @ j # zs" "i \<le> j" using ys by (auto simp: below_from_def)
    then have y: "ys = (xs @ [j]) @ zs" by simp
    have "tslot h0 t j = None" using wf(1) i \<open>i \<le> j\<close> unfolding pt_wf_def ptes_count_eq
      by (metis leD le_trans not_None_eq)
    then have "pte_at h0 r (xs @ [j]) = None" using x(2) by (simp add: pte_at_tab)
    then show "pte_at h0 r ys = None" "tab_at h0 r ys = None" unfolding y by (rule nothing_below; simp)+
  qed
  have "destroyed h0 r (E \<union> below_from xs i) (T \<union> below_from xs i) h"
    using 0(2) destroyed_skip [of "below_from xs i" h0 r "below_from xs i" E T h] ne by blast
  then show ?case using i by (subst pt_destroy.simps) simp
next
  case (Suc m)
  then have i: "i < 4096" by simp
  obtain pt where pt: "pt_mem h0 t = Some pt" using tab_at_dom [OF wf(1) x(2)] by blast
  have "pt_mem h t = Some pt" using table_alive(1) [OF wf Suc.prems(1) x(2) Suc.prems(3) pt] .
  then have slot: "pt_slot (Some t) i h = Inr (pte_at h0 r (xs @ [i]))"
    using i x(2) pt by (simp add: pt_slot_def pte_at_tab tslot_def)
  note split = below_from_Suc [of xs i]
  have cl: "clear_of (below (xs @ [i])) E T" "clear_of (below_from xs (Suc i)) E T"
    using Suc.prems(2) unfolding split clear_of_def by blast+
  have IH: "\<exists>h'. pt_destroy (Destroy_Slots (Some t) (Suc i)) h1 = Some (Inr h') \<and>
      destroyed h0 r (E1 \<union> below_from xs (Suc i)) (T1 \<union> below_from xs (Suc i)) h'"
    if "destroyed h0 r E1 T1 h1" "clear_of (below_from xs (Suc i)) E1 T1" "xs \<notin> T1" for E1 T1 h1
    by (rule Suc.hyps(1) [OF _ that]) (use Suc.hyps(2) in simp)
  show ?case
  proof (cases "pte_at h0 r (xs @ [i])")
    case None
    have ne: "pte_at h0 r ys = None" "tab_at h0 r ys = None" if "ys \<in> below (xs @ [i])" for ys
      using that nothing_below [OF None] by (auto simp: below_def)
    have "destroyed h0 r (E \<union> below (xs @ [i])) (T \<union> below (xs @ [i])) h"
      using Suc.prems(1) destroyed_skip [of "below (xs @ [i])" h0 r "below (xs @ [i])" E T h] ne by blast
    moreover have "clear_of (below_from xs (Suc i)) (E \<union> below (xs @ [i])) (T \<union> below (xs @ [i]))"
      "xs \<notin> T \<union> below (xs @ [i])"
      using cl(2) Suc.prems(3) by (auto simp: clear_of_def below_def below_from_def)
    ultimately show ?thesis
      using IH [of "E \<union> below (xs @ [i])" "T \<union> below (xs @ [i])" h] slot None i
      by (subst pt_destroy.simps) (simp add: split Un_assoc)
  next
    case (Some p)
    have "length (xs @ [i]) + n = 3" using x(1) by simp
    from entry_goes [OF wf tg this _ Some Suc.prems(1) cl(1)] obtain h1 where
      h1: "pt_destroy (Destroy_Entry (Some p)) h = Some (Inr h1)"
        "destroyed h0 r (E \<union> below (xs @ [i])) (T \<union> below (xs @ [i])) h1" by auto
    have "clear_of (below_from xs (Suc i)) (E \<union> below (xs @ [i])) (T \<union> below (xs @ [i]))"
      "xs \<notin> T \<union> below (xs @ [i])"
      using cl(2) Suc.prems(3) by (auto simp: clear_of_def below_def below_from_def)
    from IH [OF h1(2) this] show ?thesis
      using slot Some i h1(1) by (subst pt_destroy.simps) (simp add: split Un_assoc)
  qed
qed

lemma all_tables_go:
  assumes wf: "pt_wf h0 r" "pt_own mm h0 r"
  shows "table_goes h0 r n"
proof (induction n)
  case 0
  show ?case unfolding table_goes_def using own_depth(2) [OF wf] by fastforce
next
  case (Suc n)
  show ?case
    unfolding table_goes_def
  proof (intro allI impI)
    fix xs t E T h
    assume l: "length xs + Suc n = 3" and x: "tab_at h0 r xs = Some t" and d: "destroyed h0 r E T h"
      and nt: "xs \<notin> T" and c: "clear_of (below_from xs 0) E T"
    from l have "length xs + n = 2" by simp
    from slots_go [OF wf Suc this x nt d c] obtain h1 where
      h1: "pt_destroy (Destroy_Slots (Some t) 0) h = Some (Inr h1)"
        "destroyed h0 r (E \<union> below_from xs 0) (T \<union> below_from xs 0) h1" by blast
    have "xs \<notin> T \<union> below_from xs 0" using nt by (auto simp: below_from_def)
    from drop_table_ok [OF wf h1(2) x this] obtain h' where
      "drop_table (Some t) h1 = Inr h'" "destroyed h0 r (E \<union> below_from xs 0) (insert xs (T \<union> below_from xs 0)) h'"
      by blast
    moreover have "insert xs (T \<union> below_from xs 0) = T \<union> below xs" by (simp add: below_from_0 [symmetric])
    ultimately show "\<exists>h'. pt_destroy (Destroy_Table (Some t)) h = Some (Inr h') \<and>
        destroyed h0 r (E \<union> below_from xs 0) (T \<union> below xs) h'"
      using h1(1) by (subst pt_destroy.simps) simp
  qed
qed

lemma restrict_UNIV: "m |` UNIV = m"
  by (simp add: restrict_map_def)

text \<open>The destruction of the root ends, and of the blocks in use only \<open>mm\<close> is left.\<close>

lemma PageTableDestroy_spec:
  assumes wf: "pt_wf h r" "pt_own mm h r"
  obtains h' where "CSC369_PageTableDestroy (Some r) h = Inr h'" "pte_mem h' = Map.empty" "pt_mem h' = Map.empty"
    "kmalloc_wf (km h')" "live (km h') = live (km h) |` {mm}"
proof -
  have "destroyed h r {} {} h"
    using wf(2) by (simp add: restrict_UNIV destroyed_def ents_def tabs_def blks_def pt_own_def)
  then obtain h' where h': "pt_destroy (Destroy_Table (Some r)) h = Some (Inr h')"
    "destroyed h r ({} \<union> below_from [] 0) ({} \<union> below []) h'"
    using all_tables_go [OF wf, of 3] unfolding table_goes_def by (fastforce simp: clear_of_def)
  have all: "below [] = UNIV" "below_from [] 0 = UNIV - {[]}"
    by (auto simp: below_def below_from_def neq_Nil_conv)
  have e: "ents h r (UNIV - {[]}) = dom (pte_mem h)"
  proof
    show "ents h r (UNIV - {[]}) \<subseteq> dom (pte_mem h)" by (rule obj_kinds(1) [OF wf])
    show "dom (pte_mem h) \<subseteq> ents h r (UNIV - {[]})"
    proof
      fix p assume "p \<in> dom (pte_mem h)"
      then obtain xs where "pte_at h r xs = Some p" using wf(2) unfolding pt_own_def by blast
      moreover from this have "xs \<noteq> []" by auto
      ultimately show "p \<in> ents h r (UNIV - {[]})" by (auto simp: ents_def)
    qed
  qed
  have t: "tabs h r UNIV = dom (pt_mem h)"
    using obj_kinds(2) [OF wf, of UNIV] wf(2) unfolding tabs_def pt_own_def by blast
  then have b: "blks h r UNIV = blocks h" by (auto simp: blks_def blocks_def ran_def)
  note d = h'(2) [unfolded all, simplified, unfolded destroyed_def e t b]
  have "live (km h') = live (km h) |` {mm}"
  proof
    fix a
    show "live (km h') a = (live (km h) |` {mm}) a"
      using d wf(2) unfolding pt_own_def by (cases "a \<in> dom (live (km h))") (auto simp: restrict_map_def)
  qed
  then show thesis
    using that [of h'] h'(1) d by (simp add: CSC369_PageTableDestroy_def run_destroy_def restrict_map_def fun_eq_iff domIff)
qed

end
