(* ===== verification/PTOwn.thy ===== *)
theory PTOwn
  imports PTDestroy
begin

text \<open>
  The ownership invariant \<open>pt_own\<close> through the life of the page table: creation establishes
  it, \<open>CSC369_PageTableAllocate\<close> and changes of the entries' contents keep it.
\<close>

section \<open>Allocation of blocks\<close>

lemma malloc_own:
  assumes lib: "libc_ok (libc k)" and wf: "kmalloc_wf k" and ho: "dom (live k) \<subseteq> handed_out k"
    and m: "CSC369_malloc s k = (Some a, k')"
  shows "kmalloc_wf k'" "live k' = (live k)(a \<mapsto> s)" "a \<notin> handed_out k" "handed_out k' = insert a (handed_out k)"
    "libc k' = libc k" "a \<notin> dom (live k)"
proof -
  have a: "libc k (libc_calls k) = Some a" "libc k' = libc k" "libc_calls k' = Suc (libc_calls k)"
    using m by (auto simp: CSC369_malloc_def libc_malloc_def split: if_splits option.splits)
  show n: "a \<notin> handed_out k"
    using lib a(1) by (auto simp: handed_out_def libc_ok_def dest: injD) (metis a(1) inj_eq nat_less_le)
  then show "a \<notin> dom (live k)" using ho by blast
  have f: "live k b = None" if "libc k (libc_calls k) = Some b" for b
    using that a(1) n ho by auto
  show "kmalloc_wf k'" "live k' = (live k)(a \<mapsto> s)"
    using malloc_wf [OF wf f, of s] m by simp_all
  show "handed_out k' = insert a (handed_out k)" by (rule handed_out_Suc [OF a])
  show "libc k' = libc k" by (rule a(2))
qed

lemma malloc_some:
  assumes "libc_ok (libc k)" "0 \<le> bytes_malloced k" "bytes_malloced k + uint s \<le> 2 ^ 31" "s < CSC369_KMALLOC_MAX"
  obtains a k' where "CSC369_malloc s k = (Some a, k')" "bytes_malloced k' = bytes_malloced k + uint s"
proof -
  obtain a where "CSC369_malloc s k = (Some a, k\<lparr>num_mallocs := num_mallocs k + 1,
      bytes_malloced := bytes_malloced k + uint s, malloc_map := (malloc_map k)(a \<mapsto> s),
      libc_calls := Suc (libc_calls k)\<rparr>)"
    using malloc_succeeds [OF assms] by blast
  then show thesis by (rule that) simp
qed

lemma tab_at_mono:
  assumes "\<And>xs q. pte_at h r xs = Some q \<Longrightarrow> pte_at h' r xs = Some q"
    and "\<And>p t. subt h p = Some t \<Longrightarrow> subt h' p = Some t"
  shows "tab_at h r xs = Some t \<Longrightarrow> tab_at h' r xs = Some t"
  using assms by (auto simp: tab_at_def split: if_splits option.splits)

lemma pt_ownD:
  assumes "pt_own mm h r"
  shows "kmalloc_wf (km h)" "dom (live (km h)) \<subseteq> handed_out (km h)"
    "dom (live (km h)) = {mm} \<union> dom (pte_mem h) \<union> dom (pt_mem h) \<union> blocks h"
    "mm \<notin> dom (pte_mem h) \<union> dom (pt_mem h) \<union> blocks h"
    "dom (pte_mem h) \<inter> dom (pt_mem h) = {}" "dom (pte_mem h) \<inter> blocks h = {}" "dom (pt_mem h) \<inter> blocks h = {}"
    "\<forall>p \<in> dom (pte_mem h). \<exists>xs. length xs \<le> 3 \<and> pte_at h r xs = Some p"
  using assms unfolding pt_own_def by - (elim conjE, assumption)+

section \<open>One level\<close>

lemma ensure_pte_own:
  assumes wf: "pt_wf h r" and own: "pt_own mm h r"
    and x: "tab_at h r xs = Some t" "length xs \<le> 2" and i: "i < ptes_count"
    and quota: "bytes_malloced (km h) + 32 \<le> 2 ^ 31" and e: "ensure_pte (Some t) i h = Inr h'"
  shows "pt_own mm h' r"
proof (cases "tslot h t i")
  case (Some p)
  have "t \<in> dom (pt_mem h)" by (rule tab_at_dom [OF wf x(1)])
  then have "h' = h" using e Some i by (simp add: ensure_pte_def)
  then show ?thesis using own by simp
next
  case None
  have q: "libc_ok (libc (km h))" "0 \<le> bytes_malloced (km h)" using wf unfolding pt_wf_def by blast+
  note o = own [unfolded pt_own_def]
  obtain pt where pt: "pt_mem h t = Some pt" using tab_at_dom [OF wf x(1)] by blast
  obtain p k where c: "CSC369_malloc sizeof_pte (km h) = (Some p, k)"
    by (rule malloc_some [OF q, of sizeof_pte]) (use quota in \<open>simp_all add: sizeof_pte_def KMALLOC_MAX_eq\<close>)
  have h': "h' = h\<lparr>km := k, pte_mem := (pte_mem h)(p \<mapsto> init_pte),
      pt_mem := (pt_mem h)(t \<mapsto> pt\<lparr>ptes := (ptes pt)(i := Some p)\<rparr>)\<rparr>"
    using e None i pt c by (simp add: ensure_pte_def pt_slot_set_def pt_slot_def tslot_def CSC369_PTECreate_def)
  have kw: "kmalloc_wf (km h)" "dom (live (km h)) \<subseteq> handed_out (km h)" using o by blast+
  note m = malloc_own [OF q(1) kw c]
  have ts: "tslot h' = (\<lambda>u j. if u = t \<and> j = i then Some p else tslot h u j)"
    using pt by (auto simp: tslot_def h' fun_eq_iff)
  have fresh: "p \<notin> dom (pte_mem h)" "p \<notin> dom (pt_mem h)" "p \<notin> blocks h" "p \<noteq> mm"
    using m(6) o by auto
  have su: "subt h' = subt h"
    using fresh by (auto simp: subt_def h' fun_eq_iff init_pte_def split: option.splits)
  have mono: "pte_at h' r ys = Some q" if "pte_at h r ys = Some q" for ys q
    using pte_at_new_slot_mono [OF ts su None that] .
  have tmono: "tab_at h' r ys = Some u" if "tab_at h r ys = Some u" for ys u
    using tab_at_mono [of h r h', OF mono _ that] su by simp
  have bl: "blocks h' = blocks h"
  proof -
    have b: "blocks g = (\<lambda>u. ptes_block (the (pt_mem g u))) ` dom (pt_mem g)" for g
      by (force simp: blocks_def ran_def)
    show ?thesis unfolding b by (rule image_cong) (use pt in \<open>auto simp: h'\<close>)
  qed
  have dm: "dom (pte_mem h') = insert p (dom (pte_mem h))" "dom (pt_mem h') = dom (pt_mem h)"
    using pt by (auto simp: h')
  have kh: "km h' = k" by (simp add: h')
  have pb: "\<exists>a. pt_mem h u = Some a \<and> ptes_block a = ptes_block b" if "pt_mem h' u = Some b" for u b
    using that pt by (auto simp: h' split: if_splits)
  show ?thesis
    unfolding pt_own_def kh dm bl m(2)
  proof (intro conjI)
    show "\<forall>q \<in> insert p (dom (pte_mem h)). \<exists>ys. length ys \<le> 3 \<and> pte_at h' r ys = Some q"
    proof
      fix q assume "q \<in> insert p (dom (pte_mem h))"
      then consider "q = p" | "q \<in> dom (pte_mem h)" by blast
      then show "\<exists>ys. length ys \<le> 3 \<and> pte_at h' r ys = Some q"
      proof cases
        case 1
        have "pte_at h' r (xs @ [i]) = Some p" using tmono [OF x(1)] ts by (simp add: pte_at_tab)
        moreover have "length (xs @ [i]) \<le> 3" using x(2) by simp
        ultimately show ?thesis using 1 by blast
      next
        case 2
        then show ?thesis using o mono by blast
      qed
    qed
    show "\<forall>u \<in> dom (pt_mem h). \<exists>ys. length ys \<le> 2 \<and> tab_at h' r ys = Some u" using o tmono by blast
    show "\<forall>u v a b. pt_mem h' u = Some a \<and> pt_mem h' v = Some b \<and> ptes_block a = ptes_block b \<longrightarrow> u = v"
      using o pb by metis
    show "\<forall>a. ((live (km h))(p \<mapsto> sizeof_pte)) a \<noteq> Some 0" using o by (simp add: sizeof_pte_def)
    show "kmalloc_wf k" by (rule m(1))
    show "dom ((live (km h))(p \<mapsto> sizeof_pte)) \<subseteq> handed_out k" using kw(2) m(4) by auto
    show "dom ((live (km h))(p \<mapsto> sizeof_pte)) = {mm} \<union> insert p (dom (pte_mem h)) \<union> dom (pt_mem h) \<union> blocks h"
      unfolding dom_fun_upd pt_ownD(3) [OF own] by auto
    show "mm \<notin> insert p (dom (pte_mem h)) \<union> dom (pt_mem h) \<union> blocks h"
      using pt_ownD(4) [OF own] fresh by simp
    show "insert p (dom (pte_mem h)) \<inter> dom (pt_mem h) = {}" using pt_ownD(5) [OF own] fresh(2) by simp
    show "insert p (dom (pte_mem h)) \<inter> blocks h = {}" using pt_ownD(6) [OF own] fresh(3) by simp
    show "dom (pt_mem h) \<inter> blocks h = {}" by (rule pt_ownD(7) [OF own])
  qed
qed

lemma ensure_table_own:
  assumes wf: "pt_wf h r" and own: "pt_own mm h r"
    and x: "pte_at h r xs = Some q" "length xs \<le> 2"
    and quota: "bytes_malloced (km h) + 32776 \<le> 2 ^ 31" and e: "ensure_table (Some q) h = Inr h'"
  shows "pt_own mm h' r"
proof -
  obtain d where d: "pte_mem h q = Some d" using pte_at_dom [OF wf x(1)] by blast
  show ?thesis
  proof (cases "page_table d")
    case (Some t)
    then have "h' = h" using e d by (simp add: ensure_table_def)
    then show ?thesis using own by simp
  next
    case None
    have q': "libc_ok (libc (km h))" "0 \<le> bytes_malloced (km h)" using wf unfolding pt_wf_def by blast+
    note o = own [unfolded pt_own_def]
    have kw: "kmalloc_wf (km h)" "dom (live (km h)) \<subseteq> handed_out (km h)" using o by blast+
    obtain t k where c: "CSC369_malloc sizeof_page_table (km h) = (Some t, k)"
      and kb: "bytes_malloced k = bytes_malloced (km h) + 8"
      by (rule malloc_some [OF q', of sizeof_page_table])
        (use quota in \<open>simp_all add: sizeof_page_table_def KMALLOC_MAX_eq\<close>)
    note m = malloc_own [OF q'(1) kw c]
    have k0: "libc_ok (libc k)" "dom (live k) \<subseteq> handed_out k" "0 \<le> bytes_malloced k" using m q' kw kb by auto
    obtain a k' where c': "CSC369_malloc (8 * of_nat ptes_count) k = (Some a, k')"
      by (rule malloc_some [OF k0(1,3), of "8 * of_nat ptes_count"])
        (use quota kb in \<open>simp_all add: KMALLOC_MAX_eq\<close>)
    note m' = malloc_own [OF k0(1) m(1) k0(2) c']
    have h': "h' = h\<lparr>km := k', pt_mem := (pt_mem h)(t \<mapsto> \<lparr>ptes_block = a, ptes = (\<lambda>i. None)\<rparr>),
        pte_mem := (pte_mem h)(q \<mapsto> d\<lparr>page_table := Some t\<rparr>)\<rparr>"
      using e None d c c' by (simp add: ensure_table_def CSC369_PageTableCreate_def del: ptes_count_eq)
    have fresh: "t \<notin> dom (pte_mem h)" "t \<notin> dom (pt_mem h)" "t \<notin> blocks h" "t \<noteq> mm"
      "a \<notin> dom (pte_mem h)" "a \<notin> dom (pt_mem h)" "a \<notin> blocks h" "a \<noteq> mm" "a \<noteq> t"
      using m(6) m'(6) o unfolding m(2) by auto
    have ts: "tslot h' = tslot h"
      using fresh by (auto simp: tslot_def h' fun_eq_iff split: option.splits)
    have su: "subt h' = (subt h)(q \<mapsto> t)" by (auto simp: subt_def h' fun_eq_iff)
    have nos: "\<forall>i. tslot h t i = None" using fresh by (auto simp: tslot_def split: option.splits)
    have noq: "subt h q = None" using d None by (simp add: subt_def)
    note at = pte_at_new_table [OF su ts nos noq]
    have tmono: "tab_at h' r ys = Some u" if "tab_at h r ys = Some u" for ys u
      by (rule tab_at_mono [OF _ _ that]) (use at su noq in auto)
    have xs: "xs \<noteq> []" using x(1) by auto
    have new: "tab_at h' r xs = Some t" using x(1) xs by (simp add: tab_at_def at su)
    have dm: "dom (pte_mem h') = dom (pte_mem h)" "dom (pt_mem h') = insert t (dom (pt_mem h))"
      using d by (auto simp: h')
    have bl: "blocks h' = insert a (blocks h)"
      using fresh(2) by (simp add: blocks_def h' ran_map_upd domIff)
    have kh: "km h' = k'" by (simp add: h')
    have ib: "ptes_block b \<in> blocks h" if "pt_mem h u = Some b" for u b
      using that by (auto simp: blocks_def ran_def)
    show ?thesis
      unfolding pt_own_def kh dm bl m'(2) m(2) at
    proof (intro conjI)
      show "\<forall>u \<in> insert t (dom (pt_mem h)). \<exists>ys. length ys \<le> 2 \<and> tab_at h' r ys = Some u"
        using o tmono new x(2) by blast
      show "\<forall>u v b c. pt_mem h' u = Some b \<and> pt_mem h' v = Some c \<and> ptes_block b = ptes_block c \<longrightarrow> u = v"
      proof (intro allI impI, elim conjE)
        fix u v b c
        assume uv: "pt_mem h' u = Some b" "pt_mem h' v = Some c" "ptes_block b = ptes_block c"
        have inj: "u = v" if "pt_mem h u = Some b" "pt_mem h v = Some c" using that uv(3) o by metis
        show "u = v"
        proof (cases "u = t \<or> v = t")
          case True
          then show ?thesis using uv ib fresh(7) by (cases "u = t"; cases "v = t") (auto simp: h')
        next
          case False
          then show ?thesis using uv(1,2) inj by (simp add: h')
        qed
      qed
      show "\<forall>b. ((live (km h))(t \<mapsto> sizeof_page_table, a \<mapsto> 8 * of_nat ptes_count)) b \<noteq> Some 0"
        using o by (simp add: sizeof_page_table_def)
      show "kmalloc_wf k'" by (rule m'(1))
      show "dom ((live (km h))(t \<mapsto> sizeof_page_table, a \<mapsto> 8 * of_nat ptes_count)) \<subseteq> handed_out k'"
        using kw(2) m(4) m'(4) by auto
      show "dom ((live (km h))(t \<mapsto> sizeof_page_table, a \<mapsto> 8 * of_nat ptes_count)) =
          {mm} \<union> dom (pte_mem h) \<union> insert t (dom (pt_mem h)) \<union> insert a (blocks h)"
        unfolding dom_fun_upd pt_ownD(3) [OF own] by auto
      show "mm \<notin> dom (pte_mem h) \<union> insert t (dom (pt_mem h)) \<union> insert a (blocks h)"
        using pt_ownD(4) [OF own] fresh by simp
      show "dom (pte_mem h) \<inter> insert t (dom (pt_mem h)) = {}" using pt_ownD(5) [OF own] fresh(1) by simp
      show "dom (pte_mem h) \<inter> insert a (blocks h) = {}" using pt_ownD(6) [OF own] fresh(5) by simp
      show "insert t (dom (pt_mem h)) \<inter> insert a (blocks h) = {}"
        using pt_ownD(7) [OF own] fresh(3,6,9) by auto
      show "\<forall>p \<in> dom (pte_mem h). \<exists>xs. length xs \<le> 3 \<and> pte_at h r xs = Some p"
        by (rule pt_ownD(8) [OF own])
    qed
  qed
qed

section \<open>Allocation of an entry\<close>

lemma pte_level:
  assumes wf: "pt_wf h r" and own: "pt_own mm h r" and x: "tab_at h r xs = Some t" "length xs \<le> 2"
    and i: "i < ptes_count" and quota: "bytes_malloced (km h) + 32 \<le> 2 ^ 31"
  obtains h' p where "ensure_pte (Some t) i h = Inr h'" "pt_slot (Some t) i h' = Inr (Some p)"
    "pte_at h' r (xs @ [i]) = Some p" "pt_wf h' r" "pt_own mm h' r"
    "bytes_malloced (km h') \<le> bytes_malloced (km h) + 32"
proof -
  have t: "t \<in> dom (pt_mem h)" by (rule tab_at_dom [OF wf x(1)])
  obtain h' p where e: "ensure_pte (Some t) i h = Inr h'" "tslot h' t i = Some p"
    "pt_ext (if tslot h t i = None then {p} else {}) {} 32 h h' r"
    by (rule ensure_pte_ext [OF wf t i quota])
  have wf': "pt_wf h' r" by (rule pt_ext_wf [OF e(3)])
  have "tab_at h' r xs = Some t"
  proof (cases "xs = []")
    case False
    then obtain q where q: "pte_at h r xs = Some q" "subt h q = Some t"
      using x(1) by (auto simp: tab_at_def split: option.splits)
    have "q \<in> dom (pte_mem h) - {}" using pte_at_dom [OF wf q(1)] by simp
    then have "pte_mem h' q = pte_mem h q" using e(3) unfolding pt_ext_def by blast
    moreover have "pte_at h' r xs = Some q" using e(3) q(1) unfolding pt_ext_def by blast
    ultimately show ?thesis using q(2) False by (simp add: tab_at_def subt_def)
  qed (use x(1) in simp)
  then have "pte_at h' r (xs @ [i]) = Some p" using e(2) by (simp add: pte_at_tab)
  moreover have "t \<in> dom (pt_mem h')" using t e(3) unfolding pt_ext_def by blast
  then have "pt_slot (Some t) i h' = Inr (Some p)" using pt_slot_eq [OF _ i] e(2) by metis
  moreover have "bytes_malloced (km h') \<le> bytes_malloced (km h) + 32" using e(3) unfolding pt_ext_def by blast
  ultimately show thesis using that e(1) wf' ensure_pte_own [OF wf own x i quota e(1)] by blast
qed

lemma table_level:
  assumes wf: "pt_wf h r" and own: "pt_own mm h r" and x: "pte_at h r xs = Some q" "length xs \<le> 2"
    and quota: "bytes_malloced (km h) + 32776 \<le> 2 ^ 31"
  obtains h' e t where "ensure_table (Some q) h = Inr h'" "pte_read (Some q) h' = Inr e" "page_table e = Some t"
    "tab_at h' r xs = Some t" "pt_wf h' r" "pt_own mm h' r"
    "bytes_malloced (km h') \<le> bytes_malloced (km h) + 32776"
proof -
  obtain d where d: "pte_mem h q = Some d" using pte_at_dom [OF wf x(1)] by blast
  obtain h' t e where e: "ensure_table (Some q) h = Inr h'" "pte_mem h' q = Some e" "page_table e = Some t"
    "t \<in> dom (pt_mem h')" "subt h' q = Some t" "pt_ext {} {q} 32776 h h' r"
    by (rule ensure_table_ext [OF wf d quota])
  have "pte_at h' r xs = Some q" using e(6) x(1) unfolding pt_ext_def by blast
  moreover have "xs \<noteq> []" using x(1) by auto
  ultimately have "tab_at h' r xs = Some t" using e(5) by (simp add: tab_at_def)
  moreover have "bytes_malloced (km h') \<le> bytes_malloced (km h) + 32776" using e(6) unfolding pt_ext_def by blast
  moreover have "pt_wf h' r" by (rule pt_ext_wf [OF e(6)])
  ultimately show thesis
    using that e(1-3) ensure_table_own [OF wf own x quota e(1)] by simp
qed

lemma PageTableAllocate_own:
  assumes wf: "pt_wf h r" and own: "pt_own mm h r" and va: "unat va < 2 ^ 48"
    and quota: "bytes_malloced (km h) + pt_alloc_bytes \<le> 2 ^ 31"
    and al: "CSC369_PageTableAllocate (Some r) va h = Inr (p, h')"
  shows "pt_own mm h' r"
proof -
  define i1 i2 i3 where "i1 = unat va div 2 ^ 36" and "i2 = (unat va div 2 ^ 24) mod 2 ^ 12"
    and "i3 = (unat va div 2 ^ 12) mod 2 ^ 12"
  have b: "i1 < ptes_count" "i2 < ptes_count" "i3 < ptes_count"
    using page_path_bounds [OF va] by (simp_all add: page_path_def i1_def i2_def i3_def)
  note q = quota [unfolded pt_alloc_bytes_def]
  obtain h1 p1 where s1: "ensure_pte (Some r) i1 h = Inr h1" "pt_slot (Some r) i1 h1 = Inr (Some p1)"
    "pte_at h1 r ([] @ [i1]) = Some p1" "pt_wf h1 r" "pt_own mm h1 r"
    "bytes_malloced (km h1) \<le> bytes_malloced (km h) + 32"
    by (rule pte_level [OF wf own tab_at_Nil _ b(1)]) (use q in auto)
  obtain h2 e1 t2 where s2: "ensure_table (Some p1) h1 = Inr h2" "pte_read (Some p1) h2 = Inr e1"
    "page_table e1 = Some t2" "tab_at h2 r ([] @ [i1]) = Some t2" "pt_wf h2 r" "pt_own mm h2 r"
    "bytes_malloced (km h2) \<le> bytes_malloced (km h1) + 32776"
    by (rule table_level [OF s1(4,5,3)]) (use q s1(6) in auto)
  obtain h3 p2 where s3: "ensure_pte (Some t2) i2 h2 = Inr h3" "pt_slot (Some t2) i2 h3 = Inr (Some p2)"
    "pte_at h3 r (([] @ [i1]) @ [i2]) = Some p2" "pt_wf h3 r" "pt_own mm h3 r"
    "bytes_malloced (km h3) \<le> bytes_malloced (km h2) + 32"
    by (rule pte_level [OF s2(5,6,4) _ b(2)]) (use q s1(6) s2(7) in auto)
  obtain h4 e2 t3 where s4: "ensure_table (Some p2) h3 = Inr h4" "pte_read (Some p2) h4 = Inr e2"
    "page_table e2 = Some t3" "tab_at h4 r (([] @ [i1]) @ [i2]) = Some t3" "pt_wf h4 r" "pt_own mm h4 r"
    "bytes_malloced (km h4) \<le> bytes_malloced (km h3) + 32776"
    by (rule table_level [OF s3(4,5,3)]) (use q s1(6) s2(7) s3(6) in auto)
  obtain h5 p3 where s5: "ensure_pte (Some t3) i3 h4 = Inr h5" "pt_slot (Some t3) i3 h5 = Inr (Some p3)"
    "pte_at h5 r ((([] @ [i1]) @ [i2]) @ [i3]) = Some p3" "pt_wf h5 r" "pt_own mm h5 r"
    by (rule pte_level [OF s4(5,6,4) _ b(3)]) (use q s1(6) s2(7) s3(6) s4(7) in auto)
  have "CSC369_PageTableAllocate (Some r) va h = Inr (Some p3, h5)"
    unfolding CSC369_PageTableAllocate_def Let_def i1_def [symmetric] i2_def [symmetric] i3_def [symmetric]
    by (simp only: s1(1,2) s2(1-3) s3(1,2) s4(1-3) s5(1,2) bindR_simps prod.case assertR_simps
        option.distinct not_False_eq_True)
  then show ?thesis using al s5(5) by simp
qed

section \<open>Changes of the contents of entries\<close>

lemma same_tree_own:
  assumes "same_tree h h'"
  shows "pt_own mm h' r = pt_own mm h r"
proof -
  have e: "km h' = km h" "pt_mem h' = pt_mem h" "dom (pte_mem h') = dom (pte_mem h)" "subt h' = subt h"
    using assms by (simp_all add: same_tree_def)
  have "tab_at h' r xs = tab_at h r xs" for xs
    by (simp only: tab_at_def same_tree_at [OF assms] e)
  then show ?thesis
    unfolding pt_own_def same_tree_at [OF assms] e by (simp add: blocks_def e)
qed

end
