(* ===== verification/Skeleton.thy ===== *)
theory Skeleton
  imports MM PTOwn PolicyRR PolicyRand PolicyClock PolicyS2Q
begin

text \<open>
  What no step of the simulator but \<open>CSC369_PageTableAllocate\<close> changes: the allocator, the
  table objects, which entries exist and which table each of them has, and the two pointers of
  the memory manager.  The lemmas say so of every operation that returns, whatever machine it
  is called in.
\<close>

section \<open>The skeleton of the heap\<close>

definition skel ::
  "machine \<Rightarrow> kmalloc \<times> (addr \<rightharpoonup> csc369_page_table) \<times> addr set \<times> (addr \<Rightarrow> ptr) \<times> ptr \<times> ptr" where
  "skel m = (km (heap m), pt_mem (heap m), dom (pte_mem (heap m)), subt (heap m), mm_root m, mm_struct m)"

lemma skel_simps [simp]:
  "skel (m\<lparr>frames := fs\<rparr>) = skel m" "skel (m\<lparr>frame_count := n\<rparr>) = skel m" "skel (m\<lparr>mswap := sw\<rparr>) = skel m"
  "skel (m\<lparr>physmem := pm\<rparr>) = skel m" "skel (m\<lparr>stats := st\<rparr>) = skel m" "skel (m\<lparr>links := l\<rparr>) = skel m"
  "skel (m\<lparr>clock_list := cl\<rparr>) = skel m" "skel (m\<lparr>clock_hand := ch\<rparr>) = skel m"
  "skel (m\<lparr>rr_next := i\<rparr>) = skel m" "skel (m\<lparr>rnd_calls := c\<rparr>) = skel m"
  by (simp_all add: skel_def)

lemma skel_same_tree: "skel m' = skel m \<Longrightarrow> same_tree (heap m) (heap m')"
  by (simp add: skel_def same_tree_def)

lemma pte_put_skel:
  assumes "pte_put f p (heap m) = Inr h" "\<And>e. page_table (f e) = page_table e"
  shows "skel (m\<lparr>heap := h\<rparr>) = skel m"
proof -
  obtain a e where "p = Some a" "pte_mem (heap m) a = Some e" "h = (heap m)\<lparr>pte_mem := (pte_mem (heap m))(a \<mapsto> f e)\<rparr>"
    using assms(1) by (auto simp: pte_put_def pte_write_def split: option.splits)
  then show ?thesis using same_tree_upd [of "heap m" a e "f e"] assms(2) by (simp add: skel_def same_tree_def)
qed

lemma with_heap_skel:
  "with_heap (CSC369_PTESetValid p b) m = Inr m' \<Longrightarrow> skel m' = skel m"
  "with_heap (CSC369_PTESetDirty p b) m = Inr m' \<Longrightarrow> skel m' = skel m"
  "with_heap (CSC369_PTESetReferenced p b) m = Inr m' \<Longrightarrow> skel m' = skel m"
  "with_heap (CSC369_PTESetOnSwap p b) m = Inr m' \<Longrightarrow> skel m' = skel m"
  "with_heap (CSC369_PTESetFrameNumber p v) m = Inr m' \<Longrightarrow> skel m' = skel m"
  "with_heap (CSC369_PTESetSwapOffset p v) m = Inr m' \<Longrightarrow> skel m' = skel m"
  by (auto simp: with_heap_def pte_setter_defs dest!: pte_put_skel)

lemma with_links_skel: "with_links f m = Inr m' \<Longrightarrow> skel m' = skel m"
  by (auto simp: with_links_def)

named_theorems skel_dest

lemmas [skel_dest] = with_heap_skel with_links_skel

section \<open>The policies\<close>

definition policy_skel :: "(nat \<Rightarrow> machine \<Rightarrow> machine res) \<Rightarrow> (machine \<Rightarrow> (u64 \<times> machine) res) \<Rightarrow> bool" where
  "policy_skel on_ref evict \<longleftrightarrow> (\<forall>f m m'. on_ref f m = Inr m' \<longrightarrow> skel m' = skel m) \<and>
     (\<forall>m v m'. evict m = Inr (v, m') \<longrightarrow> skel m' = skel m)"

lemma rr_skel: "policy_skel CSC369_PolicyRROnRef CSC369_PolicyRREvict"
  by (auto simp: policy_skel_def CSC369_PolicyRROnRef_def CSC369_PolicyRREvict_def Let_def split: if_splits)

lemma rand_skel: "policy_skel CSC369_PolicyRandOnRef CSC369_PolicyRandEvict"
  by (auto simp: policy_skel_def CSC369_PolicyRandOnRef_def CSC369_PolicyRandEvict_def Let_def split: if_splits)

lemma s2q_skel: "policy_skel CSC369_PolicyS2QOnRef CSC369_PolicyS2QEvict"
  by (auto simp: policy_skel_def CSC369_PolicyS2QOnRef_def CSC369_PolicyS2QEvict_def Let_def
      dest!: skel_dest split: if_splits option.splits)

lemma clock_victim_skel [skel_dest]: "clock_victim_found e p m = Inr (v, m') \<Longrightarrow> skel m' = skel m"
  by (auto simp: clock_victim_found_def Let_def dest!: skel_dest)

lemma clock_step_skel:
  assumes "clock_step m = Inr s"
  shows "case s of Inl r \<Rightarrow> skel (snd r) = skel m | Inr m' \<Rightarrow> skel m' = skel m"
proof -
  obtain e f fr r where e: "clock_hand m = Some e" "container_of_frame e = Inr f" "frame_read f m = Inr fr"
    "CSC369_PTEIsReferenced (pte fr) (heap m) = Inr r"
    using assms by (auto simp: clock_step_def split: option.splits)
  show ?thesis
  proof (cases r)
    case False
    then obtain v m' where "clock_victim_found e (pte fr) m = Inr (v, m')" "s = Inl (v, m')"
      using assms e by (auto simp: clock_step_def)
    then show ?thesis using clock_victim_skel by simp
  next
    case True
    then obtain m1 where "with_heap (CSC369_PTESetReferenced (pte fr) False) m = Inr m1"
      "s = Inr (m1\<lparr>clock_hand := nxt (links m1 e)\<rparr>)"
      using assms e by (auto simp: clock_step_def)
    then show ?thesis using with_heap_skel(3) by simp
  qed
qed

lemma clock_loop_skel:
  assumes "clock_loop m = Some r"
  shows "\<forall>v m'. r = Inr (v, m') \<longrightarrow> skel m' = skel m"
proof (rule clock_loop.raw_induct [OF _ assms])
  fix loop m r
  assume IH: "\<And>m r. loop m = Some r \<Longrightarrow> \<forall>v m'. r = Inr (v, m') \<longrightarrow> skel m' = skel m"
    and r: "(case clock_step m of Inl e \<Rightarrow> Some (Inl e)
      | Inr s \<Rightarrow> (case s of Inl res \<Rightarrow> Some (Inr res) | Inr m' \<Rightarrow> loop m')) = Some r"
  show "\<forall>v m'. r = Inr (v, m') \<longrightarrow> skel m' = skel m"
  proof (cases "clock_step m")
    case (Inr s)
    note st = clock_step_skel [OF Inr]
    show ?thesis
    proof (cases s)
      case (Inl res)
      then show ?thesis using r st Inr by (cases res) auto
    next
      case (Inr m1)
      then have "loop m1 = Some r" using r \<open>clock_step m = Inr s\<close> by simp
      from IH [OF this] show ?thesis using st Inr by simp
    qed
  qed (use r in auto)
qed

lemma clock_skel: "policy_skel CSC369_PolicyClockOnRef CSC369_PolicyClockEvict"
proof -
  have "skel m' = skel m" if "CSC369_PolicyClockOnRef f m = Inr m'" for f m m'
    using that by (auto simp: CSC369_PolicyClockOnRef_def Let_def dest!: skel_dest split: if_splits option.splits)
  moreover have "skel m' = skel m" if "CSC369_PolicyClockEvict m = Inr (v, m')" for m v m'
    using that clock_loop_skel
    by (fastforce simp: CSC369_PolicyClockEvict_def split: option.splits)
  ultimately show ?thesis by (simp add: policy_skel_def)
qed

section \<open>The memory manager\<close>

lemma HandleEviction_skel [skel_dest]: "CSC369_MMHandleEviction v m = Inr m' \<Longrightarrow> skel m' = skel m"
  by (auto simp: CSC369_MMHandleEviction_def Let_def dest!: skel_dest split: if_splits)

lemma choose_frame_skel:
  assumes "policy_skel on_ref evict" "choose_frame evict m = Inr (v, m')"
  shows "skel m' = skel m"
  using assms
  by (auto simp: choose_frame_def policy_skel_def dest!: skel_dest split: option.splits)

lemma AllocateFrame_skel:
  assumes "policy_skel on_ref evict" "CSC369_CoremapAllocateFrame evict p m = Inr (v, m')"
  shows "skel m' = skel m"
  using assms by (auto simp: CSC369_CoremapAllocateFrame_def dest!: choose_frame_skel)

lemma fill_frame_skel [skel_dest]: "fill_frame p v m = Inr m' \<Longrightarrow> skel m' = skel m"
  by (auto simp: fill_frame_def CSC369_CoremapClearFrame_def Let_def dest!: skel_dest split: if_splits)

text \<open>A translation changes the skeleton by the allocation of the entry only.\<close>

lemma MMGetFrameNumber_skel:
  assumes "policy_skel on_ref evict" "CSC369_MMGetFrameNumber evict a m = Inr (v, m')"
  shows "\<exists>p h. CSC369_PageTableAllocate (mm_root m) (virtual_address a) (heap m) = Inr (p, h) \<and>
    skel m' = skel (m\<lparr>heap := h\<rparr>)"
  using assms
  by (fastforce simp: CSC369_MMGetFrameNumber_def Let_def dest!: skel_dest AllocateFrame_skel [OF assms(1)]
      split: if_splits)

end
