(* ===== verification/Teardown.thy ===== *)
theory Teardown
  imports Reach Skeleton
begin

text \<open>
  The end of the simulation: the destructors of every component, the whole of \<open>main\<close>, and the
  proof that the program frees every block it obtained from \<open>CSC369_malloc\<close>.  A freed array of
  the C library is empty: every later access to it would be a fault.
\<close>

section \<open>The destructors\<close>

definition CSC369_BitmapDestroy :: "csc369_bitmap \<Rightarrow> csc369_bitmap" where
  "CSC369_BitmapDestroy bitmap = bitmap\<lparr>bm_words := []\<rparr>"

text \<open>The swap file is closed and unlinked in any case; a signal handler does not free memory.\<close>

definition CSC369_SwapDestroy :: "bool \<Rightarrow> csc369_swap \<Rightarrow> csc369_swap" where
  "CSC369_SwapDestroy free_memory swap =
     (let swap = swap\<lparr>swapfile := []\<rparr>
      in if free_memory then swap\<lparr>swapmap := CSC369_BitmapDestroy (swapmap swap)\<rparr> else swap)"

definition CSC369_CoremapDestroy :: "machine \<Rightarrow> machine" where
  "CSC369_CoremapDestroy m = m\<lparr>frames := []\<rparr>"

definition CSC369_MMDestroy :: "machine \<Rightarrow> machine res" where
  "CSC369_MMDestroy m =
     bindR (assertR (mm_struct m \<noteq> None)) (\<lambda>_.
     bindR (CSC369_PageTableDestroy (mm_root m) (heap m)) (\<lambda>h.
     bindR (CSC369_free (mm_struct m) (km h)) (\<lambda>k.
     Inr (m\<lparr>heap := h\<lparr>km := k\<rparr>\<rparr>))))"

text \<open>
  These functions are the values that the destructors leave; the blocks and files that they
  release are in theory \<open>CreateFailure\<close>.
\<close>

definition CSC369_TraceDestroy :: "csc369_trace \<Rightarrow> csc369_trace" where
  "CSC369_TraceDestroy tr = tr\<lparr>unread := []\<rparr>"

text \<open>\<open>simulation->physmem\<close> and the others are not NULL: the simulation was created.\<close>

definition CSC369_SimulationDestroy :: "CSC369_Policy \<Rightarrow> machine \<Rightarrow> machine res" where
  "CSC369_SimulationDestroy policy m =
     (let m = m\<lparr>physmem := []\<rparr>;
          m = CSC369_CoremapDestroy m;
          m = m\<lparr>mswap := CSC369_SwapDestroy True (mswap m)\<rparr>
      in bindR (CSC369_MMDestroy m) (\<lambda>m. Inr (CSC369_PolicyCleanup policy m)))"

definition CSC369_SimulationDestroySwap :: "machine \<Rightarrow> machine" where
  "CSC369_SimulationDestroySwap m = m\<lparr>mswap := CSC369_SwapDestroy False (mswap m)\<rparr>"

text \<open>
  The handler of fatal signals cleans up the swap file of the global \<open>simulation\<close>, which is NULL
  until the creation has returned.
\<close>

datatype signal = SIGSEGV | SIGABRT | SIGTRAP | SIGILL | SIGFPE | Other_signal nat

text \<open>The numbers of the signals are those of Linux.\<close>

definition signum :: "signal \<Rightarrow> nat" where
  "signum s = (case s of SIGILL \<Rightarrow> 4 | SIGTRAP \<Rightarrow> 5 | SIGABRT \<Rightarrow> 6 | SIGFPE \<Rightarrow> 8 | SIGSEGV \<Rightarrow> 11 | Other_signal n \<Rightarrow> n)"

text \<open>The result is the machine with the swap file removed and the status of the exit.\<close>

definition HandleFatalSignal :: "signal \<Rightarrow> machine option \<Rightarrow> (machine \<times> nat) res" where
  "HandleFatalSignal s simulation =
     (case simulation of
        None \<Rightarrow> Inl NullDeref
      | Some m \<Rightarrow> Inr (CSC369_SimulationDestroySwap m, signum s))"

text \<open>What a process does on its signals, and the calls of \<open>sigaction\<close> that change it.\<close>

datatype disposition = Default_Action | Fatal_Handler

definition InstallFatalHandlers :: "(signal \<Rightarrow> disposition) \<Rightarrow> (signal \<Rightarrow> disposition)" where
  "InstallFatalHandlers acts =
     (let acts = acts(SIGSEGV := Fatal_Handler);
          acts = acts(SIGABRT := Fatal_Handler);
          acts = acts(SIGTRAP := Fatal_Handler);
          acts = acts(SIGILL := Fatal_Handler)
      in acts(SIGFPE := Fatal_Handler))"

lemma InstallFatalHandlers_fatal:
  "InstallFatalHandlers acts s = (if s \<in> {SIGSEGV, SIGABRT, SIGTRAP, SIGILL, SIGFPE} then Fatal_Handler else acts s)"
  by (simp add: InstallFatalHandlers_def)

text \<open>The swap file is gone after the signal, and the rest of the machine is as it was.\<close>

lemma HandleFatalSignal_running:
  "HandleFatalSignal s (Some m) = Inr (m\<lparr>mswap := (mswap m)\<lparr>swapfile := []\<rparr>\<rparr>, signum s)"
  by (simp add: HandleFatalSignal_def CSC369_SimulationDestroySwap_def CSC369_SwapDestroy_def)

section \<open>The main program\<close>

text \<open>
  What \<open>main\<close> reports: the messages of the run, the statistics, the bytes used, and, when
  blocks were leaked, their bytes and their number.
\<close>

record main_report =
  messages :: "byte option list"
  final_stats :: CSC369_MMStats
  bytes_used :: int
  leak :: "(int \<times> int) option"

definition finish_simulation ::
  "int \<Rightarrow> int \<Rightarrow> CSC369_Policy \<Rightarrow> byte option list \<Rightarrow> machine \<Rightarrow> main_report res" where
  "finish_simulation start_mallocs start_bytes pol rs m =
     bindR (CSC369_MallocCurrentBytes (km (heap m))) (\<lambda>b.
     bindR (CSC369_SimulationDestroy pol m) (\<lambda>m'.
     bindR (CSC369_MallocIsLeakFree start_mallocs start_bytes (km (heap m'))) (\<lambda>ok.
     bindR (CSC369_MallocCurrentBytes (km (heap m'))) (\<lambda>bytes_leaked.
     bindR (CSC369_MallocCurrentCount (km (heap m'))) (\<lambda>unfreed_mallocs.
     Inr \<lparr>messages = rs, final_stats = stats m, bytes_used = b - start_bytes,
          leak = (if ok then None else Some (bytes_leaked, unfreed_mallocs))\<rparr>)))))"

definition main_program ::
  "csc369_env \<Rightarrow> (nat \<Rightarrow> ptr) \<Rightarrow> (char \<times> string) list \<Rightarrow> string \<Rightarrow> main_report option res" where
  "main_program env lib opts trace_contents =
     (let k = CSC369_MallocInit lib in
     bindR (CSC369_MallocCurrentCount k) (\<lambda>start_mallocs.
     bindR (CSC369_MallocCurrentBytes k) (\<lambda>start_bytes.
     bindR (CreateSimulationFromArgs env k opts) (\<lambda>sim.
     case sim of
       None \<Rightarrow> Inr None
     | Some (None, m) \<Rightarrow> Inl NullDeref
     | Some (Some pol, m) \<Rightarrow>
         (case CSC369_TraceCreate True True trace_contents of
            None \<Rightarrow> Inr None
          | Some tr \<Rightarrow>
              bindR (CSC369_SimulationRun pol tr m) (\<lambda>(rs, m).
              bindR (finish_simulation start_mallocs start_bytes pol rs m) (\<lambda>r. Inr (Some r))))))))"

section \<open>Ownership through a run\<close>

definition own_ok :: "machine \<Rightarrow> bool" where
  "own_ok m \<longleftrightarrow> (\<exists>mm r. mm_struct m = Some mm \<and> mm_root m = Some r \<and> pt_own mm (heap m) r)"

lemma own_ok_skel: "skel m' = skel m \<Longrightarrow> own_ok m' = own_ok m"
  using same_tree_own [OF skel_same_tree [of m' m]] by (simp add: own_ok_def skel_def)

text \<open>The allocator has no block in use yet.\<close>

definition km_fresh :: "kmalloc \<Rightarrow> bool" where
  "km_fresh k \<longleftrightarrow> kmalloc_wf k \<and> live k = Map.empty"

lemma MallocInit_fresh: "km_fresh (CSC369_MallocInit lib)"
proof -
  have "live (CSC369_MallocInit lib) = Map.empty" by (auto simp: live_def CSC369_MallocInit_def)
  then show ?thesis by (simp add: km_fresh_def kmalloc_wf_def CSC369_MallocInit_def)
qed

lemma MMCreate_own:
  assumes k: "libc_ok (libc k)" "km_fresh k"
    and c: "CSC369_MMCreate \<lparr>km = k, pte_mem = Map.empty, pt_mem = Map.empty\<rparr> = (Some mm, Some r, h)"
  shows "pt_own mm h r"
proof -
  obtain k1 where m1: "CSC369_malloc sizeof_mm k = (Some mm, k1)"
    using c by (auto simp: CSC369_MMCreate_def split: prod.splits option.splits)
  obtain k2 where m2: "CSC369_malloc sizeof_page_table k1 = (Some r, k2)"
    using c m1 by (auto simp: CSC369_MMCreate_def CSC369_PageTableCreate_def split: prod.splits option.splits)
  obtain a k3 where m3: "CSC369_malloc (8 * of_nat ptes_count) k2 = (Some a, k3)"
    and h: "h = \<lparr>km = k3, pte_mem = Map.empty, pt_mem = [r \<mapsto> \<lparr>ptes_block = a, ptes = (\<lambda>i. None)\<rparr>]\<rparr>"
    using c m1 m2 by (auto simp: CSC369_MMCreate_def CSC369_PageTableCreate_def split: prod.splits option.splits)
  have k0: "kmalloc_wf k" "live k = Map.empty" using k(2) by (simp_all add: km_fresh_def)
  have "dom (live k) \<subseteq> handed_out k" by (simp add: k0)
  note o1 = malloc_own [OF k(1) k0(1) this m1]
  have l1: "libc_ok (libc k1)" "dom (live k1) \<subseteq> handed_out k1" using o1 k(1) k0 by simp_all
  note o2 = malloc_own [OF l1(1) o1(1) l1(2) m2]
  have l2: "libc_ok (libc k2)" "dom (live k2) \<subseteq> handed_out k2" using o2 l1 o1 k0 by auto
  note o3 = malloc_own [OF l2(1) o2(1) l2(2) m3]
  have ne: "r \<noteq> mm" "a \<noteq> r" "a \<noteq> mm" using o2(6) o3(6) by (simp_all add: o1(2) o2(2))
  have bl: "blocks h = {a}" by (simp add: blocks_def h ran_def)
  have sl: "tslot h t i = None" for t i by (simp add: tslot_def h)
  show ?thesis
    unfolding pt_own_def bl
  proof (intro conjI)
    show "kmalloc_wf (km h)" using o3(1) by (simp add: h)
    show "dom (live (km h)) \<subseteq> handed_out (km h)" using o3(2,4) l2(2) by (auto simp: h)
    show "dom (live (km h)) = {mm} \<union> dom (pte_mem h) \<union> dom (pt_mem h) \<union> {a}"
      by (auto simp: h o3(2) o2(2) o1(2) k0)
    show "\<forall>b. live (km h) b \<noteq> Some 0"
      by (simp add: h o3(2) o2(2) o1(2) k0 sizeof_mm_def sizeof_page_table_def)
    show "\<forall>t \<in> dom (pt_mem h). \<exists>xs. length xs \<le> 2 \<and> tab_at h r xs = Some t"
      by (auto simp: h intro!: exI [of _ "[]"])
  qed (use ne in \<open>auto simp: h\<close>)
qed

lemma policies_skel:
  assumes "pol \<in> set CSC369_POLICIES"
  shows "policy_skel (CSC369_PolicyOnRef pol) (CSC369_PolicyEvict pol)" "skel (CSC369_PolicyInit pol m) = skel m"
    "CSC369_PolicyCleanup pol m = m"
proof -
  have i: "skel (CSC369_PolicyS2QInit m) = skel m" by (simp add: CSC369_PolicyS2QInit_def)
  note defs = CSC369_PolicyRandInit_def CSC369_PolicyRRInit_def CSC369_PolicyClockInit_def
    CSC369_PolicyRandCleanup_def CSC369_PolicyRRCleanup_def CSC369_PolicyClockCleanup_def CSC369_PolicyS2QCleanup_def
  from assms consider "pol = policy_Rand" | "pol = policy_RR" | "pol = policy_Clock" | "pol = policy_S2Q"
    by (auto simp: CSC369_POLICIES_def)
  then have "policy_skel (CSC369_PolicyOnRef pol) (CSC369_PolicyEvict pol) \<and>
      skel (CSC369_PolicyInit pol m) = skel m \<and> CSC369_PolicyCleanup pol m = m"
  proof cases
    case 1
    show ?thesis unfolding 1 using rand_skel by (simp add: policy_Rand_def defs)
  next
    case 2
    show ?thesis unfolding 2 using rr_skel by (simp add: policy_RR_def defs)
  next
    case 3
    show ?thesis unfolding 3 using clock_skel by (simp add: policy_Clock_def defs)
  next
    case 4
    show ?thesis unfolding 4 using s2q_skel i by (simp add: policy_S2Q_def defs)
  qed
  then show "policy_skel (CSC369_PolicyOnRef pol) (CSC369_PolicyEvict pol)"
    "skel (CSC369_PolicyInit pol m) = skel m" "CSC369_PolicyCleanup pol m = m" by blast+
qed

lemma create_own:
  assumes pol: "pol \<in> set CSC369_POLICIES" and k: "libc_ok (libc k)" "km_fresh k"
    and c: "CSC369_SimulationCreate env k n swap_size (Some pol) = Inr (Some m)"
  shows "own_ok m"
proof -
  let ?h0 = "\<lparr>km = k, pte_mem = Map.empty, pt_mem = Map.empty\<rparr>"
  obtain p root h where h0: "CSC369_MMCreate ?h0 = (p, root, h)" by (cases "CSC369_MMCreate ?h0") auto
  have "\<exists>mm m0. p = Some mm \<and> m = CSC369_PolicyInit pol m0 \<and> heap m0 = h \<and> mm_struct m0 = Some mm \<and> mm_root m0 = root"
  proof (cases p)
    case None
    then show ?thesis
      using c h0 by (auto simp: CSC369_SimulationCreate_def Let_def split: if_splits option.splits)
  next
    case (Some mm)
    obtain fs nn where cm: "CSC369_CoremapCreate (calloc_coremap env) (calloc_frames env) n = Some (fs, nn)"
      using c by (cases "CSC369_CoremapCreate (calloc_coremap env) (calloc_frames env) n")
        (auto simp: CSC369_SimulationCreate_def Let_def split: if_splits option.splits)
    from c obtain sw where m: "m = CSC369_PolicyInit pol
        \<lparr>heap = h, mm_struct = Some mm, mm_root = root, frames = fs, frame_count = nn, mswap = sw,
         physmem = replicate (n * CSC369_SIMULATED_FRAME_SIZE) 0, stats = initial_stats, memsize = n,
         links = (\<lambda>e. unlinked), clock_list = None, clock_hand = None,
         rr_next = 0, rnd = random_values env, rnd_calls = 0\<rparr>"
      unfolding CSC369_SimulationCreate_def Let_def option.case h0 Some prod.case cm
      by (auto split: if_splits option.splits prod.splits)
    show ?thesis by (intro exI conjI) (rule Some, rule m, simp_all)
  qed
  then obtain mm m0 where h: "CSC369_MMCreate ?h0 = (Some mm, root, h)"
    and m: "m = CSC369_PolicyInit pol m0" "heap m0 = h" "mm_struct m0 = Some mm" "mm_root m0 = root"
    using h0 by blast
  have "root \<noteq> None" using h by (auto simp: CSC369_MMCreate_def split: prod.splits option.splits)
  then obtain r where "root = Some r" by blast
  then have "own_ok m0" using MMCreate_own [OF k, of mm r h] h m by (simp add: own_ok_def)
  then show ?thesis using own_ok_skel [OF policies_skel(2) [OF pol]] m(1) by simp
qed

lemma execute_own:
  assumes pol: "pol \<in> set CSC369_POLICIES" and s: "sim_ok pinv T B m" and own: "own_ok m"
    and va: "unat (virtual_address a) < 2 ^ 48" "page_path (virtual_address a) \<in> T"
    and e: "ExecuteMemInstruction (CSC369_PolicyOnRef pol) (CSC369_PolicyEvict pol) a m = Inr (v, m')"
  shows "own_ok m'"
proof -
  let ?x = "page_path (virtual_address a)"
  note sk = policies_skel(1) [OF pol]
  obtain f m1 m2 i where g: "CSC369_MMGetFrameNumber (CSC369_PolicyEvict pol) a m = Inr (f, m1)"
    and o: "CSC369_PolicyOnRef pol i m1 = Inr m2" and m': "skel m' = skel m2"
    using e by (fastforce simp: ExecuteMemInstruction_def Let_def split: if_splits)
  have m2: "skel m2 = skel m1" using o sk by (simp add: policy_skel_def)
  obtain p h where al: "CSC369_PageTableAllocate (mm_root m) (virtual_address a) (heap m) = Inr (p, h)"
    and m1: "skel m1 = skel (m\<lparr>heap := h\<rparr>)"
    using MMGetFrameNumber_skel [OF sk g] by blast
  obtain mm r where r: "mm_struct m = Some mm" "mm_root m = Some r" "pt_own mm (heap m) r"
    using own by (auto simp: own_ok_def)
  have "mm_ok {} m" using s by (simp add: sim_ok_def)
  then have wf: "pt_wf (heap m) r" using mm_ok_base r(2) by (fastforce simp: mm_base_def)
  have "pt_own mm h r"
  proof (cases "page m ?x")
    case None
    from sim_quota [OF s va(2) this] show ?thesis
      using PageTableAllocate_own [OF wf r(3) va(1)] al r(2) by simp
  next
    case (Some d)
    then obtain q where "pte_at (heap m) r ?x = Some q"
      using page_SomeD [OF Some] r(2) by (auto simp: page_ptr_def)
    then show ?thesis using PageTableAllocate_hit [OF wf] al r by simp
  qed
  then have "own_ok (m\<lparr>heap := h\<rparr>)" using r by (simp add: own_ok_def)
  then show ?thesis using own_ok_skel m' m2 m1 by metis
qed

lemma reachable_own:
  assumes r: "reachable pol env k n swap_size T m" and c: "run_conditions pol env k n swap_size T"
    and k: "km_fresh k"
  shows "own_ok m"
  using r
proof induction
  case (created m)
  have "libc_ok (libc k)" "pol \<in> set CSC369_POLICIES" using c by (auto simp: run_conditions_def km_room_def)
  then show ?case using create_own k created by blast
next
  case (accessed m a r m')
  have pol: "pol \<in> set CSC369_POLICIES" using c by (simp add: run_conditions_def)
  have "unat (virtual_address a) < 2 ^ 48" using accessed by (simp add: va_ok_def)
  then show ?case
    using execute_own [OF pol conjunct1 [OF reachable_ok [OF accessed.hyps(1) c]]] accessed by blast
qed

section \<open>Destruction\<close>

lemma MMDestroy_ok:
  assumes own: "own_ok m" and ok: "mm_ok {} m"
  obtains m' where "CSC369_MMDestroy m = Inr m'" "km_fresh (km (heap m'))"
    "pte_mem (heap m') = Map.empty" "pt_mem (heap m') = Map.empty"
proof -
  obtain mm r where r: "mm_struct m = Some mm" "mm_root m = Some r" "pt_own mm (heap m) r"
    using own by (auto simp: own_ok_def)
  have wf: "pt_wf (heap m) r" using mm_ok_base [OF ok] r(2) by (auto simp: mm_base_def)
  obtain h where h: "CSC369_PageTableDestroy (Some r) (heap m) = Inr h" "pte_mem h = Map.empty"
    "pt_mem h = Map.empty" "kmalloc_wf (km h)" "live (km h) = live (km (heap m)) |` {mm}"
    by (rule PageTableDestroy_spec [OF wf r(3)])
  have "mm \<in> dom (live (km (heap m)))" using pt_ownD(3) [OF r(3)] by simp
  then obtain s where s: "live (km (heap m)) mm = Some s" by blast
  moreover have "live (km (heap m)) mm \<noteq> Some 0" using r(3) unfolding pt_own_def by blast
  ultimately have "live (km h) mm = Some s" "s \<noteq> 0" using h(5) by auto
  from free_ok [OF h(4) this] obtain k where k: "CSC369_free (Some mm) (km h) = Inr k" "kmalloc_wf k"
    "live k = (live (km h))(mm := None)" by blast
  have "live k = Map.empty" using k(3) h(5) by (auto simp: restrict_map_def fun_eq_iff)
  then show thesis
    using that [of "m\<lparr>heap := h\<lparr>km := k\<rparr>\<rparr>"] h r k by (simp add: CSC369_MMDestroy_def km_fresh_def)
qed

lemma SimulationDestroy_ok:
  assumes "own_ok m" "mm_ok {} m" "pol \<in> set CSC369_POLICIES"
  obtains m' where "CSC369_SimulationDestroy pol m = Inr m'" "km_fresh (km (heap m'))"
    "pte_mem (heap m') = Map.empty" "pt_mem (heap m') = Map.empty"
proof -
  let ?m = "(CSC369_CoremapDestroy (m\<lparr>physmem := []\<rparr>))\<lparr>mswap := CSC369_SwapDestroy True
    (mswap (CSC369_CoremapDestroy (m\<lparr>physmem := []\<rparr>)))\<rparr>"
  have eq: "CSC369_MMDestroy ?m = (case CSC369_MMDestroy m of Inl e \<Rightarrow> Inl e
      | Inr m1 \<Rightarrow> Inr (?m\<lparr>heap := heap m1\<rparr>))"
    by (simp add: CSC369_MMDestroy_def CSC369_CoremapDestroy_def bindR_def split: sum.splits)
  obtain m1 where "CSC369_MMDestroy m = Inr m1" "km_fresh (km (heap m1))"
    "pte_mem (heap m1) = Map.empty" "pt_mem (heap m1) = Map.empty"
    by (rule MMDestroy_ok [OF assms(1,2)])
  then show thesis
    using that [of "?m\<lparr>heap := heap m1\<rparr>"] eq policies_skel(3) [OF assms(3)]
    by (simp add: CSC369_SimulationDestroy_def Let_def)
qed

section \<open>The report at the end\<close>

lemma current_bytes_ok: "kmalloc_wf k \<Longrightarrow> \<exists>b. CSC369_MallocCurrentBytes k = Inr b"
proof -
  assume wf: "kmalloc_wf k"
  have "0 \<le> sint (the (live k a))" if "a \<in> dom (live k)" for a
    using wf sint_size that unfolding kmalloc_wf_def by fastforce
  then have "0 \<le> (\<Sum>a \<in> dom (live k). sint (the (live k a)))" by (rule sum_nonneg)
  then show ?thesis using wf by (simp add: kmalloc_wf_def CSC369_MallocCurrentBytes_def)
qed

lemma km_fresh_report:
  assumes "km_fresh k"
  shows "CSC369_MallocIsLeakFree 0 0 k = Inr True" "CSC369_MallocCurrentBytes k = Inr 0"
    "CSC369_MallocCurrentCount k = Inr 0"
proof -
  have wf: "kmalloc_wf k" and "dom (live k) = {}" using assms by (simp_all add: km_fresh_def)
  then have "bytes_malloced k - bytes_freed k = 0" "num_mallocs k - num_frees k = 0"
    by (simp_all only: kmalloc_wf_def sum.empty card.empty of_nat_0)
  then show "CSC369_MallocIsLeakFree 0 0 k = Inr True" "CSC369_MallocCurrentBytes k = Inr 0"
    "CSC369_MallocCurrentCount k = Inr 0"
    by (simp_all add: CSC369_MallocIsLeakFree_def CSC369_MallocCurrentBytes_def CSC369_MallocCurrentCount_def)
qed

lemma finish_ok:
  assumes own: "own_ok m" and ok: "mm_ok {} m" and pol: "pol \<in> set CSC369_POLICIES"
  shows "\<exists>b. finish_simulation 0 0 pol rs m =
    Inr \<lparr>messages = rs, final_stats = stats m, bytes_used = b, leak = None\<rparr>"
proof -
  have "kmalloc_wf (km (heap m))" using own pt_ownD(1) by (auto simp: own_ok_def)
  then obtain b where "CSC369_MallocCurrentBytes (km (heap m)) = Inr b" using current_bytes_ok by blast
  moreover obtain m' where "CSC369_SimulationDestroy pol m = Inr m'" "km_fresh (km (heap m'))"
    by (rule SimulationDestroy_ok [OF own ok pol])
  ultimately show ?thesis using km_fresh_report [of "km (heap m')"] by (simp add: finish_simulation_def)
qed

end
