(* ===== verification/Placement.thy ===== *)
theory Placement
  imports PageLife
begin

text \<open>
  Where the pages in memory are: every page is in a frame of its own, and the frames in use are
  the first ones.  A hit moves nothing, a fault brings one page into a new frame or into the frame
  of the page that the policy chose; this is all that the algorithms on pages need to know of the
  memory manager.
\<close>

lemma least_unused: "i < n \<Longrightarrow> (LEAST j. j < n \<and> j \<notin> {..<i}) = (i :: nat)"
  by (rule Least_equality) auto

section \<open>Pages in frames\<close>

text \<open>The pages \<open>P\<close> are in memory, every one in a frame of its own; no frame is skipped.\<close>

definition placed :: "nat \<Rightarrow> nat list set \<Rightarrow> machine \<Rightarrow> bool" where
  "placed n P m \<longleftrightarrow> memsize m = n \<and> 0 < n \<and> finite P \<and> card P \<le> n \<and> dom (frame_of m) = P \<and>
     inj_on (frame_of m) P \<and> ran (frame_of m) = used m \<and> used m = {..<card P}"

definition place :: "machine \<Rightarrow> nat list \<Rightarrow> nat" where
  "place m x = the (frame_of m x)"

lemma placed_present: "placed n P m \<Longrightarrow> frame_of m x \<noteq> None \<longleftrightarrow> x \<in> P"
proof -
  assume "placed n P m"
  then have "dom (frame_of m) = P" by (simp add: placed_def)
  then show ?thesis by (simp only: domIff [symmetric])
qed

lemma placed_frame:
  assumes "placed n P m" "x \<in> P"
  shows "frame_of m x = Some (place m x)"
proof -
  have "frame_of m x \<noteq> None" using placed_present [OF assms(1)] assms(2) by blast
  then show ?thesis by (simp add: place_def)
qed

lemma placed_inj: "placed n P m \<Longrightarrow> inj_on (place m) P"
proof (rule inj_onI)
  fix x y assume p: "placed n P m" "x \<in> P" "y \<in> P" "place m x = place m y"
  then have "frame_of m x = frame_of m y" using placed_frame [OF p(1)] by simp
  then show "x = y" using p(1-3) by (auto simp: placed_def dest: inj_onD)
qed

lemma placed_image: "placed n P m \<Longrightarrow> place m ` P = used m"
proof -
  assume p: "placed n P m"
  have "place m ` P = ran (frame_of m)"
  proof
    show "place m ` P \<subseteq> ran (frame_of m)" using placed_frame [OF p] by (auto simp: ran_def)
    show "ran (frame_of m) \<subseteq> place m ` P"
    proof
      fix i assume "i \<in> ran (frame_of m)"
      then obtain x where "frame_of m x = Some i" by (auto simp: ran_def)
      then have "x \<in> P" "place m x = i" using placed_present [OF p, of x] by (auto simp: place_def)
      then show "i \<in> place m ` P" by blast
    qed
  qed
  then show ?thesis using p by (simp add: placed_def)
qed

lemma placed_full: "placed n P m \<Longrightarrow> all_used m \<longleftrightarrow> card P = n"
  by (auto simp: placed_def all_used_def)

lemma place_cong: "frame_of m' = frame_of m \<Longrightarrow> place m' = place m"
  by (simp add: place_def fun_eq_iff)

lemma placed_cong:
  assumes "placed n P m" "frame_of m' = frame_of m" "used m' = used m" "policy_view A m m'"
  shows "placed n P m'"
  using assms unfolding placed_def policy_view_def policy_same_def by simp

lemma placed_empty:
  "frame_of m = Map.empty \<Longrightarrow> used m = {} \<Longrightarrow> memsize m = n \<Longrightarrow> 0 < n \<Longrightarrow> placed n {} m"
  by (simp add: placed_def)

lemma placed_cases:
  assumes "placed n P m"
  obtains (hit) "x \<in> P" | (fill) "x \<notin> P" "card P < n" | (full) "x \<notin> P" "card P = n"
proof -
  have "card P \<le> n" using assms by (simp add: placed_def)
  then show thesis using that by linarith
qed

lemma placed_hit:
  assumes p: "placed n P m" and x: "x \<in> P" and s: "served evict x m v m'"
  shows "unat v = place m x" "policy_view (used m) m m'" "frame_of m' = frame_of m" "used m' = used m" "placed n P m'"
proof -
  have s': "frame_of m x = Some (unat v)" "policy_view (used m) m m'" "frame_of m' = frame_of m"
    "used m' = insert (unat v) (used m)"
    using s placed_present [OF p, of x] x by (simp_all add: served_def)
  then show v: "unat v = place m x" by (simp add: place_def)
  have "place m x \<in> used m" using placed_image [OF p] x by blast
  then show "used m' = used m" using s'(4) v by (simp add: insert_absorb)
  with p show "placed n P m'" using s'(2,3) by (metis placed_cong)
  show "policy_view (used m) m m'" "frame_of m' = frame_of m" by (fact s')+
qed

text \<open>A page enters, into a new frame or into that of the page that leaves.\<close>

lemma placed_enter:
  assumes p: "placed n P m" and x: "x \<notin> P" and f: "frame_of m' = (vacate f (frame_of m))(x \<mapsto> f)"
    and m': "used m' = insert f (used m)" "memsize m' = n"
    and q: "(f = card P \<and> card P < n \<and> Q = insert x P) \<or> (\<exists>y \<in> P. f = place m y \<and> Q = insert x (P - {y}))"
  shows "placed n Q m'" "place m' x = f" "\<And>y. y \<in> Q - {x} \<Longrightarrow> place m' y = place m y"
proof -
  note d = p [unfolded placed_def]
  have fx: "frame_of m' x = Some f" using f by simp
  have keep: "frame_of m' y = Some (place m y) \<and> place m y \<noteq> f \<and> y \<in> P" if "y \<in> Q - {x}" for y
  proof -
    have yP: "y \<in> P" using that q by blast
    have "place m y \<noteq> f"
      using q
    proof
      assume "f = card P \<and> card P < n \<and> Q = insert x P"
      then show ?thesis using placed_image [OF p] yP d by (metis imageI lessThan_iff less_irrefl)
    next
      assume "\<exists>z \<in> P. f = place m z \<and> Q = insert x (P - {z})"
      then show ?thesis using placed_inj [OF p] yP that by (auto dest: inj_onD)
    qed
    then show ?thesis using f that placed_frame [OF p yP] yP by (simp add: vacate_def)
  qed
  have none: "frame_of m' y = None" if "y \<notin> Q" for y
  proof -
    have yx: "y \<noteq> x" using that q by blast
    from q have "y \<notin> P \<or> place m y = f" using that by auto
    then show ?thesis
    proof
      assume "y \<notin> P"
      then show ?thesis using yx placed_present [OF p, of y] f by (simp add: vacate_def)
    next
      assume "place m y = f"
      then show ?thesis using yx placed_present [OF p, of y] placed_frame [OF p, of y] f
        by (cases "y \<in> P") (simp_all add: vacate_def)
    qed
  qed
  show "place m' x = f" using fx by (simp add: place_def)
  show "\<And>y. y \<in> Q - {x} \<Longrightarrow> place m' y = place m y" using keep by (simp add: place_def)
  have xQ: "x \<in> Q" using q by blast
  have "finite Q" using q d by auto
  have cards: "card Q \<le> n \<and> used m' = {..<card Q}"
    using q
  proof
    assume a: "f = card P \<and> card P < n \<and> Q = insert x P"
    then have "card Q = Suc (card P)" using x d by simp
    then show ?thesis using a d m'(1) by auto
  next
    assume "\<exists>y \<in> P. f = place m y \<and> Q = insert x (P - {y})"
    then obtain y where y: "y \<in> P" "f = place m y" "Q = insert x (P - {y})" by blast
    have "x \<notin> P - {y}" using x by blast
    then have "card Q = Suc (card (P - {y}))" using y(3) d by simp
    also have "\<dots> = card P" using y(1) d by (metis card_Suc_Diff1)
    finally have "card Q = card P" .
    moreover have "f \<in> used m" using placed_image [OF p] y by blast
    ultimately show ?thesis using d m'(1) by (simp add: insert_absorb)
  qed
  have ran: "ran (frame_of m') = used m'"
  proof
    show "ran (frame_of m') \<subseteq> used m'"
    proof
      fix i assume "i \<in> ran (frame_of m')"
      then obtain y where y: "frame_of m' y = Some i" by (auto simp: ran_def)
      then have "y \<in> Q" using none [of y] by auto
      then show "i \<in> used m'" using y fx keep [of y] placed_image [OF p] m'(1) by (cases "y = x") auto
    qed
    show "used m' \<subseteq> ran (frame_of m')"
    proof
      fix i assume "i \<in> used m'"
      show "i \<in> ran (frame_of m')"
      proof (cases "i = f")
        case True
        then show ?thesis using fx by (auto simp: ran_def)
      next
        case False
        then have "i \<in> place m ` P" using \<open>i \<in> used m'\<close> m'(1) placed_image [OF p] by blast
        then obtain y where y: "y \<in> P" "place m y = i" by blast
        then have "y \<in> Q - {x}" using q x False by auto
        then show ?thesis using keep [of y] y(2) by (auto simp: ran_def)
      qed
    qed
  qed
  have "inj_on (frame_of m') Q"
  proof (rule inj_onI)
    fix a b assume ab: "a \<in> Q" "b \<in> Q" "frame_of m' a = frame_of m' b"
    then show "a = b" using keep [of a] keep [of b] fx placed_inj [OF p]
      by (cases "a = x"; cases "b = x") (auto dest: inj_onD)
  qed
  moreover have "dom (frame_of m') = Q" using none keep fx xQ by (auto simp: dom_def) (metis Diff_iff option.distinct(1) singletonD)
  ultimately show "placed n Q m'" using \<open>finite Q\<close> cards ran m'(2) d unfolding placed_def by simp
qed

lemma placed_fill:
  assumes p: "placed n P m" and x: "x \<notin> P" "card P < n" and s: "served evict x m v m'"
  shows "policy_view (used m) m m'" "\<not> frame_ref m' (unat v)" "placed n (insert x P) m'" "place m' x = unat v"
    "\<And>y. y \<in> P \<Longrightarrow> place m' y = place m y"
proof -
  note d = p [unfolded placed_def]
  have s': "chosen evict m v m'" "\<not> frame_ref m' (unat v)" "frame_of m' = (vacate (unat v) (frame_of m))(x \<mapsto> unat v)"
    "used m' = insert (unat v) (used m)"
    using s placed_present [OF p, of x] x by (simp_all add: served_def)
  have nf: "\<not> all_used m" using placed_full [OF p] x by simp
  have c: "unat v = (LEAST i. i < memsize m \<and> i \<notin> used m) \<and> policy_view (used m - {unat v}) m m'"
    using s'(1) unfolding chosen_def if_not_P [OF nf] .
  then have v: "unat v = card P" using d least_unused [OF x(2)] by simp
  then have u: "used m - {unat v} = used m" using d by auto
  show view: "policy_view (used m) m m'" using conjunct2 [OF c] unfolding u .
  then have "memsize m' = n" using d by (simp add: policy_view_def policy_same_def)
  note e = placed_enter [OF p x(1) s'(3,4) this, of "insert x P"]
  show "placed n (insert x P) m'" "place m' x = unat v" using e(1,2) v x(2) by blast+
  show "\<And>y. y \<in> P \<Longrightarrow> place m' y = place m y" using e(3) v x by blast
  show "\<not> frame_ref m' (unat v)" by (rule s'(2))
qed

text \<open>A fault with every frame in use: what the policy was asked, and what its answer leads to.\<close>

lemma placed_evict:
  assumes p: "placed n P m" and x: "x \<notin> P" "card P = n" and s: "served evict x m v m'"
  obtains m0 m1 where "frames_ok m0" "used m0 = used m" "policy_view (used m) m m0" "evict m0 = Inr (v, m1)"
    "policy_view (used m - {unat v}) m1 m'" "\<not> frame_ref m' (unat v)"
    "\<And>y. y \<in> P \<Longrightarrow> unat v = place m y \<Longrightarrow> memsize m1 = n \<Longrightarrow> placed n (insert x (P - {y})) m' \<and>
       place m' x = unat v \<and> (\<forall>z \<in> P - {y}. place m' z = place m z)"
proof -
  have s': "chosen evict m v m'" "\<not> frame_ref m' (unat v)" "frame_of m' = (vacate (unat v) (frame_of m))(x \<mapsto> unat v)"
    "used m' = insert (unat v) (used m)"
    using s placed_present [OF p, of x] x by (simp_all add: served_def)
  have au: "all_used m" using placed_full [OF p] x by simp
  obtain m0 m1 where c: "frames_ok m0" "used m0 = used m" "policy_view (used m) m m0" "evict m0 = Inr (v, m1)"
    "policy_view (used m - {unat v}) m1 m'"
    using s'(1) unfolding chosen_def if_P [OF au] by blast
  show thesis
  proof (rule that [OF c s'(2)])
    fix y assume y: "y \<in> P" "unat v = place m y" "memsize m1 = n"
    then have "memsize m' = n" using c(5) by (simp add: policy_view_def policy_same_def)
    note e = placed_enter [OF p x(1) s'(3,4) this, of "insert x (P - {y})"]
    show "placed n (insert x (P - {y})) m' \<and> place m' x = unat v \<and> (\<forall>z \<in> P - {y}. place m' z = place m z)"
      using e y x(1) by blast
  qed
qed

end
