(* ===== verification/Paging.thy ===== *)
theory Paging
  imports History Placement
begin

text \<open>
  The simulator against the textbook algorithms of paging, which work on sequences of pages and
  know neither frames nor tables: under round robin the hits are those of first in, first out;
  with a frame for every page, under any policy, every page misses once.
\<close>

section \<open>One access of a reachable machine\<close>

lemma reachable_access:
  assumes "reachable pol env k n swap_size T m" "run_conditions pol env k n swap_size T"
    "va_ok (virtual_address a)" "page_path (virtual_address a) \<in> T"
    "ExecuteMemInstruction (CSC369_PolicyOnRef pol) (CSC369_PolicyEvict pol) a m = Inr (r, m')"
  shows "page_access (CSC369_PolicyOnRef pol) (CSC369_PolicyEvict pol) (page_path (virtual_address a)) m m'"
    "hit_count (stats m') = hit_count (stats m) + (if frame_of m (page_path (virtual_address a)) \<noteq> None then 1 else 0)"
proof -
  have "pol \<in> set CSC369_POLICIES" using assms(2) by (simp add: run_conditions_def)
  note eff = replacement_policy.execute_effect [OF policies_contract [OF this]
      conjunct1 [OF reachable_ok [OF assms(1,2)]] assms(3-5)]
  show "page_access (CSC369_PolicyOnRef pol) (CSC369_PolicyEvict pol) (page_path (virtual_address a)) m m'"
    by (rule eff(3))
  show "hit_count (stats m') = hit_count (stats m) + (if frame_of m (page_path (virtual_address a)) \<noteq> None then 1 else 0)"
    by (rule eff(4))
qed

lemma page_accessE:
  assumes "page_access on_ref evict x m m'"
  obtains v m1 m2 where "served evict x m v m1" "frames_ok m1" "on_ref (unat v) m1 = Inr m2"
    "policy_view (used m1) m2 m'" "frame_of m' = frame_of m1" "used m' = used m1"
  using assms unfolding page_access_def by blast

section \<open>Algorithms on pages\<close>

text \<open>
  An algorithm has a state, which tells the pages in memory and changes with every access; its
  hits are the accesses to pages in memory.
\<close>

fun hits :: "('q \<Rightarrow> 'a \<Rightarrow> bool) \<Rightarrow> ('q \<Rightarrow> 'a \<Rightarrow> 'q) \<Rightarrow> 'q \<Rightarrow> 'a list \<Rightarrow> nat" where
  "hits present step q [] = 0"
| "hits present step q (x # xs) = (if present q x then 1 else 0) + hits present step (step q x) xs"

lemma hits_le: "hits present step q xs \<le> length xs"
  by (induction xs arbitrary: q) (auto intro: le_SucI)

abbreviation pages_of :: "CSC369_MemAccess list \<Rightarrow> nat list list" where
  "pages_of as \<equiv> map (page_path \<circ> virtual_address) as"

text \<open>
  A policy of the simulator implements an algorithm when its machines are related to the states
  of the algorithm, at the start and after every access.  The start may depend on the numbers
  that the library's \<open>random()\<close> will return.
\<close>

locale page_algorithm =
  fixes pol :: CSC369_Policy
    and start :: "(nat \<Rightarrow> nat) \<Rightarrow> 'q"
    and present :: "'q \<Rightarrow> nat list \<Rightarrow> bool"
    and step :: "nat \<Rightarrow> 'q \<Rightarrow> nat list \<Rightarrow> 'q"
    and rel :: "nat \<Rightarrow> 'q \<Rightarrow> machine \<Rightarrow> bool"
  assumes start_rel:
    "frame_of m = Map.empty \<Longrightarrow> used m = {} \<Longrightarrow> policy_fresh m \<Longrightarrow> memsize m = n \<Longrightarrow> 0 < n \<Longrightarrow>
     rel n (start (rnd m)) (CSC369_PolicyInit pol m)"
  assumes present_rel:
    "rel n q m \<Longrightarrow> frame_of m x \<noteq> None \<longleftrightarrow> present q x"
  assumes access_rel:
    "rel n q m \<Longrightarrow> n \<le> 2 ^ 28 \<Longrightarrow> page_access (CSC369_PolicyOnRef pol) (CSC369_PolicyEvict pol) x m m' \<Longrightarrow>
     rel n (step n q x) m'"
begin

lemma created_rel:
  assumes "CSC369_SimulationCreate env k n swap_size (Some pol) = Inr (Some m)"
    "run_conditions pol env k n swap_size T"
  shows "rel n (start (random_values env)) m"
proof -
  have c: "env_ok env" "sizes_ok env n swap_size" "km_room k (card T)" using assms(2) by (simp_all add: run_conditions_def)
  obtain m1 where m1: "CSC369_SimulationCreate env k n swap_size (Some pol) = Inr (Some (CSC369_PolicyInit pol m1))"
    "page m1 = Map.empty" "used m1 = {}" "policy_fresh m1" "memsize m1 = n" "0 < memsize m1" "rnd m1 = random_values env"
    by (rule SimulationCreate_ok [OF c])
  moreover from this have "frame_of m1 = Map.empty" by (simp add: frame_of_def fun_eq_iff)
  ultimately have "rel n (start (random_values env)) (CSC369_PolicyInit pol m1)"
    using start_rel [of m1 n] by simp
  with assms(1) m1(1) show ?thesis by simp
qed

lemma run_rel:
  "reachable pol env k n swap_size T m \<Longrightarrow> run_conditions pol env k n swap_size T \<Longrightarrow>
   \<forall>a \<in> set as. va_ok (virtual_address a) \<Longrightarrow> touched as \<subseteq> T \<Longrightarrow> rel n q m \<Longrightarrow>
   run_accesses pol as m = Inr (rs, m') \<Longrightarrow>
   hit_count (stats m') = hit_count (stats m) + of_nat (hits present (step n) q (pages_of as))"
proof (induction as arbitrary: m q rs)
  case (Cons a as)
  let ?x = "page_path (virtual_address a)"
  obtain r m1 rs1 where e: "ExecuteMemInstruction (CSC369_PolicyOnRef pol) (CSC369_PolicyEvict pol) a m = Inr (r, m1)"
    "run_accesses pol as m1 = Inr (rs1, m')"
    using Cons.prems(6) by auto
  have a: "va_ok (virtual_address a)" "?x \<in> T" using Cons.prems by (auto simp: touched_def)
  have n: "n \<le> 2 ^ 28" using Cons.prems(2) by (simp add: run_conditions_def sizes_ok_def)
  have m1: "reachable pol env k n swap_size T m1" by (rule reachable.accessed [OF Cons.prems(1) a e(1)])
  note acc = reachable_access [OF Cons.prems(1,2) a e(1)]
  from Cons.IH [OF m1 Cons.prems(2) _ _ access_rel [OF Cons.prems(5) n acc(1)] e(2)]
  show ?case using Cons.prems(3,4) acc(2) present_rel [OF Cons.prems(5), of ?x] by (simp add: touched_def)
qed simp

text \<open>The counters of a whole run.\<close>

lemma run_hits:
  assumes c: "run_conditions pol env k n swap_size T"
    and as: "\<forall>a \<in> set as. va_ok (virtual_address a)" "touched as \<subseteq> T"
  obtains m rs m' where "CSC369_SimulationCreate env k n swap_size (Some pol) = Inr (Some m)"
    "run_accesses pol as m = Inr (rs, m')"
    "hit_count (stats m') = of_nat (hits present (step n) (start (random_values env)) (pages_of as))"
    "miss_count (stats m') = of_nat (length as - hits present (step n) (start (random_values env)) (pages_of as))"
    "ref_count (stats m') = of_nat (length as)"
proof -
  note d = c [unfolded run_conditions_def]
  have contract: "replacement_policy (CSC369_PolicyInit pol) (CSC369_PolicyOnRef pol) (CSC369_PolicyEvict pol) (policy_inv pol)"
    using policies_contract d by blast
  obtain m where m: "CSC369_SimulationCreate env k n swap_size (Some pol) = Inr (Some m)"
    "sim_ok (policy_inv pol) T (bytes_malloced k + create_bytes) m" "mem_rel (\<lambda>_. 0) m" "stats m = initial_stats"
    using replacement_policy.create_sim_ok [OF contract, of env n swap_size k T pol] d by blast
  obtain m' where r: "run_accesses pol as m = Inr (flat_run as (\<lambda>_. 0), m')"
    "ref_count (stats m') = ref_count (stats m) + of_nat (length as)"
    "hit_count (stats m') + miss_count (stats m') = hit_count (stats m) + miss_count (stats m) + of_nat (length as)"
    using replacement_policy.run_ok [OF contract refl refl m(2) as m(3)] by blast
  let ?h = "hits present (step n) (start (random_values env)) (pages_of as)"
  have h: "hit_count (stats m') = of_nat ?h"
    using run_rel [OF reachable.created [OF m(1)] c as created_rel [OF m(1) c] r(1)] m(4)
    by (simp add: initial_stats_def)
  have "?h \<le> length as" using hits_le [of present "step n" "start (random_values env)" "pages_of as"] by simp
  then have "of_nat (length as) = of_nat ?h + (of_nat (length as - ?h) :: u32)"
    by (simp only: of_nat_add [symmetric] le_add_diff_inverse)
  then have "miss_count (stats m') = of_nat (length as - ?h)"
    using r(3) h m(4) by (simp add: initial_stats_def)
  moreover have "ref_count (stats m') = of_nat (length as)" using r(2) m(4) by (simp add: initial_stats_def)
  ultimately show thesis by (rule that [OF m(1) r(1) h])
qed

end

section \<open>First in, first out\<close>

text \<open>The pages in memory, the oldest first.\<close>

definition fifo_step :: "nat \<Rightarrow> 'a list \<Rightarrow> 'a \<Rightarrow> 'a list" where
  "fifo_step n q x = (if x \<in> set q then q else if length q < n then q @ [x] else tl q @ [x])"

text \<open>Pages paired with their frames, in the order of a queue.\<close>

lemma map_of_zip_snoc:
  assumes "length q = length fs" "x \<notin> set q"
  shows "map_of (zip (q @ [x]) (fs @ [f])) = (map_of (zip q fs))(x \<mapsto> f)"
proof -
  have "map_of (zip (q @ [x]) (fs @ [f])) = [x \<mapsto> f] ++ map_of (zip q fs)" using assms(1) by simp
  also have "\<dots> = map_of (zip q fs) ++ [x \<mapsto> f]" by (rule map_add_comm) (use assms in simp)
  finally show ?thesis by simp
qed

lemma vacate_zip:
  assumes "length q = length fs" "y \<notin> set q" "f \<notin> set fs"
  shows "vacate f (map_of (zip (y # q) (f # fs))) = map_of (zip q fs)"
proof
  fix xs
  have "map_of (zip q fs) y = None" using assms by (simp add: map_of_zip_is_None)
  moreover have "map_of (zip q fs) xs \<noteq> Some f" using assms(3) by (auto dest!: map_of_SomeD set_zip_rightD)
  ultimately show "vacate f (map_of (zip (y # q) (f # fs))) xs = map_of (zip q fs) xs" by (simp add: vacate_def)
qed

text \<open>The frames from \<open>r\<close> on, around the end.\<close>

definition turn :: "nat \<Rightarrow> nat \<Rightarrow> nat \<Rightarrow> nat list" where
  "turn n r k = map (\<lambda>j. (r + j) mod n) [0..<k]"

lemma length_turn [simp]: "length (turn n r k) = k"
  by (simp add: turn_def)

lemma turn_snoc: "turn n r (Suc k) = turn n r k @ [(r + k) mod n]"
  by (simp add: turn_def)

lemma turn_Cons: "turn n r (Suc k) = (r mod n) # turn n (Suc r mod n) k"
proof -
  have "[0..<Suc k] = 0 # map Suc [0..<k]" by (simp only: map_Suc_upt upt_conv_Cons zero_less_Suc)
  then show ?thesis by (simp add: turn_def mod_add_left_eq del: upt_Suc)
qed

lemma distinct_turn: "k \<le> n \<Longrightarrow> distinct (turn n r k)"
proof -
  assume k: "k \<le> n"
  have "i = j" if eq: "(r + i) mod n = (r + j) mod n" and lt: "i < n" "j < n" for i j
  proof -
    obtain a b where "r + i + n * a = r + j + n * b"  using eq unfolding nat_mod_eq_iff by (elim exE)
    then have "i + n * a = j + n * b" by simp
    then have "(i + n * a) mod n = (j + n * b) mod n" by simp
    then show ?thesis using lt by simp
  qed
  note inj = this
  have "inj_on (\<lambda>j. (r + j) mod n) (set [0..<k])"
  proof (rule inj_onI)
    fix i j assume "i \<in> set [0..<k]" "j \<in> set [0..<k]" and eq: "(r + i) mod n = (r + j) mod n"
    then have "i < n" "j < n" using k by simp_all
    then show "i = j" by (rule inj [OF eq])
  qed
  then show ?thesis unfolding turn_def distinct_map by simp
qed

lemma turn_bound:
  assumes "f \<in> set (turn n r k)" "k \<le> n" "0 < n" "k < n \<longrightarrow> r = 0"
  shows "f < k"
proof -
  obtain j where j: "f = (r + j) mod n" "j < k" using assms(1) unfolding turn_def by auto
  show ?thesis
  proof (cases "k < n")
    case True
    then show ?thesis using j assms(4) by simp
  next
    case False
    then have "k = n" using assms(2) by simp
    then show ?thesis unfolding j(1) using assms(3) by simp
  qed
qed

text \<open>
  The queue and the machine: the oldest page is in the frame that round robin evicts next, the
  others follow it around the frames.
\<close>

definition fifo_rel :: "nat \<Rightarrow> nat list list \<Rightarrow> machine \<Rightarrow> bool" where
  "fifo_rel n q m \<longleftrightarrow> memsize m = n \<and> length q \<le> n \<and> used m = {..<length q} \<and> unat (rr_next m) < n \<and>
     (length q < n \<longrightarrow> unat (rr_next m) = 0) \<and> distinct q \<and>
     frame_of m = map_of (zip q (turn n (unat (rr_next m)) (length q)))"

lemma fifo_rel_hit: "fifo_rel n q m \<Longrightarrow> frame_of m x \<noteq> None \<longleftrightarrow> x \<in> set q"
  by (auto simp: fifo_rel_def map_of_zip_is_None)

lemma fifo_rel_frame:
  assumes "fifo_rel n q m" "frame_of m x = Some f"
  shows "f < length q"
proof -
  note d = assms(1) [unfolded fifo_rel_def]
  have "map_of (zip q (turn n (unat (rr_next m)) (length q))) x = Some f" using assms(2) d by metis
  then have "f \<in> set (turn n (unat (rr_next m)) (length q))" by (rule set_zip_rightD [OF map_of_SomeD])
  then show ?thesis by (rule turn_bound) (use d in auto)
qed

lemma fifo_rel_cong:
  assumes "fifo_rel n q m" "policy_view A m m'" "used m' = used m" "frame_of m' = frame_of m"
  shows "fifo_rel n q m'"
  using assms unfolding fifo_rel_def policy_view_def policy_same_def by simp

text \<open>A fault with a free frame.\<close>

lemma fifo_rel_fill:
  assumes r: "fifo_rel n q m" and q: "length q < n" and m': "memsize m' = n" "rr_next m' = rr_next m"
    "used m' = insert (length q) (used m)" "frame_of m' = (frame_of m)(x \<mapsto> length q)" "x \<notin> set q"
  shows "fifo_rel n (q @ [x]) m'"
proof -
  note d = r [unfolded fifo_rel_def]
  have z: "unat (rr_next m) = 0" using d q by simp
  have "frame_of m' = map_of (zip (q @ [x]) (turn n 0 (length q) @ [length q]))"
    using d z m'(4) map_of_zip_snoc [OF _ m'(5), of "turn n 0 (length q)"] by simp
  moreover have "used m = {..<length q}" using d by blast
  then have "used m' = {..<length (q @ [x])}" using m'(3) by (simp add: lessThan_Suc)
  ultimately show ?thesis using d m' q z turn_snoc [of n 0 "length q"] unfolding fifo_rel_def by simp
qed

text \<open>A fault with every frame in use: the frame of the oldest page.\<close>

lemma fifo_rel_evict:
  assumes r: "fifo_rel n q m" and q: "length q = n" and m': "memsize m' = n"
    "unat (rr_next m') = Suc (unat (rr_next m)) mod n" "used m' = used m"
    "frame_of m' = (vacate (unat (rr_next m)) (frame_of m))(x \<mapsto> unat (rr_next m))" "x \<notin> set q"
  shows "fifo_rel n (tl q @ [x]) m'"
proof -
  note d = r [unfolded fifo_rel_def]
  let ?r = "unat (rr_next m)"
  have r: "?r < n" using d by blast
  then obtain y ys where y: "q = y # ys" using q by (cases q) auto
  then have n: "n = Suc (length ys)" using q by simp
  let ?fs = "turn n (Suc ?r mod n) (length ys)"
  have t: "turn n ?r (length q) = ?r # ?fs" using turn_Cons [of n ?r "length ys"] r y by simp
  have "distinct (?r # ?fs)" using distinct_turn [of "length q" n ?r] q t by simp
  then have fn: "?r \<notin> set ?fs" by simp
  have dq: "y \<notin> set ys" using d y by simp
  have "vacate ?r (frame_of m) = map_of (zip ys ?fs)"
    using vacate_zip [OF _ dq fn] d t y by simp
  then have f: "frame_of m' = map_of (zip (ys @ [x]) (?fs @ [?r]))"
    using m'(4,5) map_of_zip_snoc [of ys ?fs x ?r] y by simp
  have "(Suc ?r mod n + length ys) mod n = (?r + n) mod n" unfolding mod_add_left_eq by (simp add: n)
  then have "(Suc ?r mod n + length ys) mod n = ?r" using r by simp
  then have "turn n (unat (rr_next m')) (length (tl q @ [x])) = ?fs @ [?r]"
    using turn_snoc [of n "Suc ?r mod n" "length ys"] m'(2) y by simp
  then show ?thesis using d m' q y n f unfolding fifo_rel_def by auto
qed

text \<open>Round robin keeps the relation; an access hits when its page is in the queue.\<close>

lemma rr_chosen:
  assumes c: "chosen CSC369_PolicyRREvict m v m'" and u: "all_used m"
    and n: "unat (rr_next m) < memsize m" "memsize m \<le> 2 ^ 28"
  shows "v = rr_next m" "unat (rr_next m') = Suc (unat (rr_next m)) mod memsize m" "memsize m' = memsize m"
proof -
  obtain m0 m1 where e: "policy_same m m0" "CSC369_PolicyRREvict m0 = Inr (v, m1)" "policy_same m1 m'"
    using c u unfolding chosen_def policy_view_def by auto
  then have m1: "v = rr_next m" "m1 = m0\<lparr>rr_next := (rr_next m + 1) mod of_nat (memsize m)\<rparr>" "memsize m0 = memsize m"
    using n(1) by (auto simp: CSC369_PolicyRREvict_def policy_same_def Let_def split: if_splits)
  then show "v = rr_next m" by simp
  show "unat (rr_next m') = Suc (unat (rr_next m)) mod memsize m" "memsize m' = memsize m"
    using e(3) m1 rr_step [OF n] by (simp_all add: policy_same_def)
qed

lemma fifo_rel_served:
  assumes r: "fifo_rel n q m" and s: "served CSC369_PolicyRREvict x m v m'" and n: "n \<le> 2 ^ 28"
  shows "fifo_rel n (fifo_step n q x) m'"
proof -
  note d = r [unfolded fifo_rel_def] and s' = s [unfolded served_def]
  have sizes: "memsize m = n" "unat (rr_next m) < memsize m" "memsize m \<le> 2 ^ 28" using d n by simp_all
  have u: "all_used m \<longleftrightarrow> length q = n" using d by (auto simp: all_used_def)
  consider (hit) "x \<in> set q" | (fill) "x \<notin> set q" "length q < n" | (full) "x \<notin> set q" "length q = n"
    using d by fastforce
  then show ?thesis
  proof cases
    case hit
    then have f: "frame_of m x = Some (unat v)" "policy_view (used m) m m'" "frame_of m' = frame_of m"
      "used m' = insert (unat v) (used m)" using s' fifo_rel_hit [OF r, of x] by (auto split: if_splits)
    have "unat v \<in> used m" using fifo_rel_frame [OF r f(1)] d by simp
    then have "used m' = used m" using f(4) by (simp add: insert_absorb)
    then show ?thesis using fifo_rel_cong [OF r f(2) _ f(3)] hit by (simp add: fifo_step_def)
  next
    case fill
    then have miss: "\<not> frame_of m x \<noteq> None" using fifo_rel_hit [OF r, of x] by blast
    have "unat v = (LEAST j. j < memsize m \<and> j \<notin> used m)" "policy_same m m'"
      using s' miss u fill unfolding chosen_def by (simp_all add: policy_view_def)
    moreover from this have v: "unat v = length q" using d least_unused [OF fill(2)] by simp
    moreover have "vacate (length q) (frame_of m) = frame_of m"
    proof
      fix y
      have "frame_of m y \<noteq> Some (length q)" using fifo_rel_frame [OF r, of y "length q"] by blast
      then show "vacate (length q) (frame_of m) y = frame_of m y" by (simp add: vacate_def)
    qed
    ultimately have "fifo_rel n (q @ [x]) m'"
      using fifo_rel_fill [OF r fill(2) _ _ _ _ fill(1), of m'] s' miss sizes(1) by (simp add: policy_same_def)
    then show ?thesis using fill by (simp add: fifo_step_def)
  next
    case full
    then have miss: "\<not> frame_of m x \<noteq> None" using fifo_rel_hit [OF r, of x] by blast
    then have "chosen CSC369_PolicyRREvict m v m'" and
      f: "frame_of m' = (vacate (unat v) (frame_of m))(x \<mapsto> unat v)" "used m' = insert (unat v) (used m)"
      using s' by simp_all
    note c = rr_chosen [OF this(1) _ sizes(2,3)]
    have au: "all_used m" using u full by blast
    have "used m' = used m" using f(2) d full(2) c(1) [OF au] by auto
    then have "fifo_rel n (tl q @ [x]) m'"
      using fifo_rel_evict [OF r full(2) _ _ _ _ full(1), of m'] c [OF au] f sizes(1) by simp
    then show ?thesis using full by (simp add: fifo_step_def)
  qed
qed

interpretation fifo: page_algorithm policy_RR "\<lambda>_. []" "\<lambda>q x. x \<in> set q" fifo_step fifo_rel
proof
  fix m :: machine and n
  assume "frame_of m = Map.empty" "used m = {}" "policy_fresh m" "memsize m = n" "0 < n"
  then show "fifo_rel n [] (CSC369_PolicyInit policy_RR m)"
    by (simp add: fifo_rel_def policy_fresh_def policy_RR_def CSC369_PolicyRRInit_def)
next
  fix m :: machine and n q x
  assume "fifo_rel n q m"
  then show "frame_of m x \<noteq> None \<longleftrightarrow> x \<in> set q" by (rule fifo_rel_hit)
next
  fix m m' :: machine and n q x
  assume r: "fifo_rel n q m" "n \<le> 2 ^ 28"
    and "page_access (CSC369_PolicyOnRef policy_RR) (CSC369_PolicyEvict policy_RR) x m m'"
  then obtain v m1 m2 where s: "served CSC369_PolicyRREvict x m v m1" "CSC369_PolicyRROnRef (unat v) m1 = Inr m2"
    "policy_view (used m1) m2 m'" "frame_of m' = frame_of m1" "used m' = used m1"
    by (elim page_accessE) (simp add: policy_RR_def)
  then have "policy_view (used m1) m1 m'" by (simp add: CSC369_PolicyRROnRef_def)
  then show "fifo_rel n (fifo_step n q x) m'"
    using fifo_rel_cong [OF fifo_rel_served [OF r(1) s(1) r(2)]] s(4,5) by simp
qed

section \<open>A sample\<close>

text \<open>Seven accesses to five pages, for three frames.\<close>

definition sample_paging :: "CSC369_MemAccess list" where
  "sample_paging = map (\<lambda>va. \<lparr>access_type = CSC369_ACCESS_TYPE_STORE, virtual_address = va, access_value = 1\<rparr>)
     [0x1000, 0x2000, 0x3000, 0x4000, 0x2000, 0x5000, 0x2000]"

lemma sample_paging_va: "\<forall>a \<in> set sample_paging. va_ok (virtual_address a)"
  by (simp add: sample_paging_def va_ok_def)

lemma sample_paging_pages:
  "pages_of sample_paging = [[0, 0, 1], [0, 0, 2], [0, 0, 3], [0, 0, 4], [0, 0, 2], [0, 0, 5], [0, 0, 2]]"
  by (simp add: sample_paging_def page_path_def)

lemma sample_paging_conditions:
  assumes "pol \<in> set CSC369_POLICIES"
  shows "run_conditions pol sample_env sample_km 3 8 (touched sample_paging)"
proof -
  have "touched sample_paging = set (pages_of sample_paging)" by (simp add: touched_def image_image)
  then have "card (touched sample_paging) = 5" unfolding sample_paging_pages by (simp add: card_insert_if)
  moreover have "km_room sample_km 5"
    by (auto simp: km_room_def sample_km_def CSC369_MallocInit_def libc_ok_def create_bytes_def
        pt_alloc_bytes_def inj_on_def)
  ultimately show ?thesis using assms
    by (simp add: run_conditions_def env_ok_def sizes_ok_def sample_env_def touched_def)
qed

section \<open>Properties\<close>

text \<open>
  C14: under round robin the counts of the simulator are those of first in, first out replacement
  on pages: for any accesses and any number of frames, the hits are the accesses to a page among
  the last \<open>n\<close> that came in, and all others are misses.
\<close>

theorem rr_is_fifo:
  assumes "run_conditions policy_RR env k n swap_size T" "\<forall>a \<in> set as. va_ok (virtual_address a)" "touched as \<subseteq> T"
  shows "\<exists>m rs m'. CSC369_SimulationCreate env k n swap_size (Some policy_RR) = Inr (Some m) \<and>
     run_accesses policy_RR as m = Inr (rs, m') \<and>
     hit_count (stats m') = of_nat (hits (\<lambda>q x. x \<in> set q) (fifo_step n) [] (pages_of as)) \<and>
     miss_count (stats m') = of_nat (length as - hits (\<lambda>q x. x \<in> set q) (fifo_step n) [] (pages_of as))"
  by (rule fifo.run_hits [OF assms]) blast

theorem rr_is_fifo_witness:
  "\<exists>m rs m'. CSC369_SimulationCreate sample_env sample_km 3 8 (Some policy_RR) = Inr (Some m) \<and>
     run_accesses policy_RR sample_paging m = Inr (rs, m') \<and> hit_count (stats m') = 1 \<and> miss_count (stats m') = 6"
proof -
  have "hits (\<lambda>q x. x \<in> set q) (fifo_step 3) [] (pages_of sample_paging) = 1" "length sample_paging = 7"
    unfolding sample_paging_pages by (simp_all add: fifo_step_def sample_paging_def)
  then show ?thesis
    using rr_is_fifo [OF sample_paging_conditions [OF sample_RR] sample_paging_va order_refl] by simp
qed

end
