(* ===== verification/PagingQueues.thy ===== *)
theory PagingQueues
  imports Paging
begin

text \<open>
  The policy S2Q is the simplified 2Q algorithm of the paper on pages: the operations of theory
  \<open>PolicyS2Q\<close>, which tell the two lists of frames, now on two sequences of pages.
\<close>

section \<open>The algorithm\<close>

text \<open>Pages referenced once, the oldest first, and pages referenced again, the latest first.\<close>

definition two_queue_step :: "nat \<Rightarrow> 'a list \<times> 'a list \<Rightarrow> 'a \<Rightarrow> 'a list \<times> 'a list" where
  "two_queue_step n q x =
     (if x \<in> set (fst q @ snd q) \<or> length (fst q @ snd q) < n then s2q_ref x q
      else s2q_ref x (s2q_evict n q))"

section \<open>Renaming pages to frames\<close>

lemma remove1_map:
  "inj_on g (insert x (set xs)) \<Longrightarrow> remove1 (g x) (map g xs) = map g (remove1 x xs)"
proof (induction xs)
  case (Cons y ys)
  have "inj_on g (insert x (set ys))" by (rule inj_on_subset [OF Cons.prems]) auto
  moreover have "g x = g y \<longleftrightarrow> x = y" using Cons.prems by (auto dest: inj_onD)
  ultimately show ?case using Cons.IH by auto
qed simp

lemma s2q_ref_map:
  assumes "inj_on g (insert x (set a1 \<union> set am))"
  shows "s2q_ref (g x) (map g a1, map g am) = map_prod (map g) (map g) (s2q_ref x (a1, am))"
proof -
  have "g x \<in> g ` (set a1 \<union> set am) \<longleftrightarrow> x \<in> set a1 \<union> set am"
    using assms by (auto dest: inj_onD)
  moreover have "inj_on g (insert x (set a1))" "inj_on g (insert x (set am))"
    using assms by (auto elim: inj_on_subset)
  ultimately show ?thesis using remove1_map [of g x] by (auto simp: s2q_ref_def image_Un)
qed

lemma s2q_evict_map:
  assumes "length a1 > n div 10 \<or> am \<noteq> []"
  shows "s2q_evict n (map g a1, map g am) = map_prod (map g) (map g) (s2q_evict n (a1, am))"
    "s2q_victim n (map g a1, map g am) = g (s2q_victim n (a1, am))"
proof -
  show "s2q_evict n (map g a1, map g am) = map_prod (map g) (map g) (s2q_evict n (a1, am))"
    by (simp add: s2q_evict_def map_tl map_butlast)
  have "a1 \<noteq> []" if "length a1 > n div 10" using that by auto
  then show "s2q_victim n (map g a1, map g am) = g (s2q_victim n (a1, am))"
    using assms by (auto simp: s2q_victim_def hd_map last_map)
qed

lemma s2q_victim_mem: "length a1 > n div 10 \<or> am \<noteq> [] \<Longrightarrow> s2q_victim n (a1, am) \<in> set a1 \<union> set am"
  by (cases a1) (auto simp: s2q_victim_def)

lemma s2q_distinct:
  assumes "distinct (a1 @ am)"
  shows "distinct (fst (s2q_ref x (a1, am)) @ snd (s2q_ref x (a1, am)))"
    "distinct (fst (s2q_evict n (a1, am)) @ snd (s2q_evict n (a1, am)))"
proof -
  show "distinct (fst (s2q_ref x (a1, am)) @ snd (s2q_ref x (a1, am)))"
    using assms by (auto simp: s2q_ref_def set_remove1_eq)
  show "distinct (fst (s2q_evict n (a1, am)) @ snd (s2q_evict n (a1, am)))"
    using assms by (cases a1) (auto simp: s2q_evict_def distinct_butlast dest: in_set_butlastD)
qed

lemma s2q_abs_cong:
  assumes "s2q_abs m q" "policy_view A m m'" "set (fst q) \<union> set (snd q) \<subseteq> A"
  shows "s2q_abs m' q"
  using assms by (auto simp: s2q_abs_def policy_view_def policy_same_def)

section \<open>The relation\<close>

definition queues_rel :: "nat \<Rightarrow> nat list list \<times> nat list list \<Rightarrow> machine \<Rightarrow> bool" where
  "queues_rel n q m \<longleftrightarrow> placed n (set (fst q) \<union> set (snd q)) m \<and> distinct (fst q @ snd q) \<and>
     s2q_abs m (map (place m) (fst q), map (place m) (snd q))"

text \<open>The reference at the end of an access, from the lists that an eviction may have left.\<close>

lemma queues_ref:
  assumes P: "placed n (insert x (set a1 \<union> set am)) m1" "distinct (a1 @ am)"
    and a: "s2q_abs m1 (map (place m1) a1, map (place m1) am)" and v: "unat v = place m1 x"
    and new: "x \<in> set a1 \<union> set am \<or> \<not> frame_ref m1 (unat v)" and ok: "frames_ok m1"
    and o: "CSC369_PolicyS2QOnRef (unat v) m1 = Inr m2" "policy_view (used m1) m2 m'"
    and f: "frame_of m' = frame_of m1" "used m' = used m1"
  shows "queues_rel n (s2q_ref x (a1, am)) m'"
proof -
  let ?P = "insert x (set a1 \<union> set am)"
  obtain b1 bm where b: "s2q_ref x (a1, am) = (b1, bm)" by (cases "s2q_ref x (a1, am)") auto
  have bP: "set b1 \<union> set bm = ?P" using s2q_sets_ref [OF P(2), of x] b by simp
  note im = placed_image [OF P(1)] and inj = placed_inj [OF P(1)]
  have sub: "set (map (place m1) a1) \<union> set (map (place m1) am) \<subseteq> used m1" "place m1 x \<in> used m1"
    using im by auto
  have "unat v \<in> set (map (place m1) a1) \<union> set (map (place m1) am) \<or> \<not> frame_ref m1 (unat v)"
    using new v by auto
  then obtain m3 where m3: "CSC369_PolicyS2QOnRef (unat v) m1 = Inr m3" "core_eq m1 m3"
    "s2q_abs m3 (s2q_ref (unat v) (map (place m1) a1, map (place m1) am))"
    using S2QOnRef_refines [OF ok _ a sub(1), of "unat v"] sub(2) v by auto
  have "s2q_abs m2 (map (place m1) b1, map (place m1) bm)"
    using m3 o(1) s2q_ref_map [OF inj] v b by simp
  moreover have "set (map (place m1) b1) \<union> set (map (place m1) bm) \<subseteq> used m1"
    using bP im by (metis image_Un order_refl set_map)
  ultimately have "s2q_abs m' (map (place m') b1, map (place m') bm)"
    using s2q_abs_cong [OF _ o(2)] place_cong [OF f(1)] by simp
  moreover have "memsize m' = memsize m1"
    using m3(1,2) o by (simp add: core_eq_def policy_view_def policy_same_def)
  then have "placed n ?P m'" using P(1) f by (simp add: placed_def)
  moreover have "distinct (b1 @ bm)" using s2q_distinct(1) [OF P(2), of x] b by simp
  ultimately show ?thesis unfolding queues_rel_def b by (simp add: bP)
qed

lemma queues_access:
  assumes r: "queues_rel n q m" and acc: "page_access CSC369_PolicyS2QOnRef CSC369_PolicyS2QEvict x m m'"
  shows "queues_rel n (two_queue_step n q x) m'"
proof -
  obtain a1 am where q: "q = (a1, am)" by (cases q)
  let ?P = "set a1 \<union> set am"
  have P: "placed n ?P m" "distinct (a1 @ am)" and a: "s2q_abs m (map (place m) a1, map (place m) am)"
    using r by (simp_all add: queues_rel_def q)
  have im: "place m ` ?P = used m" using placed_image [OF P(1)] .
  have imq: "set (fst (map (place m) a1, map (place m) am)) \<union> set (snd (map (place m) a1, map (place m) am)) \<subseteq> used m"
    using im by auto
  have len: "card ?P = length (a1 @ am)" using distinct_card [OF P(2)] by simp
  obtain v m1 m2 where s: "served CSC369_PolicyS2QEvict x m v m1" and ok: "frames_ok m1"
    and o: "CSC369_PolicyS2QOnRef (unat v) m1 = Inr m2" "policy_view (used m1) m2 m'"
      "frame_of m' = frame_of m1" "used m' = used m1" by (rule page_accessE [OF acc])
  from P(1) show ?thesis
  proof (cases rule: placed_cases [where x = x])
    case hit
    note h = placed_hit [OF P(1) hit s]
    have "s2q_abs m1 (map (place m1) a1, map (place m1) am)"
      using s2q_abs_cong [OF a h(2) imq] place_cong [OF h(3)] by simp
    moreover have "placed n (insert x ?P) m1" using h(5) hit by (simp add: insert_absorb)
    moreover have "unat v = place m1 x" using h(1) place_cong [OF h(3)] by simp
    ultimately have "queues_rel n (s2q_ref x (a1, am)) m'" using queues_ref [OF _ P(2) _ _ _ ok o] hit by blast
    then show ?thesis using hit by (simp add: two_queue_step_def q)
  next
    case fill
    note h = placed_fill [OF P(1) fill s]
    have maps: "map (place m1) a1 = map (place m) a1" "map (place m1) am = map (place m) am" using h(5) by simp_all
    have "s2q_abs m1 (map (place m1) a1, map (place m1) am)" unfolding maps by (rule s2q_abs_cong [OF a h(1) imq])
    then have "queues_rel n (s2q_ref x (a1, am)) m'" using queues_ref [OF h(3) P(2) _ _ _ ok o] h(2,4) by simp
    then show ?thesis using fill(2) len by (simp add: two_queue_step_def q)
  next
    case full
    obtain m0 m3 where e: "frames_ok m0" "used m0 = used m" "policy_view (used m) m m0"
      "CSC369_PolicyS2QEvict m0 = Inr (v, m3)" "policy_view (used m - {unat v}) m3 m1" "\<not> frame_ref m1 (unat v)"
      "\<And>y. y \<in> ?P \<Longrightarrow> unat v = place m y \<Longrightarrow> memsize m3 = n \<Longrightarrow> placed n (insert x (?P - {y})) m1 \<and>
        place m1 x = unat v \<and> (\<forall>z \<in> ?P - {y}. place m1 z = place m z)"
      by (rule placed_evict [OF P(1) full s]) blast
    have n: "memsize m0 = n" "0 < n" using e(3) P(1) by (simp_all add: policy_view_def policy_same_def placed_def)
    have ne: "length a1 > n div 10 \<or> am \<noteq> []" using len full(2) n(2) by (cases am) auto
    have "s2q_abs m0 (map (place m) a1, map (place m) am)"
      by (rule s2q_abs_cong [OF a e(3) imq])
    then obtain m4 w where w: "CSC369_PolicyS2QEvict m0 = Inr (w, m4)"
      "unat w = s2q_victim n (map (place m) a1, map (place m) am)" "core_eq m0 m4"
      "s2q_abs m4 (s2q_evict n (map (place m) a1, map (place m) am))"
      using S2QEvict_refines [OF e(1), of "map (place m) a1" "map (place m) am"] e(2) n(1) im ne
      by (auto simp: image_Un)
    then have m4: "w = v" "m4 = m3" "memsize m3 = n" using e(4) n(1) by (simp_all add: core_eq_def)
    let ?y = "s2q_victim n (a1, am)"
    have y: "?y \<in> ?P" "unat v = place m ?y" using s2q_victim_mem [OF ne] w(2) s2q_evict_map(2) [OF ne] m4(1) by simp_all
    note p1 = e(7) [OF y m4(3)]
    obtain b1 bm where b: "s2q_evict n (a1, am) = (b1, bm)" by (cases "s2q_evict n (a1, am)") auto
    have bP: "set b1 \<union> set bm = ?P - {?y}" using s2q_sets_evict [OF P(2) ne] b by simp
    have db: "distinct (b1 @ bm)" using s2q_distinct(2) [OF P(2), of n] b by simp
    have "s2q_abs m3 (map (place m) b1, map (place m) bm)" using w(4) m4(2) s2q_evict_map(1) [OF ne, of "place m"] b by simp
    moreover have "place m ` (set b1 \<union> set bm) \<subseteq> used m - {unat v}"
    proof -
      have "place m z \<noteq> place m ?y" if "z \<in> ?P - {?y}" for z
        using that y(1) placed_inj [OF P(1)] by (auto dest: inj_onD)
      then show ?thesis unfolding bP using im y(2) by auto
    qed
    ultimately have "s2q_abs m1 (map (place m) b1, map (place m) bm)"
      using s2q_abs_cong [OF _ e(5)] by (simp add: image_Un)
    moreover have maps: "map (place m1) b1 = map (place m) b1" "map (place m1) bm = map (place m) bm"
      using p1 bP by auto
    ultimately have "s2q_abs m1 (map (place m1) b1, map (place m1) bm)" by (simp only: maps)
    then have "queues_rel n (s2q_ref x (b1, bm)) m'"
      using queues_ref [OF _ db _ _ _ ok o, of n x] p1 bP e(6) by simp
    then show ?thesis using full len b by (simp add: two_queue_step_def q)
  qed
qed

interpretation two_queues: page_algorithm policy_S2Q "\<lambda>_. ([], [])" "\<lambda>q x. x \<in> set (fst q) \<union> set (snd q)"
  two_queue_step queues_rel
proof
  fix m :: machine and n
  assume m: "frame_of m = Map.empty" "used m = {}" "policy_fresh m" "memsize m = n" "0 < n"
  let ?m = "CSC369_PolicyS2QInit m"
  have "s2q_abs ?m ([], [])"
    using m(3) by (simp add: CSC369_PolicyS2QInit_def s2q_abs_def s2q_links_init policy_fresh_def)
  moreover have "frame_of ?m = Map.empty"
    using m(1) frame_of_cong [OF page_cong(2), of ?m m] by (simp add: CSC369_PolicyS2QInit_def)
  then have "placed n {} ?m" by (rule placed_empty) (use m in \<open>simp_all add: CSC369_PolicyS2QInit_def\<close>)
  ultimately show "queues_rel n ([], []) (CSC369_PolicyInit policy_S2Q m)"
    by (simp add: queues_rel_def policy_S2Q_def)
next
  fix m :: machine and n q x
  assume "queues_rel n q m"
  then show "frame_of m x \<noteq> None \<longleftrightarrow> x \<in> set (fst q) \<union> set (snd q)"
    unfolding queues_rel_def by (intro placed_present) blast
next
  fix m m' :: machine and n q x
  assume "queues_rel n q m" "page_access (CSC369_PolicyOnRef policy_S2Q) (CSC369_PolicyEvict policy_S2Q) x m m'"
  then show "queues_rel n (two_queue_step n q x) m'" by (intro queues_access) (simp_all add: policy_S2Q_def)
qed

section \<open>Properties\<close>

text \<open>
  C13: under S2Q the counts of the simulator are those of the simplified 2Q algorithm on pages,
  for any accesses and any number of frames: a page comes in at the tail of A1, its next
  reference moves it to Am, which is kept in the order of the last references, and the page that
  leaves is the oldest of A1 when A1 holds more than a tenth of the frames, the last of Am
  otherwise.
\<close>

theorem s2q_is_two_queues:
  assumes "run_conditions policy_S2Q env k n swap_size T" "\<forall>a \<in> set as. va_ok (virtual_address a)" "touched as \<subseteq> T"
  shows "\<exists>m rs m'. CSC369_SimulationCreate env k n swap_size (Some policy_S2Q) = Inr (Some m) \<and>
     run_accesses policy_S2Q as m = Inr (rs, m') \<and>
     hit_count (stats m') = of_nat (hits (\<lambda>q x. x \<in> set (fst q) \<union> set (snd q)) (two_queue_step n) ([], []) (pages_of as)) \<and>
     miss_count (stats m') = of_nat (length as -
       hits (\<lambda>q x. x \<in> set (fst q) \<union> set (snd q)) (two_queue_step n) ([], []) (pages_of as))"
  by (rule two_queues.run_hits [OF assms]) blast

theorem s2q_is_two_queues_witness:
  "\<exists>m rs m'. CSC369_SimulationCreate sample_env sample_km 3 8 (Some policy_S2Q) = Inr (Some m) \<and>
     run_accesses policy_S2Q sample_paging m = Inr (rs, m') \<and> hit_count (stats m') = 2 \<and> miss_count (stats m') = 5"
proof -
  have "hits (\<lambda>q x. x \<in> set (fst q) \<union> set (snd q)) (two_queue_step 3) ([], []) (pages_of sample_paging) = 2"
    "length sample_paging = 7"
    unfolding sample_paging_pages
    by (simp_all add: two_queue_step_def s2q_ref_def s2q_evict_def sample_paging_def)
  moreover have "policy_S2Q \<in> set CSC369_POLICIES" by (simp add: CSC369_POLICIES_def)
  ultimately show ?thesis
    using s2q_is_two_queues [OF sample_paging_conditions sample_paging_va order_refl] by simp
qed

end
