(* ===== verification/PagingClock.thy ===== *)
theory PagingClock
  imports Paging
begin

text \<open>
  The policy Clock is the second chance algorithm on pages: pages leave in the order they came
  in, but a page that was referenced since the hand last passed it is passed once more.
\<close>

section \<open>The algorithm\<close>

text \<open>
  The pages in memory, in the order in which the hand will visit them, and those of them that are
  marked as referenced.
\<close>

definition second_chance_step :: "nat \<Rightarrow> 'a list \<times> 'a set \<Rightarrow> 'a \<Rightarrow> 'a list \<times> 'a set" where
  "second_chance_step n q x = (case q of (ps, S) \<Rightarrow>
     if x \<in> set ps then (ps, insert x S)
     else if length ps < n then (ps @ [x], insert x S)
     else (clock_rest (\<lambda>p. p \<in> S) ps @ [x], insert x (S - clock_cleared (\<lambda>p. p \<in> S) ps)))"

section \<open>Renaming pages to frames\<close>

lemma clock_map:
  assumes "\<And>p. p \<in> set ps \<Longrightarrow> R (g p) \<longleftrightarrow> p \<in> S"
  shows "takeWhile R (map g ps) = map g (takeWhile (\<lambda>p. p \<in> S) ps)"
    "dropWhile R (map g ps) = map g (dropWhile (\<lambda>p. p \<in> S) ps)"
  using assms by (auto simp: takeWhile_map dropWhile_map comp_def cong: takeWhile_cong dropWhile_cong)

lemma clock_spec_map:
  assumes "\<And>p. p \<in> set ps \<Longrightarrow> R (g p) \<longleftrightarrow> p \<in> S" "ps \<noteq> []"
  shows "clock_victim R (map g ps) = g (clock_victim (\<lambda>p. p \<in> S) ps)"
    "clock_rest R (map g ps) = map g (clock_rest (\<lambda>p. p \<in> S) ps)"
    "clock_cleared R (map g ps) = g ` clock_cleared (\<lambda>p. p \<in> S) ps"
proof -
  have t: "takeWhile R (map g ps) = map g (takeWhile (\<lambda>p. p \<in> S) ps)"
    and d: "dropWhile R (map g ps) = map g (dropWhile (\<lambda>p. p \<in> S) ps)"
    using clock_map [of ps R g S] assms(1) by blast+
  note defs = clock_victim_def clock_rest_def clock_cleared_def t d list.map list.case set_map hd_map [OF assms(2)]
    map_tl map_append
  show "clock_victim R (map g ps) = g (clock_victim (\<lambda>p. p \<in> S) ps)"
    "clock_rest R (map g ps) = map g (clock_rest (\<lambda>p. p \<in> S) ps)"
    by (cases "dropWhile (\<lambda>p. p \<in> S) ps"; simp only: defs)+
  show "clock_cleared R (map g ps) = g ` clock_cleared (\<lambda>p. p \<in> S) ps" by (simp only: defs)
qed

lemma clock_rest_distinct:
  assumes "distinct us"
  shows "distinct (clock_rest R us)"
proof (cases "dropWhile R us")
  case Nil
  then show ?thesis unfolding clock_rest_def Nil list.case by (intro distinct_tl assms)
next
  case (Cons v vs)
  then have "us = takeWhile R us @ v # vs" by (metis takeWhile_dropWhile_id)
  then have "distinct (takeWhile R us @ v # vs)" using assms by simp
  then show ?thesis using Cons by (auto simp: clock_rest_def)
qed

lemma clock_ring_cong:
  assumes "clock_ring m xs" "policy_view A m m'"
  shows "clock_ring m' xs"
  using assms unfolding clock_ring_def policy_view_def policy_same_def by metis

section \<open>The relation\<close>

definition chances_rel :: "nat \<Rightarrow> nat list list \<times> nat list set \<Rightarrow> machine \<Rightarrow> bool" where
  "chances_rel n q m \<longleftrightarrow> (case q of (ps, S) \<Rightarrow>
     placed n (set ps) m \<and> distinct ps \<and> S \<subseteq> set ps \<and> clock_ring m (map (place m) ps) \<and>
     (ps \<noteq> [] \<longrightarrow> clock_hand m = Some (Frame_Entry (place m (last ps)))) \<and>
     (\<forall>p \<in> set ps. frame_ref m (place m p) \<longleftrightarrow> p \<in> S))"

text \<open>The reference of a page that came in.\<close>

lemma chances_new:
  assumes P: "placed n (insert x (set ps)) m1" and x: "x \<notin> set ps" "distinct ps" and S: "S \<subseteq> set ps"
    and r: "clock_ring m1 (map (place m1) ps)"
    and bits: "\<And>p. p \<in> set ps \<Longrightarrow> frame_ref m1 (place m1 p) \<longleftrightarrow> p \<in> S"
    and v: "unat v = place m1 x" and ok: "frames_ok m1"
    and o: "CSC369_PolicyClockOnRef (unat v) m1 = Inr m2" "policy_view (used m1) m2 m'"
    and f: "frame_of m' = frame_of m1" "used m' = used m1"
  shows "chances_rel n (ps @ [x], insert x S) m'"
proof -
  let ?xs = "map (place m1) ps" and ?f = "unat v"
  note im = placed_image [OF P] and inj = placed_inj [OF P] and pl = place_cong [OF f(1)]
  have fu: "?f \<in> used m1" using im v by auto
  have diff: "place m1 p \<noteq> ?f" if "p \<in> set ps" for p
    using that x(1) inj v by (metis inj_on_eq_iff insertI1 insertI2)
  then have "?f \<notin> set ?xs" unfolding set_map by (metis imageE)
  then obtain h where h: "m2 = (set_refs True {?f} m1)\<lparr>links := h, clock_list := clock_at (?xs @ [?f]),
      clock_hand := Some (Frame_Entry ?f)\<rparr>" "ring h (?xs @ [?f])"
    "\<forall>q. q \<notin> Frame_Entry ` set (?f # ?xs) \<longrightarrow> h q = links m1 q"
    using ClockOnRef_new [OF ok fu r] o(1) by auto
  have "clock_ring m2 (?xs @ [?f])"
    unfolding clock_ring_def
  proof (intro conjI allI impI)
    show "clock_list m2 = clock_at (?xs @ [?f])" "ring (links m2) (?xs @ [?f])" using h by simp_all
    fix i assume i: "i \<notin> set (?xs @ [?f])"
    then have "h (Frame_Entry i) = links m1 (Frame_Entry i)" using h(3) by auto
    then show "links m2 (Frame_Entry i) = unlinked" using i r h(1) by (simp add: clock_ring_def)
  qed
  then have "clock_ring m' (?xs @ [?f])" using o(2) by (rule clock_ring_cong)
  moreover have "frame_ref m' (place m1 p) \<longleftrightarrow> p \<in> insert x S" if p: "p \<in> insert x (set ps)" for p
  proof -
    have pu: "place m1 p \<in> used m1" using im p by auto
    have "frame_ref m' (place m1 p) = frame_ref m2 (place m1 p)" using o(2) pu by (simp add: policy_view_def)
    also have "\<dots> = frame_ref (set_refs True {?f} m1) (place m1 p)" by (simp add: h(1))
    also have "\<dots> \<longleftrightarrow> place m1 p = ?f \<or> frame_ref m1 (place m1 p)"
      using frame_ref_set_refs [OF ok pu, of "{?f}" True] fu by simp
    also have "\<dots> \<longleftrightarrow> p \<in> insert x S"
    proof (cases "p = x")
      case True
      then show ?thesis using v by simp
    next
      case False
      then have "p \<in> set ps" using p by simp
      then show ?thesis using diff bits False by simp
    qed
    finally show ?thesis .
  qed
  moreover have "memsize m' = memsize m1" using o(2) h(1) by (simp add: policy_view_def policy_same_def)
  then have "placed n (set (ps @ [x])) m'" using P f by (simp add: placed_def)
  moreover have "clock_hand m' = Some (Frame_Entry ?f)" using o(2) h(1) by (simp add: policy_view_def policy_same_def)
  ultimately show ?thesis using x S v unfolding chances_rel_def pl by auto
qed

text \<open>The reference of a page in memory.\<close>

lemma chances_old:
  assumes q: "chances_rel n (ps, S) m" and x: "x \<in> set ps" and s: "served evict x m v m1" and ok: "frames_ok m1"
    and o: "CSC369_PolicyClockOnRef (unat v) m1 = Inr m2" "policy_view (used m1) m2 m'"
    and f: "frame_of m' = frame_of m1" "used m' = used m1"
  shows "chances_rel n (ps, insert x S) m'"
proof -
  note d = q [unfolded chances_rel_def, simplified]
  have P: "placed n (set ps) m" using d by blast
  note h = placed_hit [OF P x s]
  have f': "frame_of m' = frame_of m" using f(1) h(3) by simp
  note im = placed_image [OF P] and inj = placed_inj [OF P] and pl = place_cong [OF f']
  have fu: "unat v \<in> used m1" "unat v \<in> set (map (place m) ps)" using im x h(1,4) by auto
  have r1: "clock_ring m1 (map (place m) ps)" using d h(2) clock_ring_cong by blast
  have m2: "m2 = set_refs True {unat v} m1" using ClockOnRef_old [OF ok fu(1) r1 fu(2)] o(1) by simp
  have "clock_ring m2 (map (place m) ps)" using r1 by (simp add: m2 clock_ring_def)
  then have "clock_ring m' (map (place m) ps)" using o(2) by (rule clock_ring_cong)
  moreover have "frame_ref m' (place m p) \<longleftrightarrow> p \<in> insert x S" if p: "p \<in> set ps" for p
  proof -
    have pu: "place m p \<in> used m" "place m p \<in> used m1" using im p h(4) by auto
    have "frame_ref m' (place m p) = frame_ref m2 (place m p)" using o(2) pu by (simp add: policy_view_def)
    also have "\<dots> \<longleftrightarrow> place m p = unat v \<or> frame_ref m1 (place m p)"
      unfolding m2 using frame_ref_set_refs [OF ok pu(2), of "{unat v}" True] fu(1) by simp
    also have "frame_ref m1 (place m p) = frame_ref m (place m p)" using h(2) pu(1) by (simp add: policy_view_def)
    also have "frame_ref m (place m p) \<longleftrightarrow> p \<in> S" using d p by blast
    also have "place m p = unat v \<longleftrightarrow> p = x" using h(1) p x inj by (auto dest: inj_onD)
    finally show ?thesis by simp
  qed
  moreover have "memsize m' = memsize m" "clock_hand m' = clock_hand m"
    using o(2) h(2) by (simp_all add: m2 policy_view_def policy_same_def)
  moreover have "placed n (set ps) m'" using P f' h(4) f(2) \<open>memsize m' = memsize m\<close> by (simp add: placed_def)
  ultimately show ?thesis using d x unfolding chances_rel_def pl by simp
qed

lemma chances_access:
  assumes q: "chances_rel n (ps, S) m" and acc: "page_access CSC369_PolicyClockOnRef CSC369_PolicyClockEvict x m m'"
  shows "chances_rel n (second_chance_step n (ps, S) x) m'"
proof -
  note d = q [unfolded chances_rel_def, simplified]
  have P: "placed n (set ps) m" "distinct ps" "S \<subseteq> set ps" using d by blast+
  note im = placed_image [OF P(1)] and inj = placed_inj [OF P(1)]
  have len: "card (set ps) = length ps" using distinct_card [OF P(2)] .
  have pu: "place m p \<in> used m" if "p \<in> set ps" for p using im that by auto
  obtain v m1 m2 where s: "served CSC369_PolicyClockEvict x m v m1" and ok: "frames_ok m1"
    and o: "CSC369_PolicyClockOnRef (unat v) m1 = Inr m2" "policy_view (used m1) m2 m'"
      "frame_of m' = frame_of m1" "used m' = used m1" by (rule page_accessE [OF acc])
  from P(1) show ?thesis
  proof (cases rule: placed_cases [where x = x])
    case hit
    then show ?thesis using chances_old [OF q hit s ok o] by (simp add: second_chance_step_def)
  next
    case fill
    note h = placed_fill [OF P(1) fill s]
    have maps: "map (place m1) ps = map (place m) ps" using h(5) by simp
    have "clock_ring m1 (map (place m1) ps)" unfolding maps using d h(1) clock_ring_cong by blast
    moreover have "frame_ref m1 (place m1 p) \<longleftrightarrow> p \<in> S" if "p \<in> set ps" for p
      using h(1) pu [OF that] h(5) [OF that] d that by (simp add: policy_view_def)
    ultimately have "chances_rel n (ps @ [x], insert x S) m'"
      using chances_new [OF h(3) fill(1) P(2,3) _ _ _ ok o] h(4) by simp
    then show ?thesis using fill len by (simp add: second_chance_step_def)
  next
    case full
    obtain m0 m3 where e: "frames_ok m0" "used m0 = used m" "policy_view (used m) m m0"
      "CSC369_PolicyClockEvict m0 = Inr (v, m3)" "policy_view (used m - {unat v}) m3 m1" "\<not> frame_ref m1 (unat v)"
      "\<And>y. y \<in> set ps \<Longrightarrow> unat v = place m y \<Longrightarrow> memsize m3 = n \<Longrightarrow> placed n (insert x (set ps - {y})) m1 \<and>
        place m1 x = unat v \<and> (\<forall>z \<in> set ps - {y}. place m1 z = place m z)"
      by (rule placed_evict [OF P(1) full s]) blast
    have n: "memsize m0 = n" "0 < n" using e(3) P(1) by (simp_all add: policy_view_def policy_same_def placed_def)
    then have ne: "ps \<noteq> []" using full(2) by auto
    let ?us = "map (place m) ps" and ?R = "\<lambda>p. p \<in> S"
    have bits: "frame_ref m0 (place m p) \<longleftrightarrow> p \<in> S" if "p \<in> set ps" for p
      using e(3) pu [OF that] d that by (simp add: policy_view_def)
    have sm: "clock_victim (frame_ref m0) ?us = place m (clock_victim ?R ps)"
      "clock_rest (frame_ref m0) ?us = map (place m) (clock_rest ?R ps)"
      "clock_cleared (frame_ref m0) ?us = place m ` clock_cleared ?R ps"
      using clock_spec_map [of ps "frame_ref m0" "place m" S] bits ne by blast+
    have us: "?us = butlast ?us @ [place m (last ps)]" using ne by (metis append_butlast_last_id last_map map_is_Nil_conv)
    have r0: "clock_ring m0 ?us" using d e(3) clock_ring_cong by blast
    have "set ?us \<subseteq> used m0" using pu e(2) by auto
    moreover have "clock_hand m0 = Some (Frame_Entry (place m (last ps)))"
      using d ne e(3) by (simp add: policy_view_def policy_same_def)
    moreover have "ring (links m0) ?us" using r0 by (simp add: clock_ring_def)
    ultimately obtain w h where w: "CSC369_PolicyClockEvict m0 =
        Inr (w, (set_refs False (clock_cleared (frame_ref m0) ?us) m0)\<lparr>
        clock_hand := Some (Frame_Entry (clock_victim (frame_ref m0) ?us)), links := h,
        clock_list := clock_at (clock_rest (frame_ref m0) ?us)\<rparr>)"
      "unat w = clock_victim (frame_ref m0) ?us" "ring h (clock_rest (frame_ref m0) ?us)"
      "h (Frame_Entry (clock_victim (frame_ref m0) ?us)) = unlinked"
      "\<forall>q. q \<notin> Frame_Entry ` set ?us \<longrightarrow> h q = links m0 q"
      using ClockEvict_refines [OF e(1) us] by blast
    let ?y = "clock_victim ?R ps" and ?rest = "clock_rest ?R ps" and ?C = "clock_cleared ?R ps"
    have m3: "unat v = place m ?y" "m3 = (set_refs False (place m ` ?C) m0)\<lparr>clock_hand := Some (Frame_Entry (place m ?y)),
        links := h, clock_list := clock_at (map (place m) ?rest)\<rparr>"
      using w(1,2) e(4) unfolding sm by (simp_all only: sum.inject prod.inject)
    have "memsize m3 = n" using n(1) by (simp add: m3(2))
    have rs: "set ?rest = set ps - {?y}" "?y \<in> set ps" "?y \<in> ?C \<or> ?y \<notin> S"
      using clock_rest_set [OF P(2) ne, of ?R] by simp_all
    note p1 = e(7) [OF rs(2) m3(1) \<open>memsize m3 = n\<close>]
    have Csub: "?C \<subseteq> set ps" by (auto simp: clock_cleared_def dest: set_takeWhileD)
    have dist: "distinct ?rest" using clock_rest_distinct [OF P(2)] .
    have "clock_ring m3 (map (place m) ?rest)"
      unfolding clock_ring_def
    proof (intro conjI allI impI)
      show "clock_list m3 = clock_at (map (place m) ?rest)" by (simp add: m3(2))
      show "ring (links m3) (map (place m) ?rest)" using w(3) unfolding sm by (simp add: m3(2))
      fix i assume i: "i \<notin> set (map (place m) ?rest)"
      show "links m3 (Frame_Entry i) = unlinked"
      proof (cases "i = place m ?y")
        case True
        then show ?thesis using w(4) unfolding sm by (simp add: m3(2))
      next
        case False
        then have "i \<notin> set ?us" using i rs(1) by auto
        then have "h (Frame_Entry i) = links m0 (Frame_Entry i)" using w(5) by auto
        then show ?thesis using r0 \<open>i \<notin> set ?us\<close> by (simp add: m3(2) clock_ring_def)
      qed
    qed
    then have r1: "clock_ring m1 (map (place m) ?rest)" using e(5) by (rule clock_ring_cong)
    have maps: "map (place m1) ?rest = map (place m) ?rest" using p1 rs(1) by simp
    have b1: "frame_ref m1 (place m1 p) \<longleftrightarrow> p \<in> S - ?C" if p: "p \<in> set ?rest" for p
    proof -
      have pp: "p \<in> set ps" "p \<noteq> ?y" "place m1 p = place m p" using p rs(1) p1 by auto
      then have ne: "place m p \<noteq> unat v" using rs(2) inj m3(1) by (auto dest: inj_onD)
      then have "frame_ref m1 (place m1 p) = frame_ref m3 (place m p)"
        using e(5) pu [OF pp(1)] pp(3) by (simp add: policy_view_def)
      also have "\<dots> = frame_ref (set_refs False (place m ` ?C) m0) (place m p)" by (simp add: m3(2))
      also have "\<dots> \<longleftrightarrow> place m p \<notin> place m ` ?C \<and> frame_ref m0 (place m p)"
      proof -
        have "place m ` ?C \<subseteq> used m0" "place m p \<in> used m0" using Csub pu pp(1) e(2) by auto
        from frame_ref_set_refs [OF e(1) this(2,1), of False] show ?thesis by simp
      qed
      also have "place m p \<notin> place m ` ?C \<longleftrightarrow> p \<notin> ?C"
        using inj_on_image_mem_iff [OF inj pp(1) Csub] by simp
      finally show ?thesis using bits [OF pp(1)] by blast
    qed
    have "S - ?C \<subseteq> set ?rest" using P(3) rs by auto
    moreover have "x \<notin> set ?rest" using full(1) rs(1) by simp
    moreover have "placed n (insert x (set ?rest)) m1" using p1 rs(1) by simp
    moreover have "unat v = place m1 x" using p1 by simp
    moreover have "clock_ring m1 (map (place m1) ?rest)" using r1 unfolding maps .
    ultimately have "chances_rel n (?rest @ [x], insert x (S - ?C)) m'"
      using chances_new [OF _ _ dist _ _ b1 _ ok o] by blast
    then show ?thesis using full len by (simp add: second_chance_step_def)
  qed
qed

interpretation second_chance: page_algorithm policy_Clock "\<lambda>_. ([], {})" "\<lambda>q x. x \<in> set (fst q)"
  second_chance_step chances_rel
proof
  fix m :: machine and n
  assume m: "frame_of m = Map.empty" "used m = {}" "policy_fresh m" "memsize m = n" "0 < n"
  have "clock_ring m []" using m(3) by (simp add: clock_ring_def clock_at_def policy_fresh_def)
  then show "chances_rel n ([], {}) (CSC369_PolicyInit policy_Clock m)"
    using placed_empty [OF m(1,2,4,5)]
    by (simp add: chances_rel_def policy_Clock_def CSC369_PolicyClockInit_def)
next
  fix m :: machine and n x and q :: "nat list list \<times> nat list set"
  assume "chances_rel n q m"
  then show "frame_of m x \<noteq> None \<longleftrightarrow> x \<in> set (fst q)"
    unfolding chances_rel_def by (cases q) (simp only: prod.case fst_conv, intro placed_present, blast)
next
  fix m m' :: machine and n x and q :: "nat list list \<times> nat list set"
  assume "chances_rel n q m" "page_access (CSC369_PolicyOnRef policy_Clock) (CSC369_PolicyEvict policy_Clock) x m m'"
  then show "chances_rel n (second_chance_step n q x) m'"
    using chances_access [of n "fst q" "snd q"] by (simp add: policy_Clock_def)
qed

section \<open>Properties\<close>

text \<open>
  C12: under Clock the counts of the simulator are those of the second chance algorithm on pages,
  for any accesses of valid addresses and any number of frames up to \<open>2 ^ 28\<close>.
\<close>

theorem clock_is_second_chance:
  assumes "run_conditions policy_Clock env k n swap_size T" "\<forall>a \<in> set as. va_ok (virtual_address a)" "touched as \<subseteq> T"
  shows "\<exists>m rs m'. CSC369_SimulationCreate env k n swap_size (Some policy_Clock) = Inr (Some m) \<and>
     run_accesses policy_Clock as m = Inr (rs, m') \<and>
     hit_count (stats m') = of_nat (hits (\<lambda>q x. x \<in> set (fst q)) (second_chance_step n) ([], {}) (pages_of as)) \<and>
     miss_count (stats m') = of_nat (length as -
       hits (\<lambda>q x. x \<in> set (fst q)) (second_chance_step n) ([], {}) (pages_of as))"
  by (rule second_chance.run_hits [OF assms]) blast

theorem clock_is_second_chance_witness:
  "\<exists>m rs m'. CSC369_SimulationCreate sample_env sample_km 3 8 (Some policy_Clock) = Inr (Some m) \<and>
     run_accesses policy_Clock sample_paging m = Inr (rs, m') \<and> hit_count (stats m') = 2 \<and> miss_count (stats m') = 5"
proof -
  have "hits (\<lambda>q x. x \<in> set (fst q)) (second_chance_step 3) ([], {}) (pages_of sample_paging) = 2"
    "length sample_paging = 7"
    unfolding sample_paging_pages
    by (simp_all add: second_chance_step_def clock_rest_def clock_cleared_def sample_paging_def)
  moreover have "policy_Clock \<in> set CSC369_POLICIES" by (simp add: CSC369_POLICIES_def)
  ultimately show ?thesis
    using clock_is_second_chance [OF sample_paging_conditions sample_paging_va order_refl] by simp
qed

end
