(* ===== verification/PagingRandom.thy ===== *)
theory PagingRandom
  imports Paging
begin

text \<open>
  The policy Rand is random replacement: the pages in memory form an array, and a page that comes
  in when the array is full replaces the one at the next random index.
\<close>

section \<open>The algorithm\<close>

text \<open>The array and the random numbers to come.\<close>

definition random_step :: "nat \<Rightarrow> 'a list \<times> (nat \<Rightarrow> nat) \<Rightarrow> 'a \<Rightarrow> 'a list \<times> (nat \<Rightarrow> nat)" where
  "random_step n q x = (case q of (ps, r) \<Rightarrow>
     if x \<in> set ps then (ps, r)
     else if length ps < n then (ps @ [x], r)
     else (ps[r 0 mod n := x], r \<circ> Suc))"

section \<open>The relation\<close>

definition random_rel :: "nat \<Rightarrow> nat list list \<times> (nat \<Rightarrow> nat) \<Rightarrow> machine \<Rightarrow> bool" where
  "random_rel n q m \<longleftrightarrow> (case q of (ps, r) \<Rightarrow>
     placed n (set ps) m \<and> distinct ps \<and> (\<forall>i < length ps. place m (ps ! i) = i) \<and>
     r = (\<lambda>i. rnd m (rnd_calls m + i)))"

lemma random_rel_cong:
  assumes "random_rel n q m" "policy_view A m m'" "used m' = used m" "frame_of m' = frame_of m"
  shows "random_rel n q m'"
proof -
  have "rnd m' = rnd m" "rnd_calls m' = rnd_calls m" using assms(2) by (simp_all add: policy_view_def policy_same_def)
  then show ?thesis
    using assms(1) placed_cong [OF _ assms(4,3,2)] place_cong [OF assms(4)] unfolding random_rel_def
    by (simp split: prod.splits)
qed

lemma random_served:
  assumes q: "random_rel n (ps, r) m" and s: "served CSC369_PolicyRandEvict x m v m'" and le: "n \<le> 2 ^ 28"
  shows "random_rel n (random_step n (ps, r) x) m'"
proof -
  note d = q [unfolded random_rel_def, simplified]
  have P: "placed n (set ps) m" "distinct ps" using d by blast+
  have len: "card (set ps) = length ps" using distinct_card [OF P(2)] .
  from P(1) show ?thesis
  proof (cases rule: placed_cases [where x = x])
    case hit
    note h = placed_hit [OF P(1) hit s]
    show ?thesis using random_rel_cong [OF q h(2,4,3)] hit by (simp add: random_step_def)
  next
    case fill
    note h = placed_fill [OF P(1) fill s]
    have "used m' = insert (unat v) (used m)" using s by (simp add: served_def)
    have "unat v = length ps"
    proof -
      have "used m' = {..<card (insert x (set ps))}" using h(3) by (simp add: placed_def)
      then have "used m' = insert (length ps) (used m)" using P(1) fill len by (auto simp: placed_def)
      moreover have "length ps \<notin> used m" using P(1) len by (simp add: placed_def)
      moreover have "unat v \<notin> used m"
      proof
        assume "unat v \<in> used m"
        then obtain y where "y \<in> set ps" "place m y = unat v" using placed_image [OF P(1)] by (metis imageE)
        then have "place m' y = place m' x" "y \<in> insert x (set ps)" "x \<in> insert x (set ps)" using h(4,5) by simp_all
        then have "y = x" using placed_inj [OF h(3)] by (metis inj_onD)
        then show False using fill(1) \<open>y \<in> set ps\<close> by simp
      qed
      ultimately show ?thesis using \<open>used m' = insert (unat v) (used m)\<close> by blast
    qed
    then have "place m' ((ps @ [x]) ! i) = i" if "i < length (ps @ [x])" for i
      using h(4,5) d that by (cases "i < length ps") (auto simp: nth_append)
    moreover have "rnd m' = rnd m" "rnd_calls m' = rnd_calls m" using h(1) by (simp_all add: policy_view_def policy_same_def)
    ultimately have "random_rel n (ps @ [x], r) m'" using h(3) fill(1) d unfolding random_rel_def by simp
    then show ?thesis using fill len by (simp add: random_step_def)
  next
    case full
    obtain m0 m1 where e: "frames_ok m0" "used m0 = used m" "policy_view (used m) m m0"
      "CSC369_PolicyRandEvict m0 = Inr (v, m1)" "policy_view (used m - {unat v}) m1 m'" "\<not> frame_ref m' (unat v)"
      "\<And>y. y \<in> set ps \<Longrightarrow> unat v = place m y \<Longrightarrow> memsize m1 = n \<Longrightarrow> placed n (insert x (set ps - {y})) m' \<and>
        place m' x = unat v \<and> (\<forall>z \<in> set ps - {y}. place m' z = place m z)"
      by (rule placed_evict [OF P(1) full s]) blast
    have m0: "memsize m0 = n" "rnd m0 = rnd m" "rnd_calls m0 = rnd_calls m" and n: "0 < n"
      using e(3) P(1) by (simp_all add: policy_view_def policy_same_def placed_def)
    let ?i = "r 0 mod n"
    have i: "?i < n" using n by simp
    have m1: "v = of_nat ?i" "m1 = m0\<lparr>rnd_calls := Suc (rnd_calls m0)\<rparr>"
      using e(4) m0 n d by (simp_all add: CSC369_PolicyRandEvict_def)
    have v: "unat v = ?i" unfolding m1(1) using i le by (intro unat_of_nat_u64) simp
    have il: "?i < length ps" using i full len by simp
    let ?y = "ps ! ?i"
    have y: "?y \<in> set ps" "unat v = place m ?y" using il d v by simp_all
    have "memsize m1 = n" using m0(1) m1(2) by simp
    note p1 = e(7) [OF y this]
    have upd: "set (ps[?i := x]) = insert x (set ps - {?y})" "distinct (ps[?i := x])"
      using set_update_distinct [OF P(2) il] distinct_list_update [OF P(2)] full(1) by auto
    have "place m' (ps[?i := x] ! j) = j" if j: "j < length (ps[?i := x])" for j
    proof (cases "j = ?i")
      case True
      then show ?thesis using p1 v il by simp
    next
      case False
      then have "ps ! j \<in> set ps - {?y}" using P(2) j il by (simp add: nth_eq_iff_index_eq)
      then show ?thesis using p1 d j False by simp
    qed
    moreover have "rnd m' = rnd m" "rnd_calls m' = Suc (rnd_calls m)"
      using e(5) m1(2) m0 by (simp_all add: policy_view_def policy_same_def)
    moreover have "r \<circ> Suc = (\<lambda>i. rnd m (Suc (rnd_calls m) + i))" using d by (auto simp: fun_eq_iff)
    ultimately have "random_rel n (ps[?i := x], r \<circ> Suc) m'" using p1 upd unfolding random_rel_def by simp
    then show ?thesis using full len by (simp add: random_step_def)
  qed
qed

interpretation random_pages: page_algorithm policy_Rand "\<lambda>r. ([], r)" "\<lambda>q x. x \<in> set (fst q)"
  random_step random_rel
proof
  fix m :: machine and n
  assume m: "frame_of m = Map.empty" "used m = {}" "policy_fresh m" "memsize m = n" "0 < n"
  show "random_rel n ([], rnd m) (CSC369_PolicyInit policy_Rand m)"
    using placed_empty [OF m(1,2,4,5)] m(3)
    by (simp add: random_rel_def policy_Rand_def CSC369_PolicyRandInit_def policy_fresh_def)
next
  fix m :: machine and n x and q :: "nat list list \<times> (nat \<Rightarrow> nat)"
  assume "random_rel n q m"
  then show "frame_of m x \<noteq> None \<longleftrightarrow> x \<in> set (fst q)"
    unfolding random_rel_def by (cases q) (simp only: prod.case fst_conv, intro placed_present, blast)
next
  fix m m' :: machine and n x and q :: "nat list list \<times> (nat \<Rightarrow> nat)"
  assume q: "random_rel n q m" "n \<le> 2 ^ 28"
    and "page_access (CSC369_PolicyOnRef policy_Rand) (CSC369_PolicyEvict policy_Rand) x m m'"
  then obtain v m1 m2 where s: "served CSC369_PolicyRandEvict x m v m1" "CSC369_PolicyRandOnRef (unat v) m1 = Inr m2"
    "policy_view (used m1) m2 m'" "frame_of m' = frame_of m1" "used m' = used m1"
    by (elim page_accessE) (simp add: policy_Rand_def)
  then have "policy_view (used m1) m1 m'" by (simp add: CSC369_PolicyRandOnRef_def)
  then show "random_rel n (random_step n q x) m'"
    using random_rel_cong [OF random_served [OF _ s(1) q(2)]] q(1) s(4,5) by (cases q) simp
qed

section \<open>Properties\<close>

text \<open>
  C15: under Rand the counts of the simulator are those of random replacement on pages, for any
  accesses, any number of frames and whatever numbers \<open>random()\<close> returns.
\<close>

theorem rand_is_random_replacement:
  assumes "run_conditions policy_Rand env k n swap_size T" "\<forall>a \<in> set as. va_ok (virtual_address a)" "touched as \<subseteq> T"
  shows "\<exists>m rs m'. CSC369_SimulationCreate env k n swap_size (Some policy_Rand) = Inr (Some m) \<and>
     run_accesses policy_Rand as m = Inr (rs, m') \<and>
     hit_count (stats m') = of_nat (hits (\<lambda>q x. x \<in> set (fst q)) (random_step n) ([], random_values env) (pages_of as)) \<and>
     miss_count (stats m') = of_nat (length as -
       hits (\<lambda>q x. x \<in> set (fst q)) (random_step n) ([], random_values env) (pages_of as))"
  by (rule random_pages.run_hits [OF assms]) blast

theorem rand_is_random_replacement_witness:
  "\<exists>m rs m'. CSC369_SimulationCreate sample_env sample_km 3 8 (Some policy_Rand) = Inr (Some m) \<and>
     run_accesses policy_Rand sample_paging m = Inr (rs, m') \<and> hit_count (stats m') = 2 \<and> miss_count (stats m') = 5"
proof -
  have "hits (\<lambda>q x. x \<in> set (fst q)) (random_step 3) ([], random_values sample_env) (pages_of sample_paging) = 2"
    "length sample_paging = 7"
    unfolding sample_paging_pages
    by (simp_all add: random_step_def sample_env_def sample_paging_def)
  moreover have "policy_Rand \<in> set CSC369_POLICIES" by (simp add: CSC369_POLICIES_def)
  ultimately show ?thesis
    using rand_is_random_replacement [OF sample_paging_conditions sample_paging_va order_refl] by simp
qed

end
