(* ===== verification/PagingPolicies.thy ===== *)
theory PagingPolicies
  imports PagingQueues PagingClock PagingRandom
begin

text \<open>
  The four policies of the table and their algorithms on pages, in one place: the hits that the
  simulator counts under a policy are those of the algorithm its name stands for.
\<close>

definition textbook_hits :: "string \<Rightarrow> (nat \<Rightarrow> nat) \<Rightarrow> nat \<Rightarrow> 'a list \<Rightarrow> nat" where
  "textbook_hits name r n xs =
     (if name = ''Rand'' then hits (\<lambda>q x. x \<in> set (fst q)) (random_step n) ([], r) xs
      else if name = ''RR'' then hits (\<lambda>q x. x \<in> set q) (fifo_step n) [] xs
      else if name = ''Clock'' then hits (\<lambda>q x. x \<in> set (fst q)) (second_chance_step n) ([], {}) xs
      else hits (\<lambda>q x. x \<in> set (fst q) \<union> set (snd q)) (two_queue_step n) ([], []) xs)"

lemma textbook_hits_le: "textbook_hits name r n xs \<le> length xs"
  by (simp add: textbook_hits_def hits_le)

lemma policy_hits:
  assumes "pol \<in> set CSC369_POLICIES"
  shows "textbook_hits (policy_name pol) r n xs =
    (if pol = policy_Rand then hits (\<lambda>q x. x \<in> set (fst q)) (random_step n) ([], r) xs
     else if pol = policy_RR then hits (\<lambda>q x. x \<in> set q) (fifo_step n) [] xs
     else if pol = policy_Clock then hits (\<lambda>q x. x \<in> set (fst q)) (second_chance_step n) ([], {}) xs
     else hits (\<lambda>q x. x \<in> set (fst q) \<union> set (snd q)) (two_queue_step n) ([], []) xs)"
proof -
  have "policy_name policy_Rand = ''Rand''" "policy_name policy_RR = ''RR''"
    "policy_name policy_Clock = ''Clock''" "policy_name policy_S2Q = ''S2Q''"
    by (simp_all add: policy_Rand_def policy_RR_def policy_Clock_def policy_S2Q_def)
  moreover from this have "policy_Rand \<noteq> policy_RR" "policy_Rand \<noteq> policy_Clock" "policy_Rand \<noteq> policy_S2Q"
    "policy_RR \<noteq> policy_Clock" "policy_RR \<noteq> policy_S2Q" "policy_Clock \<noteq> policy_S2Q" by auto
  moreover have "pol = policy_Rand \<or> pol = policy_RR \<or> pol = policy_Clock \<or> pol = policy_S2Q"
    using assms by (simp add: CSC369_POLICIES_def)
  ultimately show ?thesis unfolding textbook_hits_def by (elim disjE) simp_all
qed

lemma policy_run_counts:
  assumes c: "run_conditions pol env k n swap_size T"
    and as: "\<forall>a \<in> set as. va_ok (virtual_address a)" "touched as \<subseteq> T"
  obtains m rs m' where "CSC369_SimulationCreate env k n swap_size (Some pol) = Inr (Some m)"
    "run_accesses pol as m = Inr (rs, m')"
    "hit_count (stats m') = of_nat (textbook_hits (policy_name pol) (random_values env) n (pages_of as))"
    "miss_count (stats m') = of_nat (length as - textbook_hits (policy_name pol) (random_values env) n (pages_of as))"
    "ref_count (stats m') = of_nat (length as)"
proof -
  have pol: "pol \<in> set CSC369_POLICIES" using c by (simp add: run_conditions_def)
  note h = policy_hits [OF pol, of "random_values env" n "pages_of as"]
  consider "pol = policy_Rand" | "pol \<noteq> policy_Rand" "pol = policy_RR"
    | "pol \<noteq> policy_Rand" "pol \<noteq> policy_RR" "pol = policy_Clock"
    | "pol \<noteq> policy_Rand" "pol \<noteq> policy_RR" "pol \<noteq> policy_Clock" "pol = policy_S2Q"
    using pol unfolding CSC369_POLICIES_def by force
  then show thesis
  proof cases
    case 1
    show thesis
      by (rule random_pages.run_hits [OF c [unfolded 1] as]) (rule that, simp_all add: 1 h [unfolded 1])
  next
    case 2
    show thesis
      by (rule fifo.run_hits [OF c [unfolded 2(2)] as])
        (rule that, insert 2(1), simp_all add: 2(2) h [unfolded 2(2)])
  next
    case 3
    show thesis
      by (rule second_chance.run_hits [OF c [unfolded 3(3)] as])
        (rule that, insert 3(1,2), simp_all add: 3(3) h [unfolded 3(3)])
  next
    case 4
    show thesis
      by (rule two_queues.run_hits [OF c [unfolded 4(4)] as])
        (rule that, insert 4(1-3), simp_all add: 4(4) h [unfolded 4(4)])
  qed
qed

end
