(* ===== verification/Output.thy ===== *)
theory Output
  imports Teardown PagingPolicies Complex_Main
begin

text \<open>
  What the program prints: the messages of the logger (\<open>csc369_logger.h\<close>), the statistics of a
  run (\<open>LogStats\<close>) and the usage text.  A message is the string that reaches the standard error
  stream.  The two rates are divisions of counters in double precision; here they are quotients
  of real numbers, and not a number when the divisor is zero.
\<close>

section \<open>The logger\<close>

definition CSC369_DEBUG_ENABLE :: int where
  "CSC369_DEBUG_ENABLE = 0"

definition CSC369_TRACE_ENABLE :: int where
  "CSC369_TRACE_ENABLE = 0"

text \<open>The last occurrence of a character, as \<open>strrchr\<close> of the C library finds it.\<close>

fun strrchr :: "string \<Rightarrow> char \<Rightarrow> string option" where
  "strrchr [] c = None"
| "strrchr (x # xs) c = (case strrchr xs c of Some t \<Rightarrow> Some t | None \<Rightarrow> if x = c then Some (x # xs) else None)"

definition CSC369_LOG_BASENAME :: "string \<Rightarrow> string" where
  "CSC369_LOG_BASENAME file = (case strrchr file (CHR ''/'') of Some t \<Rightarrow> tl t | None \<Rightarrow> file)"

text \<open>A number in decimal, of at most 20 digits.\<close>

definition show_decimal :: "nat \<Rightarrow> string" where
  "show_decimal n = show_digits 20 10 n"

text \<open>\<open>"[%s]\t[%s:%d] "\<close> with the category, the file and the line.\<close>

definition CSC369_LOG_PREFIX :: "string \<Rightarrow> string \<Rightarrow> nat \<Rightarrow> string" where
  "CSC369_LOG_PREFIX category file line =
     ''['' @ category @ '']'' @ [CHR 0x09] @ ''['' @ CSC369_LOG_BASENAME file @ '':'' @ show_decimal line @ ''] ''"

definition log_message :: "string \<Rightarrow> string \<Rightarrow> nat \<Rightarrow> string \<Rightarrow> string" where
  "log_message category file line msg = CSC369_LOG_PREFIX category file line @ msg @ [newline]"

definition CSC369_LOG_DEBUG :: "string \<Rightarrow> nat \<Rightarrow> string \<Rightarrow> string" where
  "CSC369_LOG_DEBUG file line msg = (if CSC369_DEBUG_ENABLE \<noteq> 0 then log_message ''DEBUG'' file line msg else [])"

definition CSC369_LOG_TRACE :: "string \<Rightarrow> nat \<Rightarrow> string \<Rightarrow> string" where
  "CSC369_LOG_TRACE file line msg = (if CSC369_TRACE_ENABLE \<noteq> 0 then log_message ''TRACE'' file line msg else [])"

definition CSC369_LOG_INFO :: "string \<Rightarrow> nat \<Rightarrow> string \<Rightarrow> string" where
  "CSC369_LOG_INFO file line msg = log_message ''INFO'' file line msg"

definition CSC369_LOG_WARNING :: "string \<Rightarrow> nat \<Rightarrow> string \<Rightarrow> string" where
  "CSC369_LOG_WARNING file line msg = log_message ''WARN'' file line msg"

definition CSC369_LOG_ERROR :: "string \<Rightarrow> nat \<Rightarrow> string \<Rightarrow> string" where
  "CSC369_LOG_ERROR file line msg = log_message ''ERROR'' file line msg"

definition CSC369_LOG_ERRNO :: "(nat \<Rightarrow> string) \<Rightarrow> nat \<Rightarrow> string \<Rightarrow> nat \<Rightarrow> string \<Rightarrow> string" where
  "CSC369_LOG_ERRNO strerror errno file line func =
     log_message ''ERROR'' file line (func @ '' failed ('' @ show_decimal errno @ ''): '' @ strerror errno)"

lemma strrchr_split:
  "strrchr s c = (if c \<in> set s then Some (c # rev (takeWhile (\<lambda>x. x \<noteq> c) (rev s))) else None)"
proof (induction s)
  case (Cons x xs)
  show ?case
  proof (cases "c \<in> set xs")
    case True
    then have "takeWhile (\<lambda>y. y \<noteq> c) (rev xs @ [x]) = takeWhile (\<lambda>y. y \<noteq> c) (rev xs)"
      by (intro takeWhile_append1 [of c]) simp_all
    then show ?thesis using Cons True by simp
  next
    case False
    then have "takeWhile (\<lambda>y. y \<noteq> c) (rev xs @ [x]) = rev xs @ takeWhile (\<lambda>y. y \<noteq> c) [x]"
      by (intro takeWhile_append2) auto
    then show ?thesis using Cons False by (cases "x = c") simp_all
  qed
qed simp

text \<open>The base name is what follows the last slash: it has none, and the directory ends in one.\<close>

lemma basename_split:
  "CHR ''/'' \<notin> set (CSC369_LOG_BASENAME file)"
  "\<exists>dir. file = dir @ CSC369_LOG_BASENAME file \<and> (dir = [] \<or> last dir = CHR ''/'')"
proof -
  let ?c = "CHR ''/''" and ?t = "takeWhile (\<lambda>x. x \<noteq> CHR ''/'') (rev file)"
  have b: "CSC369_LOG_BASENAME file = rev ?t"
  proof (cases "?c \<in> set file")
    case False
    have "?t = rev file" unfolding takeWhile_eq_all_conv using False by auto
    then have "rev ?t = file" by (simp only: rev_rev_ident)
    then show ?thesis using False by (simp only: CSC369_LOG_BASENAME_def strrchr_split if_False option.case)
  qed (simp add: CSC369_LOG_BASENAME_def strrchr_split)
  show "?c \<notin> set (CSC369_LOG_BASENAME file)" unfolding b by (auto dest: set_takeWhileD)
  let ?d = "dropWhile (\<lambda>x. x \<noteq> CHR ''/'') (rev file)"
  have "file = rev (?t @ ?d)" by simp
  then have "file = rev ?d @ rev ?t" by (simp del: takeWhile_dropWhile_id)
  moreover have "last (rev ?d) = ?c" if "?d \<noteq> []" using that hd_dropWhile [OF that] by (simp add: last_rev)
  ultimately show "\<exists>dir. file = dir @ CSC369_LOG_BASENAME file \<and> (dir = [] \<or> last dir = ?c)"
    unfolding b by (intro exI [of _ "rev ?d"]) auto
qed

section \<open>The statistics\<close>

text \<open>
  One message of \<open>LogStats\<close>: its line, its text, and the counter or the quotient of two counters,
  times 100, that is printed after it.
\<close>

datatype stat_message = Count_Message nat string u32 | Rate_Message nat string u32 u32

definition LogStats :: "CSC369_MMStats \<Rightarrow> stat_message list" where
  "LogStats st =
     [Count_Message 189 ''Total reference count: '' (ref_count st),
      Count_Message 190 ''Hit count: '' (hit_count st),
      Count_Message 191 ''Miss count: '' (miss_count st),
      Count_Message 192 ''Clean evictions: '' (evict_clean_count st),
      Count_Message 193 ''Dirty evictions: '' (evict_dirty_count st),
      Rate_Message 194 ''Hit rate: '' (hit_count st) (ref_count st),
      Rate_Message 196 ''Miss rate: '' (miss_count st) (ref_count st)]"

text \<open>The printed value of a rate; \<open>None\<close> stands for not a number or an infinity.\<close>

fun rate_value :: "stat_message \<Rightarrow> real option" where
  "rate_value (Rate_Message line txt a b) = (if b = 0 then None else Some (real (unat a) / real (unat b) * 100))"
| "rate_value (Count_Message line txt a) = None"

text \<open>The text of a counter.\<close>

fun count_text :: "stat_message \<Rightarrow> string option" where
  "count_text (Count_Message line txt a) =
     Some (CSC369_LOG_INFO ''csc369_simulation.c'' line (txt @ show_decimal (unat a)))"
| "count_text (Rate_Message line txt a b) = None"

text \<open>A printed counter reads back as its value.\<close>

lemma show_decimal_value:
  "digits_value 10 (show_decimal (unat (c :: u32))) = unat c"
proof -
  have "unat c < 2 ^ 32" using unsigned_less [of c] by simp
  then have "unat c < 10 ^ 20" by simp
  then show ?thesis unfolding show_decimal_def by (intro show_digits_value) simp_all
qed

lemma show_decimal_inj: "show_decimal (unat (a :: u32)) = show_decimal (unat b) \<Longrightarrow> a = b"
  by (metis show_decimal_value word_unat_eq_iff)

text \<open>An empty trace has no rates: the program divides zero by zero.\<close>

lemma no_accesses_no_rates: "map rate_value (drop 5 (LogStats initial_stats)) = [None, None]"
  by (simp add: LogStats_def initial_stats_def)

section \<open>The usage text\<close>

definition usage :: "string \<Rightarrow> string" where
  "usage prog =
     ''USAGE: '' @ prog @ '' -f tracefile -m memorysize -s swapsize -a algorithm [-v num -p]'' @ [newline] @
     [CHR 0x09] @ ''-f tracefile  - path to trace file to simulate'' @ [newline] @
     [CHR 0x09] @ ''-m memorysize - number of physical memory frames'' @ [newline] @
     [CHR 0x09] @ ''-s swapsize   - number of frames in swapfile'' @ [newline] @
     [CHR 0x09] @ ''-a algorithm  - replacement algorithm to use, one of:'' @ [newline] @
     concat (map (\<lambda>p. [CHR 0x09, CHR 0x09] @ policy_name p @ [newline]) CSC369_POLICIES)"

section \<open>Properties\<close>

text \<open>
  C17: the rates that the program prints after a run of at least one access are those of the
  algorithm its policy is named after, as long as the 32-bit counters do not wrap around, and
  they add up to 100.
\<close>

theorem printed_rates:
  assumes c: "run_conditions pol env k n swap_size T"
    and as: "\<forall>a \<in> set as. va_ok (virtual_address a)" "touched as \<subseteq> T" "as \<noteq> []" "length as < 2 ^ 32"
  shows "\<exists>m rs m'. CSC369_SimulationCreate env k n swap_size (Some pol) = Inr (Some m) \<and>
     run_accesses pol as m = Inr (rs, m') \<and>
     (let h = real (textbook_hits (policy_name pol) (random_values env) n (pages_of as)) / real (length as) * 100
      in map rate_value (drop 5 (LogStats (stats m'))) = [Some h, Some (100 - h)])"
proof -
  have pol: "pol \<in> set CSC369_POLICIES" using c by (simp add: run_conditions_def)
  let ?h = "textbook_hits (policy_name pol) (random_values env) n (pages_of as)" and ?l = "length as"
  obtain m rs m' where m: "CSC369_SimulationCreate env k n swap_size (Some pol) = Inr (Some m)"
    "run_accesses pol as m = Inr (rs, m')" "hit_count (stats m') = of_nat ?h" "miss_count (stats m') = of_nat (?l - ?h)"
    "ref_count (stats m') = of_nat ?l"
    by (rule policy_run_counts [OF c as(1,2)])
  have le: "?h \<le> ?l" using textbook_hits_le [of "policy_name pol" "random_values env" n "pages_of as"] by simp
  have u: "unat (of_nat i :: u32) = i" if "i \<le> ?l" for i
    using that as(4) by (simp add: unat_of_nat take_bit_nat_eq_self)
  have "(of_nat ?l :: u32) \<noteq> 0" using u [of ?l] as(3) by (metis length_greater_0_conv less_irrefl order_refl unat_0)
  moreover have "real (?l - ?h) / real ?l * 100 = 100 - real ?h / real ?l * 100"
    using le as(3) by (simp add: of_nat_diff diff_divide_distrib)
  ultimately have "map rate_value (drop 5 (LogStats (stats m'))) =
      [Some (real ?h / real ?l * 100), Some (100 - real ?h / real ?l * 100)]"
    using m(3-5) u [OF le] u [of "?l - ?h"] u [of ?l] by (simp add: LogStats_def)
  then show ?thesis using m(1,2) unfolding Let_def by (intro exI conjI)
qed

theorem printed_rates_witness:
  "\<exists>m rs m'. CSC369_SimulationCreate sample_env sample_km 3 8 (Some policy_RR) = Inr (Some m) \<and>
     run_accesses policy_RR sample_paging m = Inr (rs, m') \<and>
     map rate_value (drop 5 (LogStats (stats m'))) = [Some (100 / 7), Some (600 / 7)]"
proof -
  have n: "policy_name policy_RR = ''RR''" by (simp add: policy_RR_def)
  have h: "textbook_hits ''RR'' (random_values sample_env) 3 (pages_of sample_paging) = 1" "length sample_paging = 7"
    unfolding sample_paging_pages by (simp_all add: textbook_hits_def fifo_step_def sample_paging_def)
  have "sample_paging \<noteq> []" "length sample_paging < 2 ^ 32" using h(2) by auto
  from printed_rates [OF sample_paging_conditions [OF sample_RR] sample_paging_va order_refl this]
  show ?thesis unfolding n h Let_def by simp
qed

end
