(* ===== verification/LostPage.thy ===== *)
theory LostPage
  imports Reach
begin

text \<open>
  A page that was evicted while the swap file was full: its entry says that it is in the swap
  file but has no offset there (\<open>lost_entry\<close>).  Page-out, eviction and the choice of a frame keep
  working in such a machine and leave the entry as it is, under every policy, and a fault on the
  page aborts.
\<close>

definition lost_entry :: "csc369_pte \<Rightarrow> bool" where
  "lost_entry e \<longleftrightarrow> \<not> valid e \<and> on_swap e \<and> swap_offset e = CSC369_INVALID_SWAP"

section \<open>The eviction that loses the page\<close>

lemma HandleEviction_full:
  assumes "pte_mem (heap m) p = Some e" "swap_offset e = CSC369_INVALID_SWAP" "swap_wf (mswap m)"
    "bm_used (swapmap (mswap m)) = {..< unat (nbits (swapmap (mswap m)))}"
  shows "\<exists>m' d. CSC369_MMHandleEviction (Some p) m = Inr m' \<and> mswap m' = mswap m \<and>
     pte_mem (heap m') p = Some d \<and> lost_entry d"
proof -
  have "CSC369_SwapPageOut (mswap m) (physmem m) (ucast (frame_number e)) (swap_offset e) =
      Inr (CSC369_INVALID_SWAP, mswap m)"
    unfolding assms(2) by (rule SwapPageOut_full [OF assms(3,4)])
  then show ?thesis
    unfolding CSC369_MMHandleEviction_def Let_def count_evict_def [symmetric]
    using assms(1,2) by (simp add: pte_getter_defs with_heap_put lost_entry_def)
qed

section \<open>The machine afterwards\<close>

text \<open>What the choice of a frame needs; nothing is asked of the pages that are not resident.\<close>

definition frames_work :: "CSC369_Policy \<Rightarrow> machine \<Rightarrow> bool" where
  "frames_work pol m \<longleftrightarrow> frames_ok m \<and> policy_inv pol (used m) m \<and> swap_wf (mswap m) \<and>
     length (physmem m) = 16 * memsize m \<and> 0 < memsize m \<and> memsize m \<le> 2 ^ 28"

lemma BitmapAlloc_returns:
  assumes "bm_wf b"
  shows "\<exists>r. CSC369_BitmapAlloc b = Inr r"
proof (cases "card (bm_used b) < unat (nbits b)")
  case True
  then show ?thesis using BitmapAlloc_some [OF assms] by metis
next
  case False
  have "bm_used b \<subseteq> {..< unat (nbits b)}" by (auto simp: bm_used_def)
  then have "bm_used b = {..< unat (nbits b)}" using False by (intro card_subset_eq) (auto dest: card_mono [rotated])
  then show ?thesis using BitmapAlloc_none [OF assms] by blast
qed

lemma sixteen_valid: "of_nat i * 16 \<noteq> CSC369_INVALID_SWAP"
proof
  assume "of_nat i * 16 = CSC369_INVALID_SWAP"
  then have "bit (of_nat i * 16 :: u64) 0 = bit (-1 :: u64) 0" by (simp only: CSC369_INVALID_SWAP_def)
  then show False by (simp add: bit_0)
qed

lemma swap_slot_returns:
  assumes "swap_wf sw"
  obtains slot sw' where "swap_slot sw offset = Inr (slot, sw')" "slot \<noteq> Some CSC369_INVALID_SWAP"
proof (cases "offset = CSC369_INVALID_SWAP")
  case True
  obtain idx bm where "CSC369_BitmapAlloc (swapmap sw) = Inr (idx, bm)"
    using BitmapAlloc_returns [of "swapmap sw"] assms by (auto simp: swap_wf_def)
  then show thesis using that True sixteen_valid by (cases idx) (simp_all add: swap_slot_def)
next
  case False
  then show thesis using that by (simp add: swap_slot_def)
qed

lemma SwapPageOut_returns:
  assumes "swap_wf sw" "unat f < n" "n \<le> 2 ^ 28" "length pm = 16 * n"
  obtains s sw' where "CSC369_SwapPageOut sw pm f offset = Inr (s, sw')"
proof -
  obtain slot sw1 where s: "swap_slot sw offset = Inr (slot, sw1)" "slot \<noteq> Some CSC369_INVALID_SWAP"
    by (rule swap_slot_returns [OF assms(1)])
  have f: "frame_base f = 16 * unat f" using assms(2,3) by (intro frame_base_unat) simp
  show thesis
  proof (cases slot)
    case None
    then show thesis using that s(1) by (simp add: CSC369_SwapPageOut_def)
  next
    case (Some o')
    show thesis
    proof (cases "file_lseek o' = o'")
      case True
      obtain k g where "file_write (file_limit sw1) (swapfile sw1) (unat o') (slice pm (16 * unat f) 16) = (k, g)"
        by fastforce
      then show thesis using that s Some True f assms(2,4)
        by (cases "k = 16") (simp_all add: CSC369_SwapPageOut_def Let_def)
    next
      case False
      then have "file_lseek o' = -1" by (simp add: file_lseek_def split: if_splits)
      then show thesis using that s Some False by (simp add: CSC369_SwapPageOut_def)
    qed
  qed
qed

lemma HandleEviction_returns:
  assumes q: "pte_mem (heap m) q = Some d" and f: "unat (frame_number d) < memsize m"
    and m: "swap_wf (mswap m)" "length (physmem m) = 16 * memsize m" "memsize m \<le> 2 ^ 28"
  shows "\<exists>m'. CSC369_MMHandleEviction (Some q) m = Inr m' \<and> frames m' = frames m \<and>
     (\<forall>p. p \<noteq> q \<longrightarrow> pte_mem (heap m') p = pte_mem (heap m) p)"
proof -
  have "unat (frame_number d) < 2 ^ 28" using f m(3) by simp
  then have "unat (ucast (frame_number d) :: u32) < memsize m" using f ucast_frame by simp
  then obtain s sw where "CSC369_SwapPageOut (mswap m) (physmem m) (ucast (frame_number d)) (swap_offset d) = Inr (s, sw)"
    by (rule SwapPageOut_returns [OF m(1) _ m(3,2)])
  then show ?thesis
    unfolding CSC369_MMHandleEviction_def Let_def count_evict_def [symmetric]
    using q by (simp add: pte_getter_defs with_heap_put)
qed

lemma choose_frame_returns:
  assumes "replacement_policy init on_ref evict pinv"
    and ok: "frames_ok m" "pinv (used m) m" and m: "swap_wf (mswap m)" "length (physmem m) = 16 * memsize m"
      "0 < memsize m" "memsize m \<le> 2 ^ 28"
    and p: "p \<notin> frame_ptes m (used m)"
  shows "\<exists>f m'. choose_frame evict m = Inr (f, m') \<and> unat f < length (frames m') \<and>
     pte_mem (heap m') p = pte_mem (heap m) p"
proof -
  have fr: "length (frames m) = memsize m" "frame_count m = memsize m" using ok(1) by (simp_all add: frames_ok_def)
  from FindFreeFrame_spec [OF fr] consider
    (free) i where "FindFreeFrame m = Inr (Some i)" "i < memsize m"
    | (full) "FindFreeFrame m = Inr None" "used m = {..<memsize m}" by blast
  then show ?thesis
  proof cases
    case free
    have "unat (of_nat i :: u64) = i" using free m(4) by (intro unat_of_nat_u64) simp
    then show ?thesis using free fr by (simp add: choose_frame_def)
  next
    case full
    obtain v m1 where e: "evict m = Inr (v, m1)" "unat v < memsize m" "core_eq m m1"
      using replacement_policy.evict_ok [OF assms(1) ok(1) m(3,4) full(2)] ok(2) full(2) by auto
    note c = e(3) [unfolded core_eq_def]
    have v: "unat v \<in> used m" using e(2) full(2) by simp
    obtain q d where q: "pte (frames m ! unat v) = Some q" "pte_mem (heap m) q = Some d" "unat (frame_number d) = unat v"
      by (rule frames_ok_pte [OF ok(1) v])
    have rc: "pte_mem (heap m1) a = pte_mem (heap m) a \<or> (\<exists>i \<in> used m. pte (frames m ! i) = Some a \<and>
        (\<exists>e b. pte_mem (heap m) a = Some e \<and> pte_mem (heap m1) a = Some (e\<lparr>reference := b\<rparr>)))" for a
      using c by (simp add: ref_change_def)
    obtain d1 where d1: "pte_mem (heap m1) q = Some d1" "frame_number d1 = frame_number d"
      using rc [of q] q(2) by auto
    have p1: "pte_mem (heap m1) p = pte_mem (heap m) p" using rc [of p] p by (auto simp: frame_ptes_def)
    have "unat (frame_number d1) < memsize m1" "swap_wf (mswap m1)" "length (physmem m1) = 16 * memsize m1"
      "memsize m1 \<le> 2 ^ 28" using c m d1(2) q(3) e(2) by simp_all
    from HandleEviction_returns [OF d1(1) this] obtain m2 where m2: "CSC369_MMHandleEviction (Some q) m1 = Inr m2"
      "frames m2 = frames m1" "\<forall>a. a \<noteq> q \<longrightarrow> pte_mem (heap m2) a = pte_mem (heap m1) a" by blast
    have "p \<noteq> q" using p q(1) v by (auto simp: frame_ptes_def)
    then have "pte_mem (heap m2) p = pte_mem (heap m) p" using m2(3) p1 by simp
    then show ?thesis using full(1) e(1,2) c fr q(1) m2(1,2) by (simp add: choose_frame_def)
  qed
qed

section \<open>The next fault on the page\<close>

lemma fill_lost:
  assumes "pte_mem (heap m) p = Some d" "lost_entry d"
  shows "fill_frame (Some p) f m = Inl AssertFail"
  using assms by (simp add: fill_frame_def pte_getter_defs CSC369_SwapPageIn_def lost_entry_def)

lemma lost_page_fault:
  assumes pol: "pol \<in> set CSC369_POLICIES" and w: "frames_work pol m"
    and d: "pte_mem (heap m) p = Some d" "lost_entry d" and p: "p \<notin> frame_ptes m (used m)"
    and a: "CSC369_PageTableAllocate (mm_root m) (virtual_address a) (heap m) = Inr (Some p, heap m)"
  shows "CSC369_MMGetFrameNumber (CSC369_PolicyEvict pol) a m = Inl AssertFail"
proof -
  let ?m = "count_miss m"
  note con = policies_contract [OF pol] and w' = w [unfolded frames_work_def]
  have u: "used ?m = used m" "frame_ptes ?m (used m) = frame_ptes m (used m)" by (simp_all add: count_miss_def frame_ptes_def)
  have fo: "frames_ok ?m" using w' u by (simp add: frames_ok_def count_miss_def)
  have ps: "policy_same m ?m" by (simp add: policy_same_def count_miss_def)
  have pi: "policy_inv pol (used m) m" using w' by blast
  have "policy_inv pol (used m) ?m"
    by (rule replacement_policy.inv_cong [OF con pi ps]) (simp add: count_miss_def)
  then have i: "policy_inv pol (used ?m) ?m" unfolding u .
  have "\<exists>f m'. choose_frame (CSC369_PolicyEvict pol) ?m = Inr (f, m') \<and> unat f < length (frames m') \<and>
     pte_mem (heap m') p = pte_mem (heap ?m) p"
    using w' p u by (intro choose_frame_returns [OF con fo i]) (simp_all add: count_miss_def)
  then obtain f m2 where f: "choose_frame (CSC369_PolicyEvict pol) ?m = Inr (f, m2)" "unat f < length (frames m2)"
    "pte_mem (heap m2) p = Some d" using d(1) by (auto simp: count_miss_def)
  define m3 where "m3 = m2\<lparr>frames := (frames m2)[unat f := (frames m2 ! unat f)\<lparr>free := False, pte := Some p\<rparr>]\<rparr>"
  have al: "CSC369_CoremapAllocateFrame (CSC369_PolicyEvict pol) (Some p) ?m = Inr (f, m3)"
    using f by (simp add: CSC369_CoremapAllocateFrame_def m3_def)
  have "pte_mem (heap m3) p = Some d" using f(3) by (simp add: m3_def)
  then have "with_heap (CSC369_PTESetFrameNumber (Some p) f) m3 = Inr (put_pte p (d\<lparr>frame_number := f\<rparr>) m3)"
    by (simp add: with_heap_put)
  moreover have "fill_frame (Some p) f (put_pte p (d\<lparr>frame_number := f\<rparr>) m3) = Inl AssertFail"
    using d(2) by (intro fill_lost [where d = "d\<lparr>frame_number := f\<rparr>"]) (simp_all add: lost_entry_def)
  ultimately have "fault_code (CSC369_PolicyEvict pol) (Some p) ?m = Inl AssertFail"
    by (simp add: fault_code_def al)
  moreover have "m\<lparr>heap := heap m\<rparr> = m" by simp
  ultimately show ?thesis
    using a d by (simp add: MMGetFrameNumber_code pte_getter_defs lost_entry_def)
qed

end
