(* ===== verification/Spec2Isabelle.thy ===== *)
theory Spec2Isabelle
  imports KmallocHash HashFunctions KhashIter CreateFailure PageTableTest PagesFit Output LostPage
begin

text \<open>
  A model of \<open>memsim\<close>, the trace-driven simulator of a demand-paged virtual memory in
  \<open>A2-zengzix2/src\<close>, and the theorems that make it correct.

  \<^bold>\<open>The program.\<close>  \<open>main\<close> (\<open>memsim.c\<close>) parses the options, looks up a replacement policy
  and creates a simulation (\<open>csc369_simulation.c\<close>): the simulated physical memory, the swap
  manager, the coremap and the memory manager.  \<open>CSC369_SimulationRun\<close> reads one access after
  the other from the trace (\<open>csc369_trace.c\<close>) and executes it: \<open>CSC369_MMGetFrameNumber\<close>
  (\<open>csc369_mm.c\<close>) finds the entry of the page in the three-level page table
  (\<open>csc369_page_table.c\<close>), whose memory comes from the tracking allocator
  (\<open>csc369_kmalloc.c\<close>); when the page is not resident, the coremap
  (\<open>csc369_coremap.c\<close>) searches a free frame or asks the policy (\<open>csc369_policy_*.c\<close>) for a
  victim, the eviction handler writes the victim to the swap file (\<open>csc369_swap.c\<close>, whose slots
  are allocated from the bitmap of \<open>csc369_bitutil.c\<close>), and the frame is cleared or filled from
  the swap file; the policy is told of the reference; a write stores a byte in the simulated
  memory, a read compares the byte with the expected one.  At the end everything is destroyed
  and \<open>main\<close> reports whether the allocator saw a leak.

  \<^bold>\<open>The theories\<close>, in the order of their imports.
  \<^item> \<open>Prelude\<close>: faults, the sequencing \<open>bindR\<close> of steps that can fault, byte ranges of lists.
  \<^item> \<open>Defs\<close>: \<open>csc369_def.h\<close>, the geometry of addresses, accesses and statistics.
  \<^item> \<open>Bitutil\<close>: \<open>csc369_bitutil.c\<close>; bit fields read back what was written, the bitmap hands out
    the least free index and refines the set \<open>bm_used\<close>.
  \<^item> \<open>Clist\<close>: \<open>list.h\<close> over a store of links; insertion, deletion, first, last and counting
    refine the operations on the sequence of entries (\<open>dlist\<close>).
  \<^item> \<open>Kmalloc\<close>: \<open>csc369_kmalloc.c\<close>; the counters are the number and the size of the blocks in
    use (\<open>kmalloc_wf\<close>, \<open>live\<close>).  Its table of the blocks handed out is a finite map here.
  \<^item> \<open>Khash\<close>: the hash table \<open>khash.h\<close> of that allocator, with the bits of its flags;
    \<open>KhashInv\<close>, \<open>KhashProbe\<close>, \<open>KhashTable\<close>: flags, the sequence of the quadratic probing (it
    visits every bucket), the invariant \<open>kh_wf\<close>, the contents and the search; \<open>KhashUpdate\<close>,
    \<open>KhashResize\<close>: insertion, deletion, clearing, and the rehashing in place; \<open>KhashMap\<close>: the
    table as a finite map (\<open>kh_rep\<close>), as an interpretation of the interface \<open>key_table\<close> of
    theory \<open>KeyTable\<close>.
  \<^item> \<open>KmallocHash\<close>: the allocator over the hash table; every sequence of its calls has the
    results, faults and counters of the allocator of \<open>Kmalloc\<close>, or aborts in the call in which
    the table itself finds no memory.
  \<^item> \<open>PageTable\<close>, \<open>PageTableInv\<close>, \<open>PTDestroy\<close>, \<open>PTOwn\<close>: \<open>csc369_page_table.c\<close>; the heap of
    entries and tables is a tree (\<open>pt_wf\<close>) and a partial map from paths of indices to entries
    (\<open>pte_at\<close>), allocation extends the map at one path; the blocks in use are those of the tree
    (\<open>pt_own\<close>), and destruction ends and frees each of them once.  \<open>PageTableTest\<close>: the unit
    tests of \<open>tests/check_page_table.c\<close> as functions, and the proof that they pass.
  \<^item> \<open>Swap\<close>: \<open>csc369_swap.c\<close>; page-out and page-in through the offsets of the swap file.
  \<^item> \<open>Machine\<close>: the state of the whole simulator, one record of what the code keeps in its
    structs and global variables.
  \<^item> \<open>Coremap\<close>, \<open>MM\<close>: \<open>csc369_coremap.c\<close> and \<open>csc369_mm.c\<close>.
  \<^item> \<open>Policy\<close>: the interface \<open>csc369_policy.h\<close> and its contract, the locale
    \<open>replacement_policy\<close>; \<open>PolicyRR\<close>, \<open>PolicyRand\<close>, \<open>PolicyClock\<close>, \<open>PolicyS2Q\<close>: the four
    policies, each against its abstract algorithm and as an interpretation of the locale.
  \<^item> \<open>HashFunctions\<close>: the other two hash functions of \<open>khash.h\<close>: the one for strings is a
    polynomial, the one for integers is injective.  \<open>KhashIter\<close>: the iteration macros visit every
    entry of the map once.
  \<^item> \<open>PageLife\<close>: the life of a page as a state machine, \<open>page_step\<close>: absent, resident with or
    without a slot of the swap file and a dirty bit, swapped out.
  \<^item> \<open>MMInv\<close>, \<open>MMSteps\<close>, \<open>MMRefine\<close>, \<open>MMTranslate\<close>: the invariant \<open>mm_ok\<close> that ties entries,
    frames, slots and the bitmap together, the abstract view \<open>page_bytes\<close> (the sixteen bytes of
    every page, wherever they are), and the proofs, once for every policy that keeps the
    contract, that eviction, fill and translation keep both.
  \<^item> \<open>Simulation\<close>: creation, and the execution of an access against a flat memory of bytes.
  \<^item> \<open>CreateFailure\<close>: the resources that a simulation holds; on every error path of the creation
    each of them is released once, except the blocks of the memory manager when its table cannot
    be created.
  \<^item> \<open>Trace\<close>: \<open>csc369_trace.c\<close> with the \<open>fgets\<close> and \<open>sscanf\<close> of the C library; comment lines
    are skipped, printed accesses are read back.
  \<^item> \<open>Memsim\<close>, \<open>Reach\<close>: options, policy table and run; the machines the simulator reaches, as
    an inductive predicate, and their invariant.
  \<^item> \<open>History\<close>: every access moves the pages along \<open>page_step\<close> and evicts one page exactly when
    it faults with every frame in use; misses, frames in use and evictions balance; every
    access is served.  \<open>PagesFit\<close>: runs whose pages all fit into the frames.
  \<^item> \<open>Placement\<close>, \<open>Paging\<close>: where the pages are (\<open>placed\<close>), and the interface \<open>page_algorithm\<close>
    of an algorithm of paging, which works on pages alone and knows neither frames nor tables; its
    hits are those of the simulator.  Round robin is first in, first out (\<open>Paging\<close>), S2Q the
    simplified 2Q algorithm (\<open>PagingQueues\<close>), Clock the second chance algorithm
    (\<open>PagingClock\<close>), Rand random replacement (\<open>PagingRandom\<close>); \<open>PagingPolicies\<close> puts them
    together for the main program.
  \<^item> \<open>LostPage\<close>: what happens to a page that is evicted while the swap file is full.
  \<^item> \<open>Output\<close>: what is printed: the messages of the logger, the statistics with the hit and miss
    rates, the usage text.
  \<^item> \<open>Skeleton\<close>, \<open>Teardown\<close>: what no step changes; the destructors, the handler of fatal
    signals, \<open>main\<close>, and the proof that no block is left in use.

  \<^bold>\<open>Reading the model.\<close>  A function that can fault returns a value of \<open>'a res\<close>: a failed
  \<open>assert\<close>, a NULL or wild pointer, an index past an array, a shift by the width of the word, a
  division by zero and a loop that never ends are the faults.  A theorem whose conclusion is
  \<open>f x = Inr y\<close> therefore says that the code ends without any of them.  Words have the width of
  the C types.  Pointers are addresses, NULL is \<open>None\<close>.  The results of the C library that the
  code does not determine are arguments: which blocks \<open>malloc\<close> returns (\<open>libc_ok\<close>: a block of
  its own for every call; the program frees nothing before the simulation ends and allocates
  nothing after, so no block is handed out again), whether the other allocations, \<open>mkstemp\<close> and \<open>fopen\<close> succeed
  (\<open>csc369_env\<close>), the sequence of \<open>random()\<close>, and the size limit of the swap file.

  \<^bold>\<open>Bounds.\<close>  The theorems on whole runs ask for at most \<open>2 ^ 28\<close> frames (beyond, the byte
  address of a frame wraps around, which is a theorem too), for a swap file with a slot for
  every page of the trace, for room within the quota of the allocator (\<open>km_room\<close>: three
  levels of tables for every page) and for addresses of 48 bits with an offset below the size
  of a simulated frame (\<open>va_ok\<close>).  A machine that the simulator reaches is one that accesses of
  such addresses, to pages of a set for which there is that room, lead to; the model of the
  allocator in these theorems is the one whose table never runs out of memory.  The loops of the code are recursive functions, or partial
  functions where nothing in the code bounds them (\<open>clock_loop\<close>, \<open>list_count_from\<close>,
  \<open>pt_destroy\<close>, the probing and the kick-out loops of the hash table): there the value \<open>Diverges\<close> stands for a loop without end, and the theorems
  show a result.

  \<^bold>\<open>Where the code fails.\<close>  The last properties show inputs on which the code does not do what
  it is meant to: the search function that indexes past the last-level table, the off-by-one in
  the check of the offset and the write into the neighbouring frame it allows, the last line of
  a trace without a newline, the page lost when the swap file is full, the unknown policy, and
  the exhausted quota.  Lemmas of the components show the page-in past the end of the swap file,
  the address of more than 48 bits, the quota against which freed memory still counts, the
  block of size zero that cannot be freed, and the rates of an empty trace.  The properties of
  \<open>kh_resize\<close>, of the allocator over its table and of the failing creation say exactly which
  failed allocation has which effect.

  \<^bold>\<open>Not modelled.\<close>  The rounding of the rates to doubles and to four digits, and the times that
  \<open>main\<close> prints; at which points of a run the other messages appear; the delivery of signals by
  the operating system (\<open>InstallFatalHandlers\<close> and \<open>HandleFatalSignal\<close> are what the program does);
  the registration of the unit tests with the library that runs them, and the CMake files.  What
  is left of the source are prototypes, forward declarations, include guards and comments.  The
  theorems on hash tables are for up to \<open>2 ^ 30\<close> keys: the allocator hands out at most
  \<open>2 ^ 31\<close> bytes over a run.
\<close>

section \<open>The simulator as a whole\<close>

text \<open>
  C1: under every policy of the table, a simulation created with enough room runs any list of
  accesses of 48-bit addresses with an offset below the size of a frame without a fault, and reports for every read what a flat byte memory reports; the
  references are counted, and each of them is a hit or a miss.
\<close>

theorem simulator_refines_flat_memory:
  assumes "pol \<in> set CSC369_POLICIES" "env_ok env" "sizes_ok env n swap_size"
    "km_room k (card (touched as))" "card (touched as) \<le> unat swap_size"
    "\<forall>a \<in> set as. va_ok (virtual_address a)"
  shows "\<exists>m m'. CSC369_SimulationCreate env k n swap_size (Some pol) = Inr (Some m) \<and>
     run_accesses pol as m = Inr (flat_run as (\<lambda>_. 0), m') \<and>
     ref_count (stats m') = of_nat (length as) \<and>
     hit_count (stats m') + miss_count (stats m') = of_nat (length as)"
  using replacement_policy.simulate_ok [OF policies_contract [OF assms(1)] assms(2-6), of pol] by blast

theorem simulator_refines_flat_memory_witness:
  "\<exists>m m'. CSC369_SimulationCreate sample_env sample_km 1 8 (Some policy_RR) = Inr (Some m) \<and>
     run_accesses policy_RR sample_accesses m = Inr ([None, None, None, Some 6], m') \<and>
     ref_count (stats m') = 4"
proof -
  note c = sample_conditions [OF sample_RR, unfolded run_conditions_def]
  have "flat_run sample_accesses (\<lambda>_. 0) = [None, None, None, Some 6]"
    by (simp add: sample_accesses_def flat_step_def is_write_def)
  moreover have "length sample_accesses = 4" by (simp add: sample_accesses_def)
  ultimately show ?thesis
    using simulator_refines_flat_memory [OF sample_RR _ _ _ _ sample_va, of sample_env 1 8 sample_km] c by auto
qed

text \<open>
  C2: \<open>memsim\<close> as a whole, for options that name a policy of the table, the size of the memory and
  that of the swap, and a trace file whose accepted accesses fit: each has an address of 48 bits
  with an offset below the size of a simulated frame (\<open>va_ok\<close>), there is a slot of the swap file
  and room within the quota of the allocator for every page of the trace, the sizes are within
  their bounds (\<open>sizes_ok\<close>), and the calls of the C library succeed.  Then the program ends
  normally, reports what a flat byte memory reports for the accesses that the trace reader
  accepts, counts them, counts the hits and misses of the textbook algorithm that the policy is
  named after, and leaks no memory.
\<close>

theorem main_runs_trace_and_frees:
  assumes "CSC369_TraceCreate True True trace_text = Some tr"
    "pol \<in> set CSC369_POLICIES" "env_ok env" "libc_ok lib"
    "sizes_ok env (unat (strtoul10 ms)) (strtoul10 ss)" "0 < unat (strtoul10 ss)"
    "km_room (CSC369_MallocInit lib) (card (touched (trace_accesses tr)))"
    "card (touched (trace_accesses tr)) \<le> unat (strtoul10 ss)"
    "\<forall>a \<in> set (trace_accesses tr). va_ok (virtual_address a)"
  shows "\<exists>st b. main_program env lib
      [(CHR ''f'', file), (CHR ''m'', ms), (CHR ''s'', ss), (CHR ''a'', policy_name pol)] trace_text =
        Inr (Some \<lparr>messages = flat_run (trace_accesses tr) (\<lambda>_. 0), final_stats = st, bytes_used = b, leak = None\<rparr>) \<and>
      ref_count st = of_nat (length (trace_accesses tr)) \<and>
      hit_count st = of_nat (textbook_hits (policy_name pol) (random_values env) (unat (strtoul10 ms))
        (pages_of (trace_accesses tr))) \<and>
      miss_count st = of_nat (length (trace_accesses tr) -
        textbook_hits (policy_name pol) (random_values env) (unat (strtoul10 ms)) (pages_of (trace_accesses tr)))"
proof -
  let ?k = "CSC369_MallocInit lib" and ?n = "unat (strtoul10 ms)" and ?s = "strtoul10 ss" and ?as = "trace_accesses tr"
  have c: "run_conditions pol env ?k ?n ?s (touched ?as)"
    using assms by (simp add: run_conditions_def touched_def)
  obtain m m' where m: "CSC369_SimulationCreate env ?k ?n ?s (Some pol) = Inr (Some m)"
    "run_accesses pol ?as m = Inr (flat_run ?as (\<lambda>_. 0), m')" "mm_ok {} m'" "ref_count (stats m') = of_nat (length ?as)"
    using replacement_policy.simulate_ok [OF policies_contract [OF assms(2)] assms(3,5,7-9), of pol] by blast
  have "reachable pol env ?k ?n ?s (touched ?as) m'"
    using run_reachable [OF reachable.created [OF m(1)] assms(9) order_refl m(2)] .
  then have "own_ok m'" using reachable_own [OF _ c MallocInit_fresh] by blast
  then obtain b where f: "finish_simulation 0 0 pol (flat_run ?as (\<lambda>_. 0)) m' = Inr \<lparr>messages = flat_run ?as (\<lambda>_. 0),
      final_stats = stats m', bytes_used = b, leak = None\<rparr>"
    using finish_ok [OF _ m(3) assms(2)] by blast
  obtain m1 rs m2 where h: "CSC369_SimulationCreate env ?k ?n ?s (Some pol) = Inr (Some m1)"
    "run_accesses pol ?as m1 = Inr (rs, m2)"
    "hit_count (stats m2) = of_nat (textbook_hits (policy_name pol) (random_values env) ?n (pages_of ?as))"
    "miss_count (stats m2) = of_nat (length ?as - textbook_hits (policy_name pol) (random_values env) ?n (pages_of ?as))"
    using policy_run_counts [OF c assms(9) order_refl] by blast
  have "m2 = m'" using h(1,2) m(1,2) by simp
  note h = h(3,4) [unfolded this]
  have "strtoul10 ms \<noteq> 0" "strtoul10 ss \<noteq> 0"
    using assms(5,6) unat_0 by (auto simp: sizes_ok_def)
  then show ?thesis
    using m(1,2,4) f h assms(1) find_policies [OF assms(2)] km_fresh_report [OF MallocInit_fresh]
    by (simp add: main_program_def CreateSimulationFromArgs_def no_args_def SimulationRun_accesses Let_def)
qed

theorem main_runs_trace_and_frees_witness:
  "\<exists>st b. main_program sample_env (\<lambda>i. Some (Suc i))
      [(CHR ''f'', ''t.txt''), (CHR ''m'', ''1''), (CHR ''s'', ''8''), (CHR ''a'', ''Clock'')]
      (concat (map show_line (Inl ''= two pages'' # map Inr sample_accesses))) =
        Inr (Some \<lparr>messages = [None, None, None, Some 6], final_stats = st, bytes_used = b, leak = None\<rparr>) \<and>
      ref_count st = 4 \<and> hit_count st = 0 \<and> miss_count st = 4"
proof -
  let ?txt = "concat (map show_line (Inl ''= two pages'' # map Inr sample_accesses))"
  have pol: "policy_Clock \<in> set CSC369_POLICIES" by (simp add: CSC369_POLICIES_def)
  note c = sample_conditions [OF pol, unfolded run_conditions_def sample_km_def]
  have "list_all line_ok (Inl ''= two pages'' # map Inr sample_accesses)"
    by (simp add: newline_def sample_accesses_def)
  from trace_round_trip_text [OF this] obtain tr where tr: "CSC369_TraceCreate True True ?txt = Some tr"
    "trace_accesses tr = sample_accesses" by (auto simp: line_accesses_map)
  have "flat_run sample_accesses (\<lambda>_. 0) = [None, None, None, Some 6]"
    by (simp add: sample_accesses_def flat_step_def is_write_def)
  moreover have "libc_ok (\<lambda>i. Some (Suc i))" by (simp add: libc_ok_def inj_on_def)
  moreover have "policy_name policy_Clock = ''Clock''" by (simp add: policy_Clock_def)
  moreover have "length sample_accesses = 4" by (simp add: sample_accesses_def)
  moreover have "textbook_hits ''Clock'' (random_values sample_env) 1 (pages_of sample_accesses) = 0"
    by (simp add: textbook_hits_def sample_accesses_def page_path_def second_chance_step_def clock_rest_def clock_cleared_def)
  ultimately show ?thesis
    using main_runs_trace_and_frees [OF tr(1) pol, of sample_env "\<lambda>i. Some (Suc i)" "''1''" "''8''" "''t.txt''"]
      c sample_va unfolding tr(2) by (simp add: strtoul10_samples)
qed

text \<open>
  C3: address translation in every machine the simulator reaches, under every policy: the
  translation of an address of a known page returns the frame where its page is resident
  afterwards, and no page changes its contents, whatever was evicted for it.
\<close>

theorem translation_keeps_contents:
  assumes "reachable pol env k n swap_size T m" "run_conditions pol env k n swap_size T"
    "unat (virtual_address a) < 2 ^ 48" "page_path (virtual_address a) \<in> T"
  shows "\<exists>v m' e. CSC369_MMGetFrameNumber (CSC369_PolicyEvict pol) a m = Inr (v, m') \<and> unat v < memsize m \<and>
     page m' (page_path (virtual_address a)) = Some e \<and> valid e \<and> frame_number e = v \<and>
     page_bytes m' = page_bytes m"
proof -
  note r = reachable_ok [OF assms(1,2)]
  note s = conjunct1 [OF r] and mm = reachable_mm_ok [OF assms(1,2)]
  have pol: "pol \<in> set CSC369_POLICIES" using assms(2) by (simp add: run_conditions_def)
  have "insert (page_path (virtual_address a)) (dom (page m)) \<subseteq> T" using mm(3) assms(4) by blast
  then obtain v m' where g: "CSC369_MMGetFrameNumber (CSC369_PolicyEvict pol) a m = Inr (v, m')"
    "translated (policy_inv pol) m (page_path (virtual_address a)) v m'"
    using replacement_policy.MMGetFrameNumber_ok [OF policies_contract [OF pol] mm(1,2) assms(3) mm(5) _ mm(4)]
      sim_quota [OF s assms(4)] by blast
  note t = translatedD [OF g(2)]
  obtain e where e: "page m' (page_path (virtual_address a)) = Some e" "valid e" "frame_number e = v"
    using t(2) by blast
  have "unat v < memsize m'" using mm_ok_page [OF t(1) e(1)] e by (auto simp: page_ok_def used_def)
  then show ?thesis using g(1) e t by (auto simp: kept_def)
qed

theorem translation_keeps_contents_witness:
  "\<exists>m v m'. CSC369_MMGetFrameNumber CSC369_PolicyRREvict (sample_accesses ! 1) m = Inr (v, m') \<and>
     unat v < memsize m \<and> page_bytes m' = page_bytes m"
proof -
  obtain m where m: "reachable policy_RR sample_env sample_km 1 8 (touched sample_accesses) m"
    by (rule sample_reachable)
  have a: "sample_accesses ! 1 \<in> set sample_accesses" by (simp add: sample_accesses_def)
  have "unat (virtual_address (sample_accesses ! 1)) < 2 ^ 48" by (simp add: sample_accesses_def)
  from translation_keeps_contents [OF m sample_conditions [OF sample_RR] this] a
  show ?thesis by (auto simp: touched_def policy_RR_def)
qed

text \<open>
  C4: the choice of a frame for a faulting page in every machine the simulator reaches, under
  every policy: the frame exists, it holds no resident page afterwards, and the eviction loses
  no byte of any page.
\<close>

theorem replacement_keeps_contents:
  assumes "reachable pol env k n swap_size T m" "run_conditions pol env k n swap_size T"
  shows "\<exists>v m'. choose_frame (CSC369_PolicyEvict pol) m = Inr (v, m') \<and> unat v < n \<and>
     page_bytes m' = page_bytes m \<and> dom (page m') = dom (page m) \<and>
     (\<forall>xs e. page m' xs = Some e \<longrightarrow> valid e \<longrightarrow> frame_number e \<noteq> v)"
proof -
  note mm = reachable_mm_ok [OF assms(1,2)]
  have pol: "pol \<in> set CSC369_POLICIES" using assms(2) by (simp add: run_conditions_def)
  obtain v m' where c: "choose_frame (CSC369_PolicyEvict pol) m = Inr (v, m')" "unat v < memsize m"
    "mm_ok {unat v} m'" "page_bytes m' = page_bytes m" "dom (page m') = dom (page m)"
    using replacement_policy.choose_frame_ok [OF policies_contract [OF pol] mm(1,2,5,3,4)] by metis
  have "frame_number e \<noteq> v" if "page m' xs = Some e" "valid e" for xs e
    using mm_ok_page [OF c(3) that(1)] that(2) by (auto simp: page_ok_def)
  then show ?thesis using c reachable_ok [OF assms(1,2)] by auto
qed

theorem replacement_keeps_contents_witness:
  "\<exists>m v m'. choose_frame CSC369_PolicyRREvict m = Inr (v, m') \<and> unat v < 1 \<and> page_bytes m' = page_bytes m"
proof -
  obtain m where m: "reachable policy_RR sample_env sample_km 1 8 (touched sample_accesses) m"
    by (rule sample_reachable)
  from replacement_keeps_contents [OF m sample_conditions [OF sample_RR]]
  show ?thesis by (auto simp: policy_RR_def)
qed

text \<open>
  C5: in every machine the simulator reaches, no two resident pages share a frame, and a frame
  is marked free exactly when no page is resident in it.
\<close>

theorem frames_exclusive:
  assumes "reachable pol env k n swap_size T m" "run_conditions pol env k n swap_size T"
  shows "(\<forall>xs ys e d. page m xs = Some e \<and> page m ys = Some d \<and> valid e \<and> valid d \<and>
       frame_number e = frame_number d \<longrightarrow> xs = ys) \<and>
     (\<forall>i < n. free (frames m ! i) \<longleftrightarrow> (\<nexists>xs e. page m xs = Some e \<and> valid e \<and> unat (frame_number e) = i))"
proof (intro conjI allI impI)
  note mm = reachable_mm_ok(1) [OF assms]
  fix xs ys e d
  assume "page m xs = Some e \<and> page m ys = Some d \<and> valid e \<and> valid d \<and> frame_number e = frame_number d"
  then show "xs = ys" using frame_unique [OF mm] by metis
next
  note mm = reachable_mm_ok(1) [OF assms]
  fix i assume "i < n"
  then have "i \<in> used m \<longleftrightarrow> \<not> free (frames m ! i)" using reachable_ok [OF assms] by (simp add: used_def)
  moreover have "unat (frame_number e) \<in> used m" if "page m xs = Some e" "valid e" for xs e
    using mm_ok_page [OF mm that(1)] that(2) by (simp add: page_ok_def)
  ultimately show "free (frames m ! i) \<longleftrightarrow> (\<nexists>xs e. page m xs = Some e \<and> valid e \<and> unat (frame_number e) = i)"
    using mm_ok_frame [OF mm, of i] by blast
qed

theorem frames_exclusive_witness:
  "\<exists>m. reachable policy_RR sample_env sample_km 1 8 (touched sample_accesses) m \<and>
     (free (frames m ! 0) \<longleftrightarrow> (\<nexists>xs e. page m xs = Some e \<and> valid e \<and> unat (frame_number e) = 0))"
proof -
  obtain m where m: "reachable policy_RR sample_env sample_km 1 8 (touched sample_accesses) m"
    by (rule sample_reachable)
  note f = conjunct2 [OF frames_exclusive [OF m sample_conditions [OF sample_RR]], rule_format, OF zero_less_one]
  show ?thesis by (intro exI conjI) (rule m, rule f)
qed

text \<open>
  C6: in every machine the simulator reaches, a slot of the swap file is marked in use exactly
  when one page, and only one, owns it.
\<close>

theorem slots_exclusive:
  assumes "reachable pol env k n swap_size T m" "run_conditions pol env k n swap_size T" "s < 2 ^ 59"
  shows "s \<in> bm_used (swapmap (mswap m)) \<longleftrightarrow> (\<exists>!xs. \<exists>e. page m xs = Some e \<and> swap_offset e = slot_offset s)"
proof
  note mm = reachable_mm_ok(1) [OF assms(1,2)]
  assume "s \<in> bm_used (swapmap (mswap m))"
  then obtain xs e where x: "page m xs = Some e" "swap_offset e = slot_offset s" using mm_ok_slot [OF mm] by blast
  moreover have "slot_offset s \<noteq> CSC369_INVALID_SWAP" using assms(3) by (rule slot_offset_valid)
  ultimately show "\<exists>!xs. \<exists>e. page m xs = Some e \<and> swap_offset e = slot_offset s"
    using mm_ok_offset [OF mm] by metis
next
  note mm = reachable_mm_ok(1) [OF assms(1,2)]
  assume "\<exists>!xs. \<exists>e. page m xs = Some e \<and> swap_offset e = slot_offset s"
  then obtain xs e where x: "page m xs = Some e" "swap_offset e = slot_offset s" by blast
  moreover have "slot_offset s \<noteq> CSC369_INVALID_SWAP" using assms(3) by (rule slot_offset_valid)
  ultimately obtain t where t: "slot_offset s = slot_offset t" "t \<in> bm_used (swapmap (mswap m))"
    using mm_ok_page [OF mm x(1)] by (auto simp: page_ok_def slot_ok_def has_slot_def)
  moreover have "t < 2 ^ 59" using t(2) mm_ok_base [OF mm] slot_lt by (auto simp: mm_base_def)
  ultimately show "s \<in> bm_used (swapmap (mswap m))" using assms(3) slot_offset_inj by blast
qed

theorem slots_exclusive_witness:
  "\<exists>m. reachable policy_RR sample_env sample_km 1 8 (touched sample_accesses) m \<and>
     (3 \<in> bm_used (swapmap (mswap m)) \<longleftrightarrow> (\<exists>!xs. \<exists>e. page m xs = Some e \<and> swap_offset e = 48))"
proof -
  obtain m where m: "reachable policy_RR sample_env sample_km 1 8 (touched sample_accesses) m"
    by (rule sample_reachable)
  from slots_exclusive [OF m sample_conditions [OF sample_RR], of 3] m
  show ?thesis by (auto simp: slot_offset_def)
qed

text \<open>
  C7: in every machine the simulator reaches, the destruction of the simulation ends: the page
  tables are walked without touching a freed block, no block is freed twice, and afterwards no
  block is in use, which the leak check of the program confirms.
\<close>

theorem destruction_frees_everything:
  assumes "reachable pol env (CSC369_MallocInit lib) n swap_size T m"
    "run_conditions pol env (CSC369_MallocInit lib) n swap_size T"
  shows "\<exists>m'. CSC369_SimulationDestroy pol m = Inr m' \<and> live (km (heap m')) = Map.empty \<and>
     pte_mem (heap m') = Map.empty \<and> pt_mem (heap m') = Map.empty \<and>
     CSC369_MallocIsLeakFree 0 0 (km (heap m')) = Inr True"
proof -
  have pol: "pol \<in> set CSC369_POLICIES" using assms(2) by (simp add: run_conditions_def)
  have own: "own_ok m" by (rule reachable_own [OF assms MallocInit_fresh])
  obtain m' where "CSC369_SimulationDestroy pol m = Inr m'" "km_fresh (km (heap m'))"
    "pte_mem (heap m') = Map.empty" "pt_mem (heap m') = Map.empty"
    by (rule SimulationDestroy_ok [OF own reachable_mm_ok(1) [OF assms] pol])
  then show ?thesis using km_fresh_report(1) by (auto simp: km_fresh_def)
qed

theorem destruction_frees_everything_witness:
  "\<exists>m m'. reachable policy_RR sample_env sample_km 1 8 (touched sample_accesses) m \<and>
     CSC369_SimulationDestroy policy_RR m = Inr m' \<and> live (km (heap m')) = Map.empty"
proof -
  obtain m where m: "reachable policy_RR sample_env sample_km 1 8 (touched sample_accesses) m"
    by (rule sample_reachable)
  from destruction_frees_everything [OF m [unfolded sample_km_def] sample_conditions [OF sample_RR, unfolded sample_km_def]] m
  show ?thesis by blast
qed

section \<open>Where the code fails\<close>

text \<open>
  C38: the name of a policy that is not in the table aborts the program: the missing policy is
  not checked before the creation asserts that there is one.  The handler of the abort signal
  then dereferences the global simulation, which is still NULL.
\<close>

theorem unknown_policy_aborts:
  assumes "alg \<notin> policy_name ` set CSC369_POLICIES" "strtoul10 ms \<noteq> 0" "strtoul10 ss \<noteq> 0"
  shows "main_program env lib [(CHR ''f'', file), (CHR ''m'', ms), (CHR ''s'', ss), (CHR ''a'', alg)] trace_text =
     Inl AssertFail \<and> InstallFatalHandlers acts SIGABRT = Fatal_Handler \<and>
     HandleFatalSignal SIGABRT None = Inl NullDeref"
  using find_policy_None [OF assms(1)] assms(2,3)
    km_fresh_report [OF MallocInit_fresh]
  by (simp add: main_program_def CreateSimulationFromArgs_def no_args_def GetReplacementAlgorithm_def
      CSC369_SimulationCreate_def Let_def HandleFatalSignal_def InstallFatalHandlers_def)

theorem unknown_policy_aborts_witness:
  "main_program sample_env (\<lambda>i. Some i)
     [(CHR ''f'', ''t.txt''), (CHR ''m'', ''1''), (CHR ''s'', ''8''), (CHR ''a'', ''LRU'')] [] = Inl AssertFail"
proof -
  have "''LRU'' \<notin> policy_name ` set CSC369_POLICIES"
    by (simp add: CSC369_POLICIES_def policy_Rand_def policy_RR_def policy_Clock_def policy_S2Q_def)
  from unknown_policy_aborts [OF this] show ?thesis by (simp add: strtoul10_samples)
qed

text \<open>
  C37: with every slot of the swap file in use, evicting a page that has no slot ends without an
  error, writes nothing to the swap file and marks the page as swapped out to the invalid offset.
  In any later machine in which its entry is still so and no frame points to it, and in which the
  frames, the policy and the swap manager are in order, an access to the page finds a frame,
  free or evicted, and then aborts in the page-in.
\<close>

theorem full_swap_loses_page:
  assumes "pte_mem (heap m) p = Some e" "swap_offset e = CSC369_INVALID_SWAP" "swap_wf (mswap m)"
    "bm_used (swapmap (mswap m)) = {..< unat (nbits (swapmap (mswap m)))}"
  shows "(\<exists>m' d. CSC369_MMHandleEviction (Some p) m = Inr m' \<and> mswap m' = mswap m \<and>
       pte_mem (heap m') p = Some d \<and> lost_entry d) \<and>
     (\<forall>pol a m1 d. pol \<in> set CSC369_POLICIES \<and> frames_work pol m1 \<and> pte_mem (heap m1) p = Some d \<and> lost_entry d \<and>
       p \<notin> frame_ptes m1 (used m1) \<and>
       CSC369_PageTableAllocate (mm_root m1) (virtual_address a) (heap m1) = Inr (Some p, heap m1) \<longrightarrow>
       CSC369_MMGetFrameNumber (CSC369_PolicyEvict pol) a m1 = Inl AssertFail)"
  using HandleEviction_full [OF assms] lost_page_fault by blast

text \<open>A machine with one frame, free, whose only page is the lost one of the address \<open>0x1000\<close>.\<close>

lemma lost_machine:
  obtains m p d where "frames_work policy_RR m" "pte_mem (heap m) p = Some d" "lost_entry d"
    "p \<notin> frame_ptes m (used m)" "CSC369_PageTableAllocate (mm_root m) 0x1000 (heap m) = Inr (Some p, heap m)"
proof -
  have "unat (0x1000 :: u64) < 2 ^ 48" by simp
  from PageTableAllocate_spec [OF empty_table_wf this empty_table_quota] empty_table_at
  obtain p h where h: "pt_wf h 0" "pte_at h 0 (page_path 0x1000) = Some p" "pte_mem h p = Some init_pte" by metis
  let ?d = "init_pte\<lparr>on_swap := True\<rparr>"
  let ?h = "h\<lparr>pte_mem := (pte_mem h)(p \<mapsto> ?d)\<rparr>"
  let ?m = "(full_machine 1)\<lparr>heap := ?h, mm_root := Some 0, frames := [\<lparr>free = True, pte = None\<rparr>]\<rparr>"
  have u: "used ?m = {}" by (auto simp: used_def intro!: gr0I)
  have "same_tree h ?h" by (rule same_tree_upd [OF h(3)]) simp
  then have "pt_wf ?h 0" "pte_at ?h 0 (page_path 0x1000) = Some p"
    using same_tree_wf same_tree_at h(1,2) by metis+
  then have a: "CSC369_PageTableAllocate (Some 0) 0x1000 ?h = Inr (Some p, ?h)" by (rule PageTableAllocate_hit)
  have w: "frames_work policy_RR ?m"
    unfolding frames_work_def frames_ok_def u
    by (simp add: policy_inv_def policy_RR_def rr_inv_def)
      (simp add: full_machine_def swap_wf_def bm_wf_def)
  show thesis
  proof (rule that [OF w])
    show "pte_mem (heap ?m) p = Some ?d" by simp
    show "lost_entry ?d" by (simp add: lost_entry_def init_pte_def CSC369_INVALID_SWAP_def)
    show "p \<notin> frame_ptes ?m (used ?m)" unfolding u by simp
    show "CSC369_PageTableAllocate (mm_root ?m) 0x1000 (heap ?m) = Inr (Some p, heap ?m)" using a by simp
  qed
qed

theorem full_swap_loses_page_witness:
  "(\<exists>m' d. CSC369_MMHandleEviction (Some 0) (full_machine 1) = Inr m' \<and> pte_mem (heap m') 0 = Some d \<and> lost_entry d) \<and>
   (\<exists>m1. CSC369_MMGetFrameNumber CSC369_PolicyRREvict
     \<lparr>access_type = CSC369_ACCESS_TYPE_LOAD, virtual_address = 0x1000, access_value = 1\<rparr> m1 = Inl AssertFail)"
proof -
  let ?a = "\<lparr>access_type = CSC369_ACCESS_TYPE_LOAD, virtual_address = 0x1000, access_value = 1 :: byte\<rparr>"
  obtain m1 p d where m1: "frames_work policy_RR m1" "pte_mem (heap m1) p = Some d" "lost_entry d"
    "p \<notin> frame_ptes m1 (used m1)" "CSC369_PageTableAllocate (mm_root m1) 0x1000 (heap m1) = Inr (Some p, heap m1)"
    by (rule lost_machine)
  let ?e = "init_pte\<lparr>frame_number := 0, valid := True\<rparr>"
  have sw: "swap_wf (mswap (full_machine 1))" "swap_offset ?e = CSC369_INVALID_SWAP"
    "bm_used (swapmap (mswap (full_machine 1))) = {..< unat (nbits (swapmap (mswap (full_machine 1))))}"
    by (auto simp: full_machine_def init_pte_def swap_wf_def bm_wf_def bm_used_def CSC369_INVALID_SWAP_def)
  have e: "pte_mem (heap (full_machine 1)) 0 = Some ?e" by (simp add: full_machine_def)
  let ?m = "(full_machine 1)\<lparr>heap := (heap (full_machine 1))\<lparr>pte_mem := (pte_mem (heap (full_machine 1)))(p \<mapsto> ?e)\<rparr>\<rparr>"
  have pe: "pte_mem (heap ?m) p = Some ?e" "mswap ?m = mswap (full_machine 1)" by simp_all
  have "CSC369_MMGetFrameNumber (CSC369_PolicyEvict policy_RR) ?a m1 = Inl AssertFail"
    using conjunct2 [OF full_swap_loses_page [OF pe(1) sw(2), unfolded pe(2), OF sw(1,3)]] m1 sample_RR by simp
  then have "CSC369_MMGetFrameNumber CSC369_PolicyRREvict ?a m1 = Inl AssertFail" by (simp add: policy_RR_def)
  moreover have "\<exists>m' d. CSC369_MMHandleEviction (Some 0) (full_machine 1) = Inr m' \<and> pte_mem (heap m') 0 = Some d \<and> lost_entry d"
    using conjunct1 [OF full_swap_loses_page [OF e sw(2,1,3)]] by blast
  ultimately show ?thesis by blast
qed

text \<open>
  C39: with less than the 32 bytes of an entry left under the quota, an access to a page of a
  48-bit address that has no entry fails.  When a table on the way is missing, the allocation of
  the entry dereferences the NULL that it has stored itself; when only the entry in the last
  table is missing, it returns NULL without an error and the translation aborts in its assertion.
\<close>

theorem page_table_quota_crash:
  assumes "mm_root m = Some r" "pt_wf (heap m) r" "unat (virtual_address a) < 2 ^ 48"
    "pte_at (heap m) r (page_path (virtual_address a)) = None"
    "bytes_malloced (km (heap m)) \<le> 2 ^ 31" "2 ^ 31 < bytes_malloced (km (heap m)) + 32"
  shows "CSC369_PageTableAllocate (Some r) (virtual_address a) (heap m) =
       (if last_table (heap m) r (virtual_address a) = None then Inl NullDeref else Inr (None, heap m)) \<and>
     CSC369_MMGetFrameNumber evict a m =
       Inl (if last_table (heap m) r (virtual_address a) = None then NullDeref else AssertFail)"
  using PageTableAllocate_over_quota [OF assms(2-6)] assms(1)
  by (simp add: MMGetFrameNumber_code pte_getter_defs pte_get_def)

theorem page_table_quota_crash_witness:
  "\<exists>m. CSC369_MMGetFrameNumber CSC369_PolicyRREvict
     \<lparr>access_type = CSC369_ACCESS_TYPE_LOAD, virtual_address = 0x1000, access_value = 1\<rparr> m = Inl NullDeref"
proof -
  let ?h = "empty_table\<lparr>km := (km empty_table)\<lparr>bytes_malloced := 2 ^ 31\<rparr>\<rparr>"
  let ?m = "(full_machine 1)\<lparr>heap := ?h, mm_root := Some 0\<rparr>"
  let ?a = "\<lparr>access_type = CSC369_ACCESS_TYPE_LOAD, virtual_address = 0x1000, access_value = 1 :: byte\<rparr>"
  have t: "tslot ?h t i = None" "subt ?h p = None" for t i p
    by (simp_all add: tslot_def subt_def empty_table_def)
  have w: "pt_wf (heap ?m) 0"
    unfolding pt_wf_def using t by (simp add: empty_table_def CSC369_MallocInit_def libc_ok_def handed_out_def)
  have l: "last_table (heap ?m) 0 0x1000 = None" "pte_at (heap ?m) 0 (page_path 0x1000) = None"
    using t by (simp_all add: last_table_def page_path_def)
  have "CSC369_MMGetFrameNumber CSC369_PolicyRREvict ?a ?m =
       Inl (if last_table (heap ?m) 0 (virtual_address ?a) = None then NullDeref else AssertFail)"
    using l by (intro conjunct2 [OF page_table_quota_crash [OF _ w]]) (simp_all add: empty_table_def)
  then have "CSC369_MMGetFrameNumber CSC369_PolicyRREvict ?a ?m = Inl NullDeref" using l(1) by simp
  then show ?thesis by blast
qed

text \<open>
  C36: the trace reader lets an access with the offset 16 through, one past the simulated frame.
  When such an access is a write, it is translated to the frame of its page, and then changes the
  first byte of the next frame instead; a page that is resident there loses its byte, and no
  other page changes.  When the frame is the last one, the write leaves the simulated memory.
\<close>

theorem offset_sixteen_overruns:
  assumes "reachable pol env k n swap_size T m" "run_conditions pol env k n swap_size T"
    "unat (virtual_address a) < 2 ^ 48" "unat (virtual_address a) mod 4096 = 16"
    "page_path (virtual_address a) \<in> T" "is_write a"
  shows "(\<forall>tr rest. unread tr = show_access a @ rest \<longrightarrow> fst (CSC369_TraceRead tr) = Some a) \<and>
     (\<exists>v m1 e m2. CSC369_MMGetFrameNumber (CSC369_PolicyEvict pol) a m = Inr (v, m1) \<and>
       page m1 (page_path (virtual_address a)) = Some e \<and> valid e \<and> frame_number e = v \<and> unat v < n \<and>
       CSC369_PolicyOnRef pol (unat v) m1 = Inr m2 \<and> page_bytes m2 = page_bytes m \<and>
       (let m' = m2\<lparr>physmem := (physmem m1)[16 * (unat v + 1) := access_value a]\<rparr> in
        ExecuteMemInstruction (CSC369_PolicyOnRef pol) (CSC369_PolicyEvict pol) a m =
          (if unat v + 1 = n then Inl OutOfBounds else Inr (None, m')) \<and>
        (\<forall>ys d. page m2 ys = Some d \<and> valid d \<and> unat (frame_number d) = unat v + 1 \<longrightarrow>
          page_bytes m' = (page_bytes m)(ys := (page_bytes m ys)[0 := access_value a]))))"
proof (intro conjI allI impI)
  fix tr :: csc369_trace and rest assume "unread tr = show_access a @ rest"
  then show "fst (CSC369_TraceRead tr) = Some a"
    by (rule trace_accepts_offset_past_frame) (use assms(4) in simp)
next
  note r = reachable_ok [OF assms(1,2)]
  note s = conjunct1 [OF r] and mm = reachable_mm_ok [OF assms(1,2)]
  have pol: "pol \<in> set CSC369_POLICIES" using assms(2) by (simp add: run_conditions_def)
  have "insert (page_path (virtual_address a)) (dom (page m)) \<subseteq> T" using mm(3) assms(5) by blast
  then obtain v m1 where g: "CSC369_MMGetFrameNumber (CSC369_PolicyEvict pol) a m = Inr (v, m1)"
    "translated (policy_inv pol) m (page_path (virtual_address a)) v m1"
    using replacement_policy.MMGetFrameNumber_ok [OF policies_contract [OF pol] mm(1,2) assms(3) mm(5) _ mm(4)]
      sim_quota [OF s assms(5)] by blast
  note t = translatedD [OF g(2)]
  obtain e where e: "page m1 (page_path (virtual_address a)) = Some e" "valid e" "frame_number e = v"
    using t(2) by blast
  have v: "unat v < memsize m1" using mm_ok_page [OF t(1) e(1)] e by (auto simp: page_ok_def used_def)
  obtain U where U: "U \<subseteq> used m1" "insert (unat v) U = used m1" "policy_inv pol U m1"
    "unat v \<in> U \<or> \<not> frame_ref m1 (unat v)" using t(5) by (elim exE conjE)
  have "unat v \<in> used m1" using U(2) by blast
  then obtain m2 where o: "CSC369_PolicyOnRef pol (unat v) m1 = Inr m2" "core_eq m1 m2"
    using replacement_policy.on_ref_ok [OF policies_contract [OF pol] mm_ok_frames_ok [OF t(1)] _ U(1,4,3)] by blast
  have sv: "same_view m1 m2" by (rule core_eq_view [OF o(2) t(1)])
  have ok2: "mm_ok {} m2" by (rule same_view_ok [OF sv t(1)])
  have pb: "page_bytes m2 = page_bytes m" using same_view_bytes [OF sv] t(3) by simp
  have n: "memsize m1 = n" using t(6) r by (simp add: kept_def)
  have b: "length (physmem m2) = 16 * n" "n \<le> 2 ^ 28" "physmem m2 = physmem m1"
    using mm_ok_base [OF t(1)] o(2) n by (auto simp: mm_base_def core_eq_def)
  let ?m' = "m2\<lparr>physmem := (physmem m1)[16 * (unat v + 1) := access_value a]\<rparr>"
  have "unat (v * 16 :: u64) = 16 * unat v" using v n b by (simp add: unat_word_ariths)
  then have "uint (v * 16) = int (16 * unat v)" unfolding uint_nat by simp
  then have pa: "uint (v * 16) + sint (virtual_address a) smod 4096 = int (16 * (unat v + 1))"
    using frame_offset [OF assms(3)] assms(4) by simp
  have ex: "ExecuteMemInstruction (CSC369_PolicyOnRef pol) (CSC369_PolicyEvict pol) a m =
       (if unat v + 1 = n then Inl OutOfBounds else Inr (None, ?m'))"
    unfolding b(3) [symmetric] using g(1) o(1) v n b(1) assms(6)
    by (simp add: ExecuteMemInstruction_def CSC369_CoremapGetFrame_def pa Let_def del: of_nat_add of_nat_mult)
  have "page_bytes ?m' = (page_bytes m)(ys := (page_bytes m ys)[0 := access_value a])"
    if "page m2 ys = Some d" "valid d" "unat (frame_number d) = unat v + 1" for ys d
    using store_bytes [OF ok2 that(1,2), of 0 "access_value a"] that(3) pb b(3) by simp
  then show "\<exists>v m1 e m2. CSC369_MMGetFrameNumber (CSC369_PolicyEvict pol) a m = Inr (v, m1) \<and>
       page m1 (page_path (virtual_address a)) = Some e \<and> valid e \<and> frame_number e = v \<and> unat v < n \<and>
       CSC369_PolicyOnRef pol (unat v) m1 = Inr m2 \<and> page_bytes m2 = page_bytes m \<and>
       (let m' = m2\<lparr>physmem := (physmem m1)[16 * (unat v + 1) := access_value a]\<rparr> in
        ExecuteMemInstruction (CSC369_PolicyOnRef pol) (CSC369_PolicyEvict pol) a m =
          (if unat v + 1 = n then Inl OutOfBounds else Inr (None, m')) \<and>
        (\<forall>ys d. page m2 ys = Some d \<and> valid d \<and> unat (frame_number d) = unat v + 1 \<longrightarrow>
          page_bytes m' = (page_bytes m)(ys := (page_bytes m ys)[0 := access_value a])))"
    unfolding Let_def using g(1) e o(1) v n pb ex by blast
qed

theorem offset_sixteen_overruns_witness:
  "\<exists>m. reachable policy_RR sample_env sample_km 1 8 (touched sample_accesses) m \<and>
     ExecuteMemInstruction CSC369_PolicyRROnRef CSC369_PolicyRREvict
       \<lparr>access_type = CSC369_ACCESS_TYPE_STORE, virtual_address = 0x1010, access_value = 1\<rparr> m = Inl OutOfBounds"
proof -
  obtain m where m: "reachable policy_RR sample_env sample_km 1 8 (touched sample_accesses) m"
    by (rule sample_reachable)
  let ?a = "\<lparr>access_type = CSC369_ACCESS_TYPE_STORE, virtual_address = 0x1010, access_value = 1 :: byte\<rparr>"
  have "page_path (0x1010 :: u64) = page_path 0x1003" by (simp add: page_path_page)
  then have p: "page_path (virtual_address ?a) \<in> touched sample_accesses"
    by (simp add: touched_def sample_accesses_def)
  have a: "unat (virtual_address ?a) < 2 ^ 48" "unat (virtual_address ?a) mod 4096 = 16" "is_write ?a"
    by (simp_all add: is_write_def)
  from conjunct2 [OF offset_sixteen_overruns [OF m sample_conditions [OF sample_RR] a(1,2) p a(3)]]
  have "ExecuteMemInstruction (CSC369_PolicyOnRef policy_RR) (CSC369_PolicyEvict policy_RR) ?a m = Inl OutOfBounds"
    unfolding Let_def by (elim exE conjE) simp
  then have "ExecuteMemInstruction CSC369_PolicyRROnRef CSC369_PolicyRREvict ?a m = Inl OutOfBounds"
    by (simp add: policy_RR_def)
  with m show ?thesis by blast
qed

end
